(* ===== verification/Prelude.thy ===== *)
theory Prelude
  imports Main "HOL-Library.Word" "HOL-Library.AList"
begin

text \<open>
  Shared vocabulary of the development: the collections the component proofs use, Go's
  sized integers and error values, generic list lemmas, and reachability with its
  invariant rule as the contract a family of steps has with an invariant.
\<close>

section \<open>Collections of facts\<close>

named_theorems gomap_simps \<open>reading a Go map after an update\<close>
named_theorems chan_simps \<open>buffered channels\<close>
named_theorems board_simps \<open>the fields each board operation touches\<close>
named_theorems opcode_simps \<open>operation and status codes as numerals\<close>

section \<open>Sized integers and errors\<close>

type_synonym uint8 = "8 word"
type_synonym uint32 = "32 word"
type_synonym uint64 = "64 word"

text \<open>
  Go's \<open>error\<close> interface: \<open>None\<close> is \<open>nil\<close>. The program makes errors with
  \<open>fmt.Errorf\<close>; a library hands back values of its own, which the program only
  compares with \<open>nil\<close> or passes on.
\<close>

datatype error = Errorf string | LibError string

type_synonym err = "error option"

abbreviation nil :: err where "nil \<equiv> None"

lemma unat_less_32: "unat (x :: uint32) < 2 ^ 32"
  using unsigned_less [where 'a = nat, of x] by simp

lemma unat_less_64: "unat (x :: uint64) < 2 ^ 64"
  using unsigned_less [where 'a = nat, of x] by simp

section \<open>Lists\<close>

lemma distinct_map_fst_inj:
  "distinct (map fst m) \<Longrightarrow> (k, v) \<in> set m \<Longrightarrow> (k, w) \<in> set m \<Longrightarrow> v = w"
  by (meson eq_key_imp_eq_value)

lemma count_list_distinct: "distinct xs \<Longrightarrow> count_list xs x \<le> 1"
  by (induction xs) (auto simp: count_list_0_iff)

lemma append_from_Cons:
  assumes "f [] = []" "\<And>x xs. f (x # xs) = f [x] @ f xs"
  shows "f (xs @ ys) = f xs @ f ys"
proof (induction xs)
  case (Cons x xs)
  then show ?case using assms(2) [of x "xs @ ys"] assms(2) [of x xs] by simp
qed (simp add: assms(1))

section \<open>Reachable states and invariants\<close>

text \<open>
  A component with interleaved goroutines is a start predicate and a labelled step
  relation. What every step keeps is an invariant of every reachable state.
\<close>

inductive reach :: "('s \<Rightarrow> bool) \<Rightarrow> ('s \<Rightarrow> 'l \<Rightarrow> 's \<Rightarrow> bool) \<Rightarrow> 's \<Rightarrow> bool"
  for init step where
  reach_init: "init s \<Longrightarrow> reach init step s"
| reach_step: "reach init step s \<Longrightarrow> step s l t \<Longrightarrow> reach init step t"

inductive run :: "('s \<Rightarrow> 'l \<Rightarrow> 's \<Rightarrow> bool) \<Rightarrow> 's \<Rightarrow> 'l list \<Rightarrow> 's \<Rightarrow> bool"
  for step where
  run_nil: "run step s [] s"
| run_cons: "step s l t \<Longrightarrow> run step t ls u \<Longrightarrow> run step s (l # ls) u"

inductive_cases run_nilE: "run step s [] t"
inductive_cases run_consE: "run step s (l # ls) t"

lemma run_one: "step s l t \<Longrightarrow> run step s [l] t"
  by (rule run_cons [OF _ run_nil])

lemma run_append: "run step s ls t \<Longrightarrow> run step t ms u \<Longrightarrow> run step s (ls @ ms) u"
  by (induction rule: run.induct) (auto intro: run.intros)

lemma run_snoc: "run step s ls t \<Longrightarrow> step t l u \<Longrightarrow> run step s (ls @ [l]) u"
  by (rule run_append) (auto intro: run.intros)

lemma reach_run: "run step s ls t \<Longrightarrow> reach init step s \<Longrightarrow> reach init step t"
  by (induction rule: run.induct) (auto intro: reach.intros)

locale invariant_of =
  fixes init :: "'s \<Rightarrow> bool"
    and step :: "'s \<Rightarrow> 'l \<Rightarrow> 's \<Rightarrow> bool"
    and Inv :: "'s \<Rightarrow> bool"
  assumes start_keeps: "init s \<Longrightarrow> Inv s"
    and step_keeps: "step s l t \<Longrightarrow> Inv s \<Longrightarrow> Inv t"
begin

lemma holds_reachable: "reach init step s \<Longrightarrow> Inv s"
  by (induction rule: reach.induct) (auto intro: start_keeps step_keeps)

lemma holds_along: "run step s ls t \<Longrightarrow> Inv s \<Longrightarrow> Inv t"
  by (induction rule: run.induct) (auto intro: step_keeps)

end

end
