(* ===== verification/Go_Runtime.thy ===== *)
theory Go_Runtime
  imports Prelude
begin

text \<open>
  What the program uses of Go itself: maps (with their unspecified iteration order),
  buffered channels, and the outcome of a goroutine that runs until it returns or parks.
\<close>

section \<open>Maps\<close>

text \<open>
  A Go map is a finite table with one entry per key. It is kept as a list of entries so
  that \<open>range\<close> loops run; the order of the list is the iteration order of one
  particular execution, and everything proved about a loop has to hold for every order.
\<close>

type_synonym ('k, 'v) gomap = "('k \<times> 'v) list"

definition mempty :: "('k, 'v) gomap" where
  "mempty = []"

definition mget :: "('k, 'v) gomap \<Rightarrow> 'k \<Rightarrow> 'v option" where
  "mget m k = map_of m k"

definition mset_to :: "'k \<Rightarrow> 'v \<Rightarrow> ('k, 'v) gomap \<Rightarrow> ('k, 'v) gomap" where
  "mset_to k v m = AList.update k v m"

definition mdelete :: "'k \<Rightarrow> ('k, 'v) gomap \<Rightarrow> ('k, 'v) gomap" where
  "mdelete k m = AList.delete k m"

definition mwf :: "('k, 'v) gomap \<Rightarrow> bool" where
  "mwf m = distinct (map fst m)"

definition mhas :: "('k, 'v) gomap \<Rightarrow> 'k \<Rightarrow> bool" where
  "mhas m k = (mget m k \<noteq> None)"

locale finite_table =
  fixes empty :: 'm
    and put :: "'k \<Rightarrow> 'v \<Rightarrow> 'm \<Rightarrow> 'm"
    and del :: "'k \<Rightarrow> 'm \<Rightarrow> 'm"
    and get :: "'m \<Rightarrow> 'k \<Rightarrow> 'v option"
    and entries :: "'m \<Rightarrow> ('k \<times> 'v) set"
    and ok :: "'m \<Rightarrow> bool"
  assumes get_empty: "get empty k = None"
    and get_put: "get (put k v m) j = (if j = k then Some v else get m j)"
    and get_del: "get (del k m) j = (if j = k then None else get m j)"
    and get_entries: "ok m \<Longrightarrow> (k, v) \<in> entries m \<longleftrightarrow> get m k = Some v"
    and ok_empty: "ok empty"
    and ok_put: "ok m \<Longrightarrow> ok (put k v m)"
    and ok_del: "ok m \<Longrightarrow> ok (del k m)"
begin

lemma get_put_fun: "get (put k v m) = (get m)(k \<mapsto> v)"
  by (rule ext) (simp add: get_put)

lemma get_del_fun: "get (del k m) = (get m)(k := None)"
  by (rule ext) (simp add: get_del)

lemma last_put_wins: "get (put k w (put k v m)) = get (put k w m)"
  by (rule ext) (simp add: get_put)

lemma put_then_del: "get (del k (put k v m)) = get (del k m)"
  by (rule ext) (simp add: get_put get_del)

lemma put_commute: "j \<noteq> k \<Longrightarrow> get (put j w (put k v m)) = get (put k v (put j w m))"
  by (rule ext) (simp add: get_put)

lemma entries_put:
  "ok m \<Longrightarrow> entries (put k v m) = insert (k, v) {e \<in> entries m. fst e \<noteq> k}"
  by (auto simp: get_entries ok_put get_put split: if_splits)

lemma entries_del: "ok m \<Longrightarrow> entries (del k m) = {e \<in> entries m. fst e \<noteq> k}"
  by (auto simp: get_entries ok_del get_del split: if_splits)

lemma entries_empty: "entries empty = {}"
  using get_entries [OF ok_empty] by (auto simp: get_empty)

end

interpretation gm: finite_table mempty mset_to mdelete mget set mwf
proof unfold_locales
  fix m :: "('k, 'v) gomap" and k v
  show "mwf m \<Longrightarrow> (k, v) \<in> set m \<longleftrightarrow> mget m k = Some v"
    by (simp add: mwf_def mget_def)
qed (auto simp: mempty_def mget_def mset_to_def mdelete_def mwf_def update_conv' delete_conv'
      distinct_update distinct_delete)

lemmas [gomap_simps] = gm.get_empty gm.get_put gm.get_del gm.ok_empty gm.ok_put gm.ok_del

lemma mhas_simps [gomap_simps]:
  "\<not> mhas mempty k"
  "mhas (mset_to k v m) j \<longleftrightarrow> j = k \<or> mhas m j"
  "mhas (mdelete k m) j \<longleftrightarrow> j \<noteq> k \<and> mhas m j"
  by (auto simp: mhas_def gomap_simps)

lemma mdelete_absent: "\<not> mhas m k \<Longrightarrow> mdelete k m = m"
  by (induction m) (auto simp: mhas_def mget_def mdelete_def split: if_splits)

section \<open>Buffered channels\<close>

text \<open>
  A channel made with \<open>make(chan T, n)\<close>: a send parks when \<open>n\<close> elements are
  waiting, a receive parks when none is. \<open>None\<close> stands for parking.
\<close>

record 'a chan =
  ccap :: nat
  cbuf :: "'a list"

definition make_chan :: "nat \<Rightarrow> 'a chan" where
  "make_chan n = \<lparr>ccap = n, cbuf = []\<rparr>"

definition chan_send :: "'a chan \<Rightarrow> 'a \<Rightarrow> 'a chan option" where
  "chan_send c x =
     (if length (cbuf c) < ccap c then Some (c\<lparr>cbuf := cbuf c @ [x]\<rparr>) else None)"

definition chan_recv :: "'a chan \<Rightarrow> ('a \<times> 'a chan) option" where
  "chan_recv c = (case cbuf c of [] \<Rightarrow> None | x # xs \<Rightarrow> Some (x, c\<lparr>cbuf := xs\<rparr>))"

definition chan_ok :: "'a chan \<Rightarrow> bool" where
  "chan_ok c \<longleftrightarrow> length (cbuf c) \<le> ccap c"

locale bounded_fifo =
  fixes contents :: "'c \<Rightarrow> 'a list"
    and bound :: "'c \<Rightarrow> nat"
    and send :: "'c \<Rightarrow> 'a \<Rightarrow> 'c option"
    and recv :: "'c \<Rightarrow> ('a \<times> 'c) option"
    and ok :: "'c \<Rightarrow> bool"
  assumes send_Some: "send c x = Some d \<Longrightarrow>
      contents d = contents c @ [x] \<and> bound d = bound c \<and> (ok c \<longrightarrow> ok d)"
    and send_None: "ok c \<Longrightarrow> send c x = None \<longleftrightarrow> length (contents c) = bound c"
    and recv_Some: "recv c = Some (y, d) \<Longrightarrow>
      contents c = y # contents d \<and> bound d = bound c \<and> (ok c \<longrightarrow> ok d)"
    and recv_None: "recv c = None \<longleftrightarrow> contents c = []"
begin

text \<open>Elements come out in the order they went in.\<close>

lemma send_recv_empty:
  assumes "contents c = []" "send c x = Some d"
  shows "\<exists>e. recv d = Some (x, e) \<and> contents e = []"
proof -
  from assms have d: "contents d = [x]" using send_Some by fastforce
  then have "recv d \<noteq> None" by (simp add: recv_None)
  then obtain y e where "recv d = Some (y, e)" by force
  with d show ?thesis using recv_Some by fastforce
qed

lemma recv_before_sent:
  assumes "contents c \<noteq> []" "send c x = Some d" "recv d = Some (y, e)"
  shows "y = hd (contents c) \<and> contents e = tl (contents c) @ [x]"
proof -
  from assms have "y # contents e = contents c @ [x]"
    using send_Some recv_Some by fastforce
  with assms(1) show ?thesis by (cases "contents c") auto
qed

lemma send_of_room: "ok c \<Longrightarrow> length (contents c) \<noteq> bound c \<Longrightarrow> \<exists>d. send c x = Some d"
  using send_None by (cases "send c x") auto

end

interpretation ch: bounded_fifo cbuf ccap chan_send chan_recv chan_ok
  by unfold_locales
    (auto simp: chan_send_def chan_recv_def chan_ok_def split: if_splits list.splits)

lemma make_chan_simps [chan_simps]:
  "cbuf (make_chan n) = []" "ccap (make_chan n) = n" "chan_ok (make_chan n)"
  by (simp_all add: make_chan_def chan_ok_def)

section \<open>Running until return or park\<close>

text \<open>
  A goroutine inside an operation either returns a value or is parked at a channel
  operation; in both cases the state it leaves behind is what the others see.
\<close>

datatype ('s, 'r) outcome = Done 's 'r | Parked 's

end
