(* ===== verification/Command.thy ===== *)
theory Command
  imports Go_Runtime
begin

text \<open>
  The commands clients send and the replies they get: \<open>curp/command/command.go\<close>, the
  message types of \<open>curp/curp_proto\<close> and the conflict relation of
  \<open>curp/curp_proto/command_extend.go\<close>.
\<close>

section \<open>Identifiers and operation codes\<close>

record ProposeId =
  ClientId :: uint64
  SeqId :: uint64

definition PUT :: uint32 where "PUT = 0"

definition GET :: uint32 where "GET = 1"

definition DELETE :: uint32 where "DELETE = 2"

definition RLOCK :: uint32 where "RLOCK = 3"

definition WLOCK :: uint32 where "WLOCK = 4"

definition OpFmt :: "string list" where
  "OpFmt = [''PUT'', ''GET'', ''DELETE'', ''RLOCK'', ''WLOCK'']"

text \<open>\<open>OpFmt[op]\<close> is a bounds-checked read: \<open>None\<close> is the run-time panic.\<close>

definition OpFmt_at :: "uint32 \<Rightarrow> string option" where
  "OpFmt_at op = (if unat op < length OpFmt then Some (OpFmt ! unat op) else None)"

definition ACCEPTED :: uint32 where "ACCEPTED = 0"

definition CONFLICT :: uint32 where "CONFLICT = 1"

definition TIMEOUT :: uint32 where "TIMEOUT = 2"

lemmas [opcode_simps] = PUT_def GET_def DELETE_def RLOCK_def WLOCK_def
  ACCEPTED_def CONFLICT_def TIMEOUT_def

lemma opcodes_distinct [simp]:
  "PUT \<noteq> GET" "PUT \<noteq> DELETE" "GET \<noteq> DELETE" "GET \<noteq> PUT" "DELETE \<noteq> PUT" "DELETE \<noteq> GET"
  by (simp_all add: opcode_simps)

lemma status_distinct [simp]:
  "ACCEPTED \<noteq> CONFLICT" "ACCEPTED \<noteq> TIMEOUT" "CONFLICT \<noteq> TIMEOUT"
  "CONFLICT \<noteq> ACCEPTED" "TIMEOUT \<noteq> ACCEPTED" "TIMEOUT \<noteq> CONFLICT"
  by (simp_all add: opcode_simps)

section \<open>Messages\<close>

text \<open>
  The struct of the generated Go code, which is what the program compiles against; it has
  the field \<open>Sync\<close> that the checked-in \<open>.proto\<close> file lacks.
\<close>

record CurpClientCommand =
  Op :: uint32
  CmdClientId :: uint64
  CmdSeqId :: uint64
  Key :: string
  Value :: string
  Sync :: uint32

record CurpReply =
  Content :: string
  StatusCode :: uint32
  ReplySeqId :: uint64

record LeaderReply =
  IsLeaderFlag :: uint32

definition zero_command :: CurpClientCommand where
  "zero_command = \<lparr>Op = 0, CmdClientId = 0, CmdSeqId = 0, Key = [], Value = [], Sync = 0\<rparr>"

definition CurpClientCommand_ProposeId :: "CurpClientCommand \<Rightarrow> ProposeId" where
  "CurpClientCommand_ProposeId c = \<lparr>ClientId = CmdClientId c, SeqId = CmdSeqId c\<rparr>"

abbreviation pid :: "CurpClientCommand \<Rightarrow> ProposeId" where
  "pid \<equiv> CurpClientCommand_ProposeId"

section \<open>Conflicts\<close>

definition Conflict :: "CurpClientCommand \<Rightarrow> CurpClientCommand \<Rightarrow> bool" where
  "Conflict c1 c2 =
     (if Key c1 = Key c2 then
        if Op c1 = PUT \<or> Op c2 = PUT then True
        else if Op c1 = DELETE \<or> Op c2 = DELETE then True
        else False
      else False)"

text \<open>The two nested loops over the batches, each left at the first hit.\<close>

fun ConflictBatch_inner :: "CurpClientCommand \<Rightarrow> CurpClientCommand list \<Rightarrow> bool" where
  "ConflictBatch_inner c [] = False"
| "ConflictBatch_inner c (d # ds) = (if Conflict c d then True else ConflictBatch_inner c ds)"

fun ConflictBatch :: "CurpClientCommand list \<Rightarrow> CurpClientCommand list \<Rightarrow> bool" where
  "ConflictBatch [] batch2 = False"
| "ConflictBatch (c # cs) batch2 =
     (if ConflictBatch_inner c batch2 then True else ConflictBatch cs batch2)"

definition IsRead :: "CurpClientCommand \<Rightarrow> bool" where
  "IsRead cmd = (Op cmd = GET)"

text \<open>A command writes when it is a put or a delete; the other codes leave the store alone.\<close>

definition writes :: "CurpClientCommand \<Rightarrow> bool" where
  "writes c \<longleftrightarrow> Op c = PUT \<or> Op c = DELETE"

lemma Conflict_iff: "Conflict c d \<longleftrightarrow> Key c = Key d \<and> (writes c \<or> writes d)"
  by (auto simp: Conflict_def writes_def)

lemma Conflict_sym: "Conflict c d = Conflict d c"
  by (auto simp: Conflict_iff)

lemma writes_self_conflict: "writes c \<Longrightarrow> Conflict c c"
  by (simp add: Conflict_iff)

lemma IsRead_not_writes: "IsRead c \<Longrightarrow> \<not> writes c"
  by (auto simp: IsRead_def writes_def opcode_simps)

lemma ConflictBatch_inner_iff: "ConflictBatch_inner c ds \<longleftrightarrow> (\<exists>d\<in>set ds. Conflict c d)"
  by (induction ds) auto

lemma ConflictBatch_iff:
  "ConflictBatch cs ds \<longleftrightarrow> (\<exists>c\<in>set cs. \<exists>d\<in>set ds. Conflict c d)"
  by (induction cs) (auto simp: ConflictBatch_inner_iff)

lemma OpFmt_at_None: "OpFmt_at op = None \<longleftrightarrow> 5 \<le> unat op"
  by (auto simp: OpFmt_at_def OpFmt_def)

lemma OpFmt_at_known:
  "OpFmt_at PUT = Some ''PUT''" "OpFmt_at GET = Some ''GET''" "OpFmt_at DELETE = Some ''DELETE''"
  by (simp_all add: OpFmt_at_def OpFmt_def opcode_simps)

end
