(* ===== verification/Gob.thy ===== *)
theory Gob
  imports Command "HOL-Library.Monad_Syntax"
begin

text \<open>
  Go's \<open>encoding/gob\<close> as the program uses it: one flat struct of unsigned integers and
  strings, written by a fresh encoder and read by a fresh decoder. A stream is two
  length-prefixed messages, the descriptor of the struct type and the value. The number
  the encoding process gave the type is a parameter, since it depends on which types the
  process encoded before. Byte strings are HOL strings.
\<close>

section \<open>Integers\<close>

definition byte :: "nat \<Rightarrow> char" where
  "byte n = char_of n"

definition byte_val :: "char \<Rightarrow> nat" where
  "byte_val c = of_char c"

text \<open>The significant bytes of a number, most significant first.\<close>

fun be_bytes :: "nat \<Rightarrow> string" where
  "be_bytes n = (if n < 256 then [byte n] else be_bytes (n div 256) @ [byte (n mod 256)])"

declare be_bytes.simps [simp del]

definition be_val :: "string \<Rightarrow> nat" where
  "be_val bs = foldl (\<lambda>a c. a * 256 + byte_val c) 0 bs"

text \<open>
  A number below 128 is one byte; any other is its significant bytes preceded by their
  negated count.
\<close>

definition encodeUint :: "nat \<Rightarrow> string" where
  "encodeUint x =
     (if x \<le> 127 then [byte x]
      else let bs = be_bytes x in byte (256 - length bs) # bs)"

definition decodeUint :: "string \<Rightarrow> (nat \<times> string) option" where
  "decodeUint s =
     (case s of [] \<Rightarrow> None
      | c # cs \<Rightarrow>
          let b = byte_val c in
          if b \<le> 127 then Some (b, cs)
          else let n = 256 - b in
            if 8 < n \<or> length cs < n then None
            else Some (be_val (take n cs), drop n cs))"

text \<open>Signed numbers: the sign is the lowest bit, negative numbers are complemented.\<close>

definition encodeInt :: "int \<Rightarrow> string" where
  "encodeInt i = encodeUint (if i < 0 then 2 * nat (- i - 1) + 1 else 2 * nat i)"

definition decodeInt :: "string \<Rightarrow> (int \<times> string) option" where
  "decodeInt s =
     (case decodeUint s of None \<Rightarrow> None
      | Some (x, r) \<Rightarrow> Some (if odd x then - int (x div 2) - 1 else int (x div 2), r))"

lemma byte_val_byte: "byte_val (byte n) = n mod 256"
  by (simp add: byte_def byte_val_def)

lemma byte_val_less: "byte_val c < 256"
  by (simp add: byte_val_def)

lemma be_val_snoc: "be_val (bs @ [c]) = be_val bs * 256 + byte_val c"
  by (simp add: be_val_def)

lemma be_val_be_bytes: "be_val (be_bytes n) = n"
proof (induction n rule: be_bytes.induct)
  case (1 n)
  show ?case
  proof (cases "n < 256")
    case True
    then show ?thesis by (subst be_bytes.simps) (simp add: be_val_def byte_val_byte)
  next
    case False
    with "1.IH" show ?thesis
      by (subst be_bytes.simps) (simp add: be_val_snoc byte_val_byte)
  qed
qed

lemma length_be_bytes: "n < 256 ^ k \<Longrightarrow> 0 < k \<Longrightarrow> length (be_bytes n) \<le> k"
proof (induction n arbitrary: k rule: be_bytes.induct)
  case (1 n)
  show ?case
  proof (cases "n < 256")
    case True
    with "1.prems" show ?thesis by (subst be_bytes.simps) simp
  next
    case False
    from "1.prems" obtain j where kj: "k = Suc j" by (cases k) simp_all
    with "1.prems" False have "0 < j" by (cases j) simp_all
    note k = kj this
    with "1.prems" have "n div 256 < 256 ^ j" by (auto simp: less_mult_imp_div_less mult.commute)
    with "1.IH" [OF False, of j] k False show ?thesis by (subst be_bytes.simps) simp
  qed
qed

lemma be_bytes_nonempty: "be_bytes n \<noteq> []"
  by (subst be_bytes.simps) simp

lemma decode_encodeUint [simp]:
  assumes "x < 2 ^ 64" shows "decodeUint (encodeUint x @ r) = Some (x, r)"
proof (cases "x \<le> 127")
  case True
  then show ?thesis by (simp add: encodeUint_def decodeUint_def byte_val_byte)
next
  case False
  have "length (be_bytes x) \<le> 8" using assms length_be_bytes [of x 8] by simp
  moreover have "1 \<le> length (be_bytes x)" using be_bytes_nonempty [of x] by (cases "be_bytes x") simp_all
  ultimately have "byte_val (byte (256 - length (be_bytes x))) = 256 - length (be_bytes x)"
    and "1 \<le> length (be_bytes x)" "length (be_bytes x) \<le> 8"
    by (simp_all add: byte_val_byte)
  with False show ?thesis
    by (simp add: encodeUint_def decodeUint_def Let_def be_val_be_bytes)
qed

lemma decode_encodeInt [simp]:
  assumes "- (2 ^ 62) \<le> i" "i < 2 ^ 62" shows "decodeInt (encodeInt i @ r) = Some (i, r)"
proof (cases "i < 0")
  case True
  with assms have "2 * nat (- i - 1) + 1 < (2::nat) ^ 64" by auto
  with True show ?thesis by (simp add: encodeInt_def decodeInt_def)
next
  case False
  with assms have "2 * nat i < (2::nat) ^ 64" by auto
  with False show ?thesis by (simp add: encodeInt_def decodeInt_def)
qed

section \<open>Strings and struct values\<close>

datatype gval = GUint nat | GString string

fun gtype :: "gval \<Rightarrow> int" where
  "gtype (GUint _) = 3"
| "gtype (GString _) = 6"

definition zero_of :: "int \<Rightarrow> gval" where
  "zero_of t = (if t = 3 then GUint 0 else GString [])"

fun is_zero :: "gval \<Rightarrow> bool" where
  "is_zero (GUint n) = (n = 0)"
| "is_zero (GString s) = (s = [])"

definition enc_string :: "string \<Rightarrow> string" where
  "enc_string s = encodeUint (length s) @ s"

definition dec_string :: "string \<Rightarrow> (string \<times> string) option" where
  "dec_string s = do {
     (n, r) \<leftarrow> decodeUint s;
     if length r < n then None else Some (take n r, drop n r) }"

fun enc_value :: "gval \<Rightarrow> string" where
  "enc_value (GUint n) = encodeUint n"
| "enc_value (GString s) = enc_string s"

definition dec_value :: "int \<Rightarrow> string \<Rightarrow> (gval \<times> string) option" where
  "dec_value t s =
     (if t = 3 then map_option (\<lambda>(n, r). (GUint n, r)) (decodeUint s)
      else if t = 6 then map_option (\<lambda>(x, r). (GString x, r)) (dec_string s)
      else None)"

text \<open>
  Fields with the zero value are left out; a field that is sent is preceded by its
  distance from the last one sent, and distance 0 ends the struct.
\<close>

fun enc_fields :: "nat \<Rightarrow> gval list \<Rightarrow> string" where
  "enc_fields d [] = encodeUint 0"
| "enc_fields d (v # vs) =
     (if is_zero v then enc_fields (Suc d) vs
      else encodeUint (Suc d) @ enc_value v @ enc_fields 0 vs)"

function dec_fields :: "int list \<Rightarrow> string \<Rightarrow> (gval list \<times> string) option" where
  "dec_fields ts s =
     (case decodeUint s of None \<Rightarrow> None
      | Some (d, r) \<Rightarrow>
          if d = 0 then Some (map zero_of ts, r)
          else if length ts < d then None
          else case dec_value (ts ! (d - 1)) r of None \<Rightarrow> None
            | Some (v, r') \<Rightarrow>
                (case dec_fields (drop d ts) r' of None \<Rightarrow> None
                 | Some (vs, q) \<Rightarrow> Some (map zero_of (take (d - 1) ts) @ v # vs, q)))"
  by pat_completeness auto
termination
  by (relation "measure (\<lambda>(ts, s). length ts)") auto

declare dec_fields.simps [simp del]

definition gval_ok :: "gval \<Rightarrow> bool" where
  "gval_ok v = (case v of GUint n \<Rightarrow> n < 2 ^ 64 | GString s \<Rightarrow> length s < 2 ^ 64)"

lemma dec_enc_string [simp]:
  "length s < 2 ^ 64 \<Longrightarrow> dec_string (enc_string s @ r) = Some (s, r)"
  by (simp add: dec_string_def enc_string_def)

lemma dec_enc_value [simp]:
  "gval_ok v \<Longrightarrow> dec_value (gtype v) (enc_value v @ r) = Some (v, r)"
  by (cases v) (simp_all add: dec_value_def gval_ok_def)

lemma zero_of_gtype: "is_zero v \<Longrightarrow> zero_of (gtype v) = v"
  by (cases v) (simp_all add: zero_of_def)

lemma dec_enc_fields:
  assumes "\<forall>v\<in>set vs. gval_ok v" "length ps + length vs < 2 ^ 64"
  shows "dec_fields (ps @ map gtype vs) (enc_fields (length ps) vs @ r)
         = Some (map zero_of ps @ vs, r)"
  using assms
proof (induction vs arbitrary: ps)
  case Nil
  then show ?case by (subst dec_fields.simps) simp
next
  case (Cons v vs)
  show ?case
  proof (cases "is_zero v")
    case True
    with Cons.prems Cons.IH [of "ps @ [gtype v]"] show ?thesis
      by (simp add: zero_of_gtype)
  next
    case False
    have "dec_fields (map gtype vs) (enc_fields 0 vs @ r) = Some (vs, r)"
      using Cons.IH [of "[]"] Cons.prems by simp
    with False Cons.prems show ?thesis
      by (subst dec_fields.simps) (simp add: nth_append)
  qed
qed

section \<open>Type descriptors and streams\<close>

text \<open>
  The descriptor of a struct type, as the encoder writes it: the negated type number, then
  the wire type with its struct alternative set (field 3), which holds the type's name and
  number and the name and type number of every field.
\<close>

definition enc_field_descr :: "string \<times> int \<Rightarrow> string" where
  "enc_field_descr f =
     encodeUint 1 @ enc_string (fst f) @ encodeUint 1 @ encodeInt (snd f) @ encodeUint 0"

definition descriptor :: "int \<Rightarrow> string \<Rightarrow> (string \<times> int) list \<Rightarrow> string" where
  "descriptor tid name fs =
     encodeInt (- tid) @ encodeUint 3 @
     encodeUint 1 @ encodeUint 1 @ enc_string name @ encodeUint 1 @ encodeInt tid @ encodeUint 0 @
     encodeUint 1 @ encodeUint (length fs) @ concat (map enc_field_descr fs) @
     encodeUint 0 @ encodeUint 0"

definition expect_uint :: "nat \<Rightarrow> string \<Rightarrow> string option" where
  "expect_uint n s = do { (x, r) \<leftarrow> decodeUint s; if x = n then Some r else None }"

definition dec_field_descr :: "string \<Rightarrow> ((string \<times> int) \<times> string) option" where
  "dec_field_descr s = do {
     r1 \<leftarrow> expect_uint 1 s;
     (n, r2) \<leftarrow> dec_string r1;
     r3 \<leftarrow> expect_uint 1 r2;
     (t, r4) \<leftarrow> decodeInt r3;
     r5 \<leftarrow> expect_uint 0 r4;
     Some ((n, t), r5) }"

fun dec_field_descrs :: "nat \<Rightarrow> string \<Rightarrow> ((string \<times> int) list \<times> string) option" where
  "dec_field_descrs 0 s = Some ([], s)"
| "dec_field_descrs (Suc n) s = do {
     (f, r) \<leftarrow> dec_field_descr s;
     (fs, q) \<leftarrow> dec_field_descrs n r;
     Some (f # fs, q) }"

definition dec_descriptor :: "string \<Rightarrow> (int \<times> (string \<times> int) list) option" where
  "dec_descriptor s = do {
     (i, r1) \<leftarrow> decodeInt s;
     r2 \<leftarrow> expect_uint 3 r1;
     r3 \<leftarrow> expect_uint 1 r2;
     r4 \<leftarrow> expect_uint 1 r3;
     (name, r5) \<leftarrow> dec_string r4;
     r6 \<leftarrow> expect_uint 1 r5;
     (j, r7) \<leftarrow> decodeInt r6;
     r8 \<leftarrow> expect_uint 0 r7;
     r9 \<leftarrow> expect_uint 1 r8;
     (n, r10) \<leftarrow> decodeUint r9;
     (fs, r11) \<leftarrow> dec_field_descrs n r10;
     if i < 0 then Some (- i, fs) else None }"

text \<open>
  A fresh encoder sends the descriptor and then the value, each behind its length; a fresh
  decoder reads them back. Only streams of this shape are decoded here: any other is the
  decoding error.
\<close>

definition gob_encode :: "int \<Rightarrow> string \<Rightarrow> (string \<times> gval) list \<Rightarrow> string" where
  "gob_encode tid name fs =
     enc_string (descriptor tid name (map (\<lambda>(n, v). (n, gtype v)) fs)) @
     enc_string (encodeInt tid @ enc_fields 0 (map snd fs))"

definition gob_decode :: "string \<Rightarrow> (string \<times> gval) list option" where
  "gob_decode s = do {
     (m1, r1) \<leftarrow> dec_string s;
     (tid, fs) \<leftarrow> dec_descriptor m1;
     (m2, r2) \<leftarrow> dec_string r1;
     (i, r3) \<leftarrow> decodeInt m2;
     if i \<noteq> tid then None else do {
       (vs, r4) \<leftarrow> dec_fields (map snd fs) r3;
       Some (zip (map fst fs) vs) } }"

lemma expect_encodeUint [simp]:
  "n < 2 ^ 64 \<Longrightarrow> expect_uint n (encodeUint n @ r) = Some r"
  by (simp add: expect_uint_def)

lemma dec_enc_field_descr [simp]:
  "length (fst f) < 2 ^ 64 \<Longrightarrow> snd f \<in> {3, 6} \<Longrightarrow>
   dec_field_descr (enc_field_descr f @ r) = Some (f, r)"
  by (cases f) (auto simp: dec_field_descr_def enc_field_descr_def)

lemma dec_enc_field_descrs:
  "\<forall>f\<in>set fs. length (fst f) < 2 ^ 64 \<and> snd f \<in> {3, 6} \<Longrightarrow>
   dec_field_descrs (length fs) (concat (map enc_field_descr fs) @ r) = Some (fs, r)"
  by (induction fs) simp_all

lemma dec_descriptor_descriptor:
  assumes "0 < tid" "tid < 2 ^ 62" "length name < 2 ^ 64" "length fs < 2 ^ 64"
    and "\<forall>f\<in>set fs. length (fst f) < 2 ^ 64 \<and> snd f \<in> {3, 6}"
  shows "dec_descriptor (descriptor tid name fs) = Some (tid, fs)"
  using assms dec_enc_field_descrs [OF assms(5)]
  by (simp add: dec_descriptor_def descriptor_def)

lemma gob_roundtrip:
  assumes tid: "0 < tid" "tid < 2 ^ 62" and name: "length name < 2 ^ 64" "length fs < 2 ^ 64"
    and fs: "\<forall>f\<in>set fs. length (fst f) < 2 ^ 64 \<and> gval_ok (snd f)"
    and len: "length (descriptor tid name (map (\<lambda>(n, v). (n, gtype v)) fs)) < 2 ^ 64"
      "length (encodeInt tid @ enc_fields 0 (map snd fs)) < 2 ^ 64"
  shows "gob_decode (gob_encode tid name fs) = Some fs"
proof -
  let ?ts = "map (\<lambda>(n, v). (n, gtype v)) fs"
  have "\<forall>f\<in>set ?ts. length (fst f) < 2 ^ 64 \<and> snd f \<in> {3, 6}"
  proof
    fix f assume "f \<in> set ?ts"
    then obtain n v where "(n, v) \<in> set fs" "f = (n, gtype v)" by auto
    with fs show "length (fst f) < 2 ^ 64 \<and> snd f \<in> {3, 6}" by (cases v) auto
  qed
  with tid name have d: "dec_descriptor (descriptor tid name ?ts) = Some (tid, ?ts)"
    by (intro dec_descriptor_descriptor) simp_all
  have "dec_fields (map gtype (map snd fs)) (enc_fields 0 (map snd fs)) = Some (map snd fs, [])"
    using dec_enc_fields [of "map snd fs" "[]" "[]"] fs name by auto
  then show ?thesis
    using d len tid dec_enc_string [of "encodeInt tid @ enc_fields 0 (map snd fs)" "[]"]
    by (simp add: gob_decode_def gob_encode_def o_def case_prod_beta zip_map_fst_snd)
qed

lemma length_encodeUint: "x < 2 ^ 64 \<Longrightarrow> length (encodeUint x) \<le> 9"
  using length_be_bytes [of x 8] by (simp add: encodeUint_def Let_def)

lemma length_encodeInt: "- (2 ^ 62) \<le> i \<Longrightarrow> i < 2 ^ 62 \<Longrightarrow> length (encodeInt i) \<le> 9"
  by (cases "i < 0") (auto simp: encodeInt_def intro!: length_encodeUint)

lemma length_enc_string: "length s < 2 ^ 64 \<Longrightarrow> length (enc_string s) \<le> 9 + length s"
  using length_encodeUint [of "length s"] by (simp add: enc_string_def)

fun gval_size :: "gval \<Rightarrow> nat" where
  "gval_size (GUint n) = 9"
| "gval_size (GString s) = 9 + length s"

lemma length_enc_value: "gval_ok v \<Longrightarrow> length (enc_value v) \<le> gval_size v"
  by (cases v) (auto simp: gval_ok_def length_encodeUint length_enc_string)

lemma length_enc_fields:
  "\<forall>v\<in>set vs. gval_ok v \<Longrightarrow> d + length vs < 2 ^ 64 \<Longrightarrow>
   length (enc_fields d vs) \<le> 9 + (\<Sum>v\<leftarrow>vs. 9 + gval_size v)"
proof (induction vs arbitrary: d)
  case Nil
  then show ?case using length_encodeUint [of 0] by simp
next
  case (Cons v vs)
  have "length (encodeUint (Suc d)) \<le> 9" using Cons.prems by (intro length_encodeUint) simp
  moreover have "length (enc_value v) \<le> gval_size v" using Cons.prems by (intro length_enc_value) simp
  moreover have "length (enc_fields e vs) \<le> 9 + (\<Sum>v\<leftarrow>vs. 9 + gval_size v)" if "e \<le> Suc d" for e
    using Cons.prems that by (intro Cons.IH) auto
  from this [of 0] this [of "Suc d"] have "length (enc_fields 0 vs) \<le> 9 + (\<Sum>v\<leftarrow>vs. 9 + gval_size v)"
    "length (enc_fields (Suc d) vs) \<le> 9 + (\<Sum>v\<leftarrow>vs. 9 + gval_size v)" by simp_all
  ultimately show ?case by simp
qed

section \<open>The command codec\<close>

text \<open>
  \<open>Encode\<close> and \<open>DecodeClientCommand\<close> of \<open>command_extend.go\<close>. The decoder stores
  fields by name, ignores names the struct does not have and refuses a number that does
  not fit its field; \<open>None\<close> is the \<open>log.Fatalf\<close>.
\<close>

definition command_fields :: "CurpClientCommand \<Rightarrow> (string \<times> gval) list" where
  "command_fields c =
     [(''Op'', GUint (unat (Op c))), (''ClientId'', GUint (unat (CmdClientId c))),
      (''SeqId'', GUint (unat (CmdSeqId c))), (''Key'', GString (Key c)),
      (''Value'', GString (Value c)), (''Sync'', GUint (unat (Sync c)))]"

definition CurpClientCommand_Encode :: "int \<Rightarrow> CurpClientCommand \<Rightarrow> string" where
  "CurpClientCommand_Encode tid c = gob_encode tid ''CurpClientCommand'' (command_fields c)"

definition as_uint :: "nat \<Rightarrow> gval \<Rightarrow> nat option" where
  "as_uint w v = (case v of GUint n \<Rightarrow> if n < 2 ^ w then Some n else None | GString _ \<Rightarrow> None)"

definition as_string :: "gval \<Rightarrow> string option" where
  "as_string v = (case v of GString s \<Rightarrow> Some s | GUint _ \<Rightarrow> None)"

definition set_command_field ::
  "CurpClientCommand \<Rightarrow> string \<times> gval \<Rightarrow> CurpClientCommand option" where
  "set_command_field c f =
     (let n = fst f; v = snd f in
      if n = ''Op'' then map_option (\<lambda>x. c\<lparr>Op := of_nat x\<rparr>) (as_uint 32 v)
      else if n = ''ClientId'' then map_option (\<lambda>x. c\<lparr>CmdClientId := of_nat x\<rparr>) (as_uint 64 v)
      else if n = ''SeqId'' then map_option (\<lambda>x. c\<lparr>CmdSeqId := of_nat x\<rparr>) (as_uint 64 v)
      else if n = ''Key'' then map_option (\<lambda>x. c\<lparr>Key := x\<rparr>) (as_string v)
      else if n = ''Value'' then map_option (\<lambda>x. c\<lparr>Value := x\<rparr>) (as_string v)
      else if n = ''Sync'' then map_option (\<lambda>x. c\<lparr>Sync := of_nat x\<rparr>) (as_uint 32 v)
      else Some c)"

fun set_command_fields ::
  "CurpClientCommand \<Rightarrow> (string \<times> gval) list \<Rightarrow> CurpClientCommand option" where
  "set_command_fields c [] = Some c"
| "set_command_fields c (f # fs) = do { d \<leftarrow> set_command_field c f; set_command_fields d fs }"

definition DecodeClientCommand :: "string \<Rightarrow> CurpClientCommand option" where
  "DecodeClientCommand content = do {
     fs \<leftarrow> gob_decode content;
     set_command_fields zero_command fs }"

lemma as_uint_unat32 [simp]: "as_uint 32 (GUint (unat (x :: uint32))) = Some (unat x)"
  using unat_less_32 [of x] by (simp add: as_uint_def)

lemma as_uint_unat64 [simp]: "as_uint 64 (GUint (unat (x :: uint64))) = Some (unat x)"
  using unat_less_64 [of x] by (simp add: as_uint_def)

lemma set_command_fields_of: "set_command_fields z (command_fields c) = Some c"
  by (simp add: command_fields_def set_command_field_def as_string_def)

definition command_fits :: "CurpClientCommand \<Rightarrow> bool" where
  "command_fits c \<longleftrightarrow> length (Key c) + length (Value c) < 2 ^ 32"

lemma command_fields_ok:
  assumes "command_fits c" "f \<in> set (command_fields c)"
  shows "length (fst f) < 2 ^ 64 \<and> gval_ok (snd f)"
  using assms unat_less_64 [of "CmdClientId c"] unat_less_64 [of "CmdSeqId c"]
    unat_less_32 [of "Op c"] unat_less_32 [of "Sync c"]
  by (auto simp: command_fields_def gval_ok_def command_fits_def)

lemma length_command_descriptor:
  assumes "0 < tid" "tid < 2 ^ 31"
  shows "length (descriptor tid ''CurpClientCommand'' (map (\<lambda>(n, v). (n, gtype v)) (command_fields c)))
         < 2 ^ 64"
  using assms length_encodeInt [of "- tid"] length_encodeInt [of tid]
  by (simp add: descriptor_def command_fields_def enc_field_descr_def enc_string_def encodeUint_def
      byte_def encodeInt_def)

lemma DecodeClientCommand_Encode:
  assumes "0 < tid" "tid < 2 ^ 31" "command_fits c"
  shows "DecodeClientCommand (CurpClientCommand_Encode tid c) = Some c"
proof -
  let ?fs = "command_fields c"
  have ok: "\<forall>f\<in>set ?fs. length (fst f) < 2 ^ 64 \<and> gval_ok (snd f)"
    using command_fields_ok assms(3) by blast
  have "length (enc_fields 0 (map snd ?fs)) \<le> 9 + (\<Sum>v\<leftarrow>map snd ?fs. 9 + gval_size v)"
    using ok by (intro length_enc_fields) (auto simp: command_fields_def)
  also have "\<dots> < 2 ^ 33"
    using assms(3) by (simp add: command_fields_def command_fits_def)
  finally have "length (encodeInt tid @ enc_fields 0 (map snd ?fs)) < 2 ^ 64"
    using length_encodeInt [of tid] assms by simp
  with assms ok length_command_descriptor [of tid c] have "gob_decode (CurpClientCommand_Encode tid c) = Some ?fs"
    unfolding CurpClientCommand_Encode_def
    by (intro gob_roundtrip) (simp_all add: command_fields_def)
  then show ?thesis by (simp add: DecodeClientCommand_def set_command_fields_of)
qed

section \<open>Properties of the encoding\<close>

text \<open>
  C19: a command read back from the log is the command that was proposed, with every field at
  its full width, whatever type number the encoder assigned and whatever bytes the key and
  the value hold; so different commands never share an encoding.
\<close>

theorem command_roundtrip:
  assumes "0 < tid" "tid < 2 ^ 31" "command_fits c" "command_fits d"
  shows "DecodeClientCommand (CurpClientCommand_Encode tid c) = Some c \<and>
         (CurpClientCommand_Encode tid c = CurpClientCommand_Encode tid d \<longrightarrow> c = d)"
proof (intro conjI impI)
  note c = DecodeClientCommand_Encode [OF assms(1,2,3)]
  show "DecodeClientCommand (CurpClientCommand_Encode tid c) = Some c" by (rule c)
  assume "CurpClientCommand_Encode tid c = CurpClientCommand_Encode tid d"
  with c DecodeClientCommand_Encode [OF assms(1,2,4)] have "Some c = Some d" by (simp only:)
  then show "c = d" by (rule option.inject [THEN iffD1])
qed

theorem command_roundtrip_witness:
  "DecodeClientCommand (CurpClientCommand_Encode 64 (zero_command\<lparr>CmdSeqId := 2 ^ 63\<rparr>)) =
   Some (zero_command\<lparr>CmdSeqId := 2 ^ 63\<rparr>)"
  by (rule command_roundtrip [where d = zero_command, THEN conjunct1])
    (simp_all add: command_fits_def zero_command_def)

end
