(* ===== verification/KV_Store.thy ===== *)
theory KV_Store
  imports Go_Runtime
begin

text \<open>
  The storage interface of \<open>kv/kv.go\<close> and the in-memory store of \<open>kv/mem_kv.go\<close>.
  A Go interface value is a table of methods over a hidden state, so \<open>KVStore\<close> is a
  record of operations. Its contract is the locale \<open>kv_map\<close>: what a get returns and how every
  operation changes the contents. \<open>kv_store\<close> adds that the old values reported are the ones that were
  stored, and \<open>reliable_kv\<close> that writes cannot fail.
\<close>

section \<open>The interface and its contract\<close>

record 's KVStore =
  kv_Get :: "'s \<Rightarrow> string \<Rightarrow> string \<times> err"
  kv_Put :: "'s \<Rightarrow> string \<Rightarrow> string \<Rightarrow> 's \<times> err"
  kv_Delete :: "'s \<Rightarrow> string \<Rightarrow> 's \<times> err"
  kv_PutWithOldValue :: "'s \<Rightarrow> string \<Rightarrow> string \<Rightarrow> 's \<times> string \<times> err"
  kv_RollbackPutWithOldValue :: "'s \<Rightarrow> string \<Rightarrow> string \<Rightarrow> 's \<times> err"
  kv_RollbackDeleteWithOldValue :: "'s \<Rightarrow> string \<Rightarrow> string \<Rightarrow> 's \<times> err"
  kv_DeleteWithOldValue :: "'s \<Rightarrow> string \<Rightarrow> 's \<times> string \<times> err"
  kv_Destroy :: "'s \<Rightarrow> 's"

type_synonym store = "string \<Rightarrow> string option"

text \<open>The string an operation that reports the old value hands back.\<close>

definition old_string :: "string option \<Rightarrow> string" where
  "old_string v = (case v of None \<Rightarrow> [] | Some x \<Rightarrow> x)"

locale kv_map =
  fixes K :: "'s KVStore"
    and view :: "'s \<Rightarrow> store"
    and ok :: "'s \<Rightarrow> bool"
  assumes get_hit: "ok s \<Longrightarrow> view s k = Some v \<Longrightarrow> kv_Get K s k = (v, nil)"
    and get_miss: "ok s \<Longrightarrow> view s k = None \<Longrightarrow> fst (kv_Get K s k) = [] \<and> snd (kv_Get K s k) \<noteq> nil"
    and put_law: "ok s \<Longrightarrow> kv_Put K s k v = (t, e) \<Longrightarrow>
      ok t \<and> view t = (if e = nil then (view s)(k \<mapsto> v) else view s)"
    and delete_law: "ok s \<Longrightarrow> kv_Delete K s k = (t, e) \<Longrightarrow>
      ok t \<and> view t = (if e = nil then (view s)(k := None) else view s)"
    and put_old_effect: "ok s \<Longrightarrow> kv_PutWithOldValue K s k v = (t, old, e) \<Longrightarrow>
      ok t \<and> (view t = (view s)(k \<mapsto> v) \<or> view t = view s \<and> e \<noteq> nil)"
    and undo_put_law: "ok s \<Longrightarrow> kv_RollbackPutWithOldValue K s k old = (t, e) \<Longrightarrow>
      ok t \<and> view t = (if e = nil then (view s)(k := if old = [] then None else Some old) else view s)"
    and undo_delete_law: "ok s \<Longrightarrow> kv_RollbackDeleteWithOldValue K s k old = (t, e) \<Longrightarrow>
      ok t \<and> view t = (if e = nil then (view s)(k \<mapsto> old) else view s)"
    and delete_old_effect: "ok s \<Longrightarrow> kv_DeleteWithOldValue K s k = (t, old, e) \<Longrightarrow>
      ok t \<and> (view t = (view s)(k := None) \<or> view t = view s \<and> e \<noteq> nil)"
begin

lemma put_then_get:
  "ok s \<Longrightarrow> kv_Put K s k v = (t, nil) \<Longrightarrow> kv_Get K t k = (v, nil)"
  using put_law [of s k v t nil] by (intro get_hit) auto

lemma put_frames_get:
  "ok s \<Longrightarrow> kv_Put K s k v = (t, e) \<Longrightarrow> j \<noteq> k \<Longrightarrow> view t j = view s j"
  using put_law [of s k v t e] by (auto split: if_splits)

lemma delete_then_get:
  "ok s \<Longrightarrow> kv_Delete K s k = (t, nil) \<Longrightarrow> snd (kv_Get K t k) \<noteq> nil"
  using delete_law [of s k t nil] get_miss [of t k] by auto

end

locale kv_store = kv_map +
  assumes put_old_report: "ok s \<Longrightarrow> kv_PutWithOldValue K s k v = (t, old, e) \<Longrightarrow>
      old = old_string (view s k) \<or> view t = view s \<and> e \<noteq> nil"
    and delete_old_report: "ok s \<Longrightarrow> kv_DeleteWithOldValue K s k = (t, old, e) \<Longrightarrow>
      old = old_string (view s k) \<or> view t = view s \<and> e \<noteq> nil"
begin

lemma put_old_law:
  "ok s \<Longrightarrow> kv_PutWithOldValue K s k v = (t, old, e) \<Longrightarrow>
   ok t \<and> (view t = (view s)(k \<mapsto> v) \<and> old = old_string (view s k) \<or> view t = view s \<and> e \<noteq> nil)"
  using put_old_effect put_old_report by blast

lemma delete_old_law:
  "ok s \<Longrightarrow> kv_DeleteWithOldValue K s k = (t, old, e) \<Longrightarrow>
   ok t \<and> (view t = (view s)(k := None) \<and> old = old_string (view s k) \<or> view t = view s \<and> e \<noteq> nil)"
  using delete_old_effect delete_old_report by blast

text \<open>
  Undoing a put with the value it reported restores the store, provided the key was absent
  or held a value other than the empty string.
\<close>

lemma undo_put:
  assumes "ok s" "kv_PutWithOldValue K s k v = (t, old, e)" "view s k \<noteq> Some []"
    and "view t \<noteq> view s" "kv_RollbackPutWithOldValue K t k old = (u, nil)"
  shows "view u = view s"
proof -
  from put_old_law [OF assms(1,2)] assms(4)
  have t: "ok t" "view t = (view s)(k \<mapsto> v)" "old = old_string (view s k)" by auto
  from undo_put_law [OF t(1) assms(5)] t assms(3) show ?thesis
    by (auto simp: old_string_def fun_eq_iff split: option.splits)
qed

lemma undo_delete:
  assumes "ok s" "view s k = Some v" "kv_DeleteWithOldValue K s k = (t, old, e)"
    and "view t \<noteq> view s" "kv_RollbackDeleteWithOldValue K t k old = (u, nil)"
  shows "view u = view s"
proof -
  from delete_old_law [OF assms(1,3)] assms(4)
  have t: "ok t" "view t = (view s)(k := None)" "old = old_string (view s k)" by auto
  from undo_delete_law [OF t(1) assms(5)] t assms(2) show ?thesis
    by (auto simp: old_string_def fun_eq_iff)
qed

end

locale reliable_kv = kv_store +
  assumes put_nil: "ok s \<Longrightarrow> snd (kv_Put K s k v) = nil"
    and delete_nil: "ok s \<Longrightarrow> snd (kv_Delete K s k) = nil"
begin

lemma put_view: "ok s \<Longrightarrow> view (fst (kv_Put K s k v)) = (view s)(k \<mapsto> v)"
  using put_nil [of s k v] by (cases "kv_Put K s k v") (auto dest: put_law)

lemma put_ok: "ok s \<Longrightarrow> ok (fst (kv_Put K s k v))"
  by (cases "kv_Put K s k v") (auto dest: put_law)

lemma delete_view: "ok s \<Longrightarrow> view (fst (kv_Delete K s k)) = (view s)(k := None)"
  using delete_nil [of s k] by (cases "kv_Delete K s k") (auto dest: delete_law)

lemma delete_ok: "ok s \<Longrightarrow> ok (fst (kv_Delete K s k))"
  by (cases "kv_Delete K s k") (auto dest: delete_law)

end

section \<open>The in-memory store\<close>

text \<open>
  Every method of the interface but \<open>Destroy\<close> takes the store's lock for its whole body, so
  each is one atomic step.
\<close>

record MemStore =
  mem_kv :: "(string, string) gomap"

definition NewMemStore :: "MemStore \<times> err" where
  "NewMemStore = (\<lparr>mem_kv = mempty\<rparr>, nil)"

definition MemStore_Get :: "MemStore \<Rightarrow> string \<Rightarrow> string \<times> err" where
  "MemStore_Get m k =
     (case mget (mem_kv m) k of
        Some v \<Rightarrow> (v, nil)
      | None \<Rightarrow> ([], Some (Errorf ''key not found'')))"

definition MemStore_Put :: "MemStore \<Rightarrow> string \<Rightarrow> string \<Rightarrow> MemStore \<times> err" where
  "MemStore_Put m k v = (m\<lparr>mem_kv := mset_to k v (mem_kv m)\<rparr>, nil)"

definition MemStore_Delete :: "MemStore \<Rightarrow> string \<Rightarrow> MemStore \<times> err" where
  "MemStore_Delete m k = (m\<lparr>mem_kv := mdelete k (mem_kv m)\<rparr>, nil)"

definition MemStore_PutWithOldValue ::
  "MemStore \<Rightarrow> string \<Rightarrow> string \<Rightarrow> MemStore \<times> string \<times> err" where
  "MemStore_PutWithOldValue m k v =
     (let old_v = mget (mem_kv m) k; m' = m\<lparr>mem_kv := mset_to k v (mem_kv m)\<rparr> in
      case old_v of
        Some x \<Rightarrow> (m', x, nil)
      | None \<Rightarrow> (m', [], Some (Errorf ''key not found'')))"

definition MemStore_RollbackPutWithOldValue ::
  "MemStore \<Rightarrow> string \<Rightarrow> string \<Rightarrow> MemStore \<times> err" where
  "MemStore_RollbackPutWithOldValue m k old_v =
     (if old_v = [] then (m\<lparr>mem_kv := mdelete k (mem_kv m)\<rparr>, nil)
      else (m\<lparr>mem_kv := mset_to k old_v (mem_kv m)\<rparr>, nil))"

definition MemStore_RollbackDeleteWithOldValue ::
  "MemStore \<Rightarrow> string \<Rightarrow> string \<Rightarrow> MemStore \<times> err" where
  "MemStore_RollbackDeleteWithOldValue m k old_v =
     (m\<lparr>mem_kv := mset_to k old_v (mem_kv m)\<rparr>, nil)"

definition MemStore_DeleteWithOldValue :: "MemStore \<Rightarrow> string \<Rightarrow> MemStore \<times> string \<times> err" where
  "MemStore_DeleteWithOldValue m k =
     (let old_v = mget (mem_kv m) k; m' = m\<lparr>mem_kv := mdelete k (mem_kv m)\<rparr> in
      case old_v of
        Some x \<Rightarrow> (m', x, nil)
      | None \<Rightarrow> (m', [], Some (Errorf ''key not found'')))"

definition MemStore_Destroy :: "MemStore \<Rightarrow> MemStore" where
  "MemStore_Destroy m = m\<lparr>mem_kv := mempty\<rparr>"

text \<open>
  The loop of \<open>Equal\<close> over the entries of \<open>m.kv\<close>. The source reads \<open>m.kv\<close> again where
  it means the argument, so the argument is never looked at.
\<close>

fun MemStore_Equal_loop :: "(string \<times> string) list \<Rightarrow> MemStore \<Rightarrow> MemStore \<Rightarrow> bool" where
  "MemStore_Equal_loop [] m kv = True"
| "MemStore_Equal_loop ((key, val1) # es) m kv =
     (case mget (mem_kv m) key of
        None \<Rightarrow> False
      | Some val2 \<Rightarrow> if val1 \<noteq> val2 then False else MemStore_Equal_loop es m kv)"

definition MemStore_Equal :: "MemStore \<Rightarrow> MemStore \<Rightarrow> bool" where
  "MemStore_Equal m kv = MemStore_Equal_loop (mem_kv m) m kv"

definition MemStore_KVStore :: "MemStore KVStore" where
  "MemStore_KVStore =
     \<lparr>kv_Get = MemStore_Get, kv_Put = MemStore_Put, kv_Delete = MemStore_Delete,
      kv_PutWithOldValue = MemStore_PutWithOldValue,
      kv_RollbackPutWithOldValue = MemStore_RollbackPutWithOldValue,
      kv_RollbackDeleteWithOldValue = MemStore_RollbackDeleteWithOldValue,
      kv_DeleteWithOldValue = MemStore_DeleteWithOldValue,
      kv_Destroy = MemStore_Destroy\<rparr>"

definition mem_view :: "MemStore \<Rightarrow> store" where
  "mem_view m = mget (mem_kv m)"

definition mem_ok :: "MemStore \<Rightarrow> bool" where
  "mem_ok m = mwf (mem_kv m)"

lemmas mem_defs = MemStore_Get_def MemStore_Put_def MemStore_Delete_def
  MemStore_PutWithOldValue_def MemStore_RollbackPutWithOldValue_def
  MemStore_RollbackDeleteWithOldValue_def MemStore_DeleteWithOldValue_def
  MemStore_KVStore_def mem_view_def mem_ok_def

interpretation mem: reliable_kv MemStore_KVStore mem_view mem_ok
  by unfold_locales
    (auto simp: mem_defs old_string_def gomap_simps gm.get_put_fun gm.get_del_fun Let_def
      split: if_splits option.splits)

lemma mem_fresh: "mem_ok (fst NewMemStore)" "mem_view (fst NewMemStore) = Map.empty"
  by (auto simp: NewMemStore_def mem_ok_def mem_view_def gomap_simps)

lemma mem_destroy: "mem_ok (MemStore_Destroy m)" "mem_view (MemStore_Destroy m) = Map.empty"
  by (auto simp: MemStore_Destroy_def mem_ok_def mem_view_def gomap_simps)

lemma MemStore_Equal_loop_True:
  "mwf (mem_kv m) \<Longrightarrow> set es \<subseteq> set (mem_kv m) \<Longrightarrow> MemStore_Equal_loop es m kv"
  by (induction es) (auto simp: gm.get_entries)

section \<open>Properties of the in-memory store\<close>

text \<open>
  The in-memory store is a finite map. Every operation succeeds and does to the map what
  its name says, a read of an absent key is the only error of \<open>Get\<close>, and the two
  operations that report the old value change the map also when they report that there was
  none.
\<close>

theorem mem_store_is_map:
  assumes "mem_ok m"
  shows "MemStore_Get m k =
           (case mem_view m k of Some v \<Rightarrow> (v, nil) | None \<Rightarrow> ([], Some (Errorf ''key not found''))) \<and>
         (\<exists>m'. MemStore_Put m k v = (m', nil) \<and> mem_ok m' \<and> mem_view m' = (mem_view m)(k \<mapsto> v)) \<and>
         (\<exists>m'. MemStore_Delete m k = (m', nil) \<and> mem_ok m' \<and> mem_view m' = (mem_view m)(k := None)) \<and>
         (\<exists>m'. MemStore_PutWithOldValue m k v =
           (m', old_string (mem_view m k), if mem_view m k = None then Some (Errorf ''key not found'') else nil) \<and>
         mem_ok m' \<and> mem_view m' = (mem_view m)(k \<mapsto> v)) \<and>
         (\<exists>m'. MemStore_DeleteWithOldValue m k =
           (m', old_string (mem_view m k), if mem_view m k = None then Some (Errorf ''key not found'') else nil) \<and>
         mem_ok m' \<and> mem_view m' = (mem_view m)(k := None))"
  using assms
  by (auto simp: mem_defs old_string_def gomap_simps gm.get_put_fun gm.get_del_fun Let_def split: option.splits)

theorem mem_store_is_map_witness:
  "MemStore_Get \<lparr>mem_kv = [(''x'', ''1'')]\<rparr> ''x'' = (''1'', nil)"
  using mem_store_is_map [of "\<lparr>mem_kv = [(''x'', ''1'')]\<rparr>" "''x''"]
  by (simp add: mem_ok_def mem_view_def mwf_def mget_def)

text \<open>
  Rolling a put back with the value that \<open>PutWithOldValue\<close> reported restores the store,
  for every key that was absent or held a value other than the empty string; rolling a
  delete of a present key back always restores it.
\<close>

theorem mem_rollback_restores:
  assumes "mem_ok m"
  shows "(mem_view m k \<noteq> Some [] \<and> MemStore_PutWithOldValue m k v = (m1, old, e) \<longrightarrow>
           mem_view (fst (MemStore_RollbackPutWithOldValue m1 k old)) = mem_view m) \<and>
         (mem_view m k \<noteq> None \<and> MemStore_DeleteWithOldValue m k = (m1, old, e) \<longrightarrow>
           mem_view (fst (MemStore_RollbackDeleteWithOldValue m1 k old)) = mem_view m)"
  using assms
  by (auto simp: mem_defs gomap_simps gm.get_put_fun gm.get_del_fun Let_def fun_eq_iff
      gm.ok_put gm.ok_del split: option.splits)

theorem mem_rollback_restores_witness:
  "mem_view (fst (MemStore_RollbackPutWithOldValue \<lparr>mem_kv = [(''x'', ''2'')]\<rparr> ''x'' ''1'')) =
   mem_view \<lparr>mem_kv = [(''x'', ''1'')]\<rparr>"
  using mem_rollback_restores [of "\<lparr>mem_kv = [(''x'', ''1'')]\<rparr>" "''x''" "''2''"]
  by (simp add: mem_ok_def mem_view_def mwf_def mget_def mset_to_def MemStore_PutWithOldValue_def)

text \<open>
  A put over a stored empty string cannot be rolled back: the rollback takes the
  reported empty string for an absent key and deletes the entry.
\<close>

theorem mem_rollback_empty_value:
  assumes "mem_ok m" "mem_view m k = Some []" "MemStore_PutWithOldValue m k v = (m1, old, e)"
  shows "e = nil \<and> mem_view (fst (MemStore_RollbackPutWithOldValue m1 k old)) k = None"
  using assms
  by (auto simp: mem_defs gomap_simps gm.get_put_fun gm.get_del_fun gm.ok_put Let_def)

theorem mem_rollback_empty_value_witness:
  "mem_view (fst (MemStore_RollbackPutWithOldValue \<lparr>mem_kv = [(''x'', ''2'')]\<rparr> ''x'' [])) ''x'' = None"
  using mem_rollback_empty_value [of "\<lparr>mem_kv = [(''x'', [])]\<rparr>" "''x''" "''2''"]
  by (simp add: mem_ok_def mem_view_def mwf_def mget_def mset_to_def MemStore_PutWithOldValue_def)

text \<open>
  \<open>Equal\<close> of the in-memory store is true for every pair of stores, since its loop compares
  the receiver with itself.
\<close>

theorem mem_equal_always:
  assumes "mem_ok m"
  shows "MemStore_Equal m kv"
  using assms by (simp add: MemStore_Equal_def mem_ok_def MemStore_Equal_loop_True)

theorem mem_equal_always_witness:
  "MemStore_Equal \<lparr>mem_kv = [(''x'', ''1'')]\<rparr> \<lparr>mem_kv = []\<rparr>"
  by (rule mem_equal_always) (simp add: mem_ok_def mwf_def)

end
