(* ===== verification/Command_Order.thy ===== *)
theory Command_Order
  imports Command KV_Store "HOL-Library.Multiset"
begin

text \<open>
  What commands mean for an abstract store, and which reorderings of a command sequence
  leave that meaning alone. This is the specification the execution paths of the state
  machine are compared with: the replicas agree when the commands that conflict keep
  their order.
\<close>

section \<open>Commands on an abstract store\<close>

definition apply_cmd :: "CurpClientCommand \<Rightarrow> store \<Rightarrow> store" where
  "apply_cmd c m =
     (if Op c = PUT then m(Key c \<mapsto> Value c)
      else if Op c = DELETE then m(Key c := None)
      else m)"

definition result_of :: "CurpClientCommand \<Rightarrow> store \<Rightarrow> string" where
  "result_of c m =
     (if Op c = GET then (case m (Key c) of Some v \<Rightarrow> v | None \<Rightarrow> ''NOT FOUND IN STATE'') else [])"

definition apply_all :: "CurpClientCommand list \<Rightarrow> store \<Rightarrow> store" where
  "apply_all cs m = fold apply_cmd cs m"

lemma apply_all_simps [simp]:
  "apply_all [] m = m"
  "apply_all (c # cs) m = apply_all cs (apply_cmd c m)"
  "apply_all (cs @ ds) m = apply_all ds (apply_all cs m)"
  by (simp_all add: apply_all_def)

lemma apply_cmd_reads: "\<not> writes c \<Longrightarrow> apply_cmd c m = m"
  by (auto simp: apply_cmd_def writes_def)

lemma apply_cmd_other_key: "Key c \<noteq> k \<Longrightarrow> apply_cmd c m k = m k"
  by (auto simp: apply_cmd_def)

lemma apply_cmd_key_cong:
  "m (Key c) = m' (Key c) \<Longrightarrow> apply_cmd c m (Key c) = apply_cmd c m' (Key c)"
  by (auto simp: apply_cmd_def)

lemma apply_cmd_overwrites: "writes c \<Longrightarrow> apply_cmd c m (Key c) = apply_cmd c m' (Key c)"
  by (auto simp: apply_cmd_def writes_def)

section \<open>Commands that do not conflict commute\<close>

lemma apply_cmd_commute:
  assumes "\<not> Conflict c d" shows "apply_cmd c (apply_cmd d m) = apply_cmd d (apply_cmd c m)"
proof (cases "Key c = Key d")
  case True
  with assms have "\<not> writes c" "\<not> writes d" by (auto simp: Conflict_iff)
  then show ?thesis by (simp add: apply_cmd_reads)
next
  case False
  then show ?thesis by (auto simp: apply_cmd_def fun_upd_twist)
qed

lemma result_of_commute: "\<not> Conflict c d \<Longrightarrow> result_of c (apply_cmd d m) = result_of c m"
  by (cases "Key c = Key d")
    (auto simp: Conflict_iff result_of_def apply_cmd_reads apply_cmd_other_key)

lemma result_of_commute_all:
  "\<forall>d\<in>set ds. \<not> Conflict c d \<Longrightarrow> result_of c (apply_all ds m) = result_of c m"
  by (induction ds arbitrary: m) (auto simp: result_of_commute)

lemma apply_all_commute:
  "\<forall>d\<in>set ds. \<not> Conflict c d \<Longrightarrow> apply_all ds (apply_cmd c m) = apply_cmd c (apply_all ds m)"
  by (induction ds arbitrary: m) (simp_all, metis apply_cmd_commute)

lemma apply_cmd_idem: "apply_cmd c (apply_cmd c m) = apply_cmd c m"
  by (auto simp: apply_cmd_def)

section \<open>The writes of a key decide its value\<close>

definition key_writes :: "string \<Rightarrow> CurpClientCommand list \<Rightarrow> CurpClientCommand list" where
  "key_writes k cs = filter (\<lambda>c. writes c \<and> Key c = k) cs"

lemma key_writes_simps [simp]:
  "key_writes k [] = []"
  "key_writes k (c # cs) = (if writes c \<and> Key c = k then c # key_writes k cs else key_writes k cs)"
  "key_writes k (cs @ ds) = key_writes k cs @ key_writes k ds"
  by (simp_all add: key_writes_def)

lemma apply_all_cong_key: "m k = m' k \<Longrightarrow> apply_all cs m k = apply_all cs m' k"
proof (induction cs arbitrary: m m')
  case (Cons c cs)
  have "apply_cmd c m k = apply_cmd c m' k"
    using Cons.prems apply_cmd_key_cong [of m c m'] by (cases "Key c = k") (auto simp: apply_cmd_other_key)
  then have "apply_all cs (apply_cmd c m) k = apply_all cs (apply_cmd c m') k" by (rule Cons.IH)
  then show ?case by simp
qed simp

lemma apply_all_key_writes: "apply_all cs m k = apply_all (key_writes k cs) m k"
proof (induction cs arbitrary: m)
  case (Cons c cs)
  show ?case
  proof (cases "writes c \<and> Key c = k")
    case False
    then have "apply_cmd c m k = m k"
      by (cases "Key c = k") (auto simp: apply_cmd_reads apply_cmd_other_key)
    then have "apply_all (key_writes k cs) (apply_cmd c m) k = apply_all (key_writes k cs) m k"
      by (rule apply_all_cong_key)
    with False Cons.IH show ?thesis by auto
  qed (simp add: Cons.IH)
qed simp

section \<open>Reordering a sequence\<close>

text \<open>\<open>before xs a b\<close>: in \<open>xs\<close>, \<open>b\<close> occurs after the first \<open>a\<close>.\<close>

text \<open>Commands of which no two conflict: only their set matters, not how often or in which order they run.\<close>

definition conflict_free :: "CurpClientCommand set \<Rightarrow> bool" where
  "conflict_free C \<longleftrightarrow> (\<forall>c\<in>C. \<forall>d\<in>C. c \<noteq> d \<longrightarrow> \<not> Conflict c d \<and> pid c \<noteq> pid d)"

lemma apply_all_only_write:
  assumes "writes w" "Key w = k" "w \<in> set cs" "\<forall>c\<in>set cs. writes c \<and> Key c = k \<longrightarrow> c = w"
  shows "apply_all cs m k = apply_cmd w m k"
  using assms(3,4)
proof (induction cs rule: rev_induct)
  case (snoc c cs)
  show ?case
  proof (cases "c = w")
    case True
    with assms(2) apply_cmd_overwrites [OF assms(1), of "apply_all cs m" m] show ?thesis by simp
  next
    case False
    with snoc.prems(2) have "\<not> (writes c \<and> Key c = k)" by fastforce
    moreover have "w \<in> set cs" using snoc.prems(1) False by simp
    ultimately have "\<not> (writes c \<and> Key c = k)" "w \<in> set cs" by blast+
    then have "apply_cmd c (apply_all cs m) k = apply_all cs m k"
      using apply_cmd_reads [of c "apply_all cs m"] apply_cmd_other_key [of c k "apply_all cs m"] by auto
    moreover have "\<forall>d\<in>set cs. writes d \<and> Key d = k \<longrightarrow> d = w" using snoc.prems(2) unfolding set_append by blast
    ultimately show ?thesis using snoc.IH [OF \<open>w \<in> set cs\<close>] by (simp only: apply_all_simps)
  qed
qed simp

lemma apply_all_no_write:
  "\<forall>c\<in>set cs. \<not> (writes c \<and> Key c = k) \<Longrightarrow> apply_all cs m k = m k"
  using apply_all_key_writes [of cs m k] by (simp add: key_writes_def)

lemma conflict_free_same_store:
  assumes "conflict_free C" "set cs \<subseteq> C" "set ds = set cs"
  shows "apply_all cs m = apply_all ds m"
proof
  fix k
  show "apply_all cs m k = apply_all ds m k"
  proof (cases "\<exists>w\<in>set cs. writes w \<and> Key w = k")
    case True
    then obtain w where w: "w \<in> set cs" "writes w" "Key w = k" by blast
    have only: "\<forall>c\<in>set cs. writes c \<and> Key c = k \<longrightarrow> c = w"
    proof (intro ballI impI)
      fix c assume c: "c \<in> set cs" "writes c \<and> Key c = k"
      with w have "Conflict c w" by (simp add: Conflict_iff)
      with c(1) w(1) assms(1,2) show "c = w" unfolding conflict_free_def by blast
    qed
    have "apply_all xs m k = apply_cmd w m k" if "set xs = set cs" for xs
      by (rule apply_all_only_write [OF w(2,3)]) (use w(1) only in \<open>unfold that, blast+\<close>)
    from this [OF refl] this [OF assms(3)] show ?thesis by (rule trans [OF _ sym])
  next
    case False
    with assms(3) apply_all_no_write [of cs k m] apply_all_no_write [of ds k m] show ?thesis by auto
  qed
qed

fun before :: "'a list \<Rightarrow> 'a \<Rightarrow> 'a \<Rightarrow> bool" where
  "before [] a b = False"
| "before (x # xs) a b = (if x = a then b \<in> set xs else before xs a b)"

definition keeps_conflict_order :: "CurpClientCommand list \<Rightarrow> CurpClientCommand list \<Rightarrow> bool" where
  "keeps_conflict_order xs ys \<longleftrightarrow>
     (\<forall>c\<in>set xs. \<forall>d\<in>set xs. before xs c d \<and> Conflict c d \<longrightarrow> before ys c d)"

lemma before_set: "before xs a b \<Longrightarrow> a \<in> set xs \<and> b \<in> set xs"
  by (induction xs) (auto split: if_splits)

lemma before_append:
  "before (xs @ ys) a b \<longleftrightarrow> before xs a b \<or> (a \<in> set xs \<and> b \<in> set ys) \<or> (a \<notin> set xs \<and> before ys a b)"
  by (induction xs) (auto dest: before_set)

lemma before_remove:
  "distinct (us @ x # vs) \<Longrightarrow> a \<noteq> x \<Longrightarrow> b \<noteq> x \<Longrightarrow> before (us @ x # vs) a b = before (us @ vs) a b"
  by (auto simp: before_append)

lemma not_before_earlier:
  "distinct (us @ x # vs) \<Longrightarrow> u \<in> set us \<Longrightarrow> \<not> before (us @ x # vs) x u"
  by (auto simp: before_append dest: before_set)

lemma reorder_same_store:
  assumes "distinct xs" "mset xs = mset ys" "keeps_conflict_order xs ys"
  shows "apply_all xs m = apply_all ys m"
  using assms
proof (induction xs arbitrary: ys m)
  case Nil
  then show ?case by simp
next
  case (Cons x xs)
  have ys: "distinct ys" "set ys = set (x # xs)"
    using Cons.prems by (metis mset_eq_imp_distinct_iff, metis mset_eq_setD)
  from ys(2) have "x \<in> set ys" by simp
  then obtain us vs where uv: "ys = us @ x # vs" by (meson split_list)
  have free: "\<not> Conflict x u" if "u \<in> set us" for u
  proof
    assume "Conflict x u"
    moreover have "u \<in> set xs" using that ys uv Cons.prems(1) by auto
    ultimately have "before ys x u"
      using Cons.prems(3) by (auto simp: keeps_conflict_order_def)
    with that ys(1) uv show False by (simp add: not_before_earlier)
  qed
  have "keeps_conflict_order xs (us @ vs)"
    unfolding keeps_conflict_order_def
  proof (intro ballI impI)
    fix c d assume cd: "c \<in> set xs" "d \<in> set xs" "before xs c d \<and> Conflict c d"
    with Cons.prems(1) have ne: "c \<noteq> x" "d \<noteq> x" by auto
    with cd Cons.prems(3) have "before ys c d"
      by (auto simp: keeps_conflict_order_def)
    with ne ys(1) uv show "before (us @ vs) c d" by (simp add: before_remove)
  qed
  with Cons.prems uv have "apply_all xs (apply_cmd x m) = apply_all (us @ vs) (apply_cmd x m)"
    by (intro Cons.IH) auto
  also have "\<dots> = apply_all ys m"
    using free uv by (simp add: apply_all_commute)
  finally show ?case by simp
qed

text \<open>
  Executing a command again is harmless exactly while nothing that conflicts with it ran
  in between.
\<close>

lemma late_reexecution:
  assumes "\<forall>d\<in>set ds. \<not> Conflict c d"
  shows "apply_all (c # ds @ [c]) m = apply_all (c # ds) m"
  using assms by (simp add: apply_all_commute apply_cmd_idem)

section \<open>Properties of conflicts\<close>

text \<open>
  A command that conflicts with none of the commands it overtakes may run ahead of them:
  its result and the final store are the same as in their order. This is what makes the fast
  path's answer valid before the command is ordered.
\<close>

theorem overtaking_is_safe:
  assumes "\<not> ConflictBatch [c] ds"
  shows "result_of c (apply_all ds m) = result_of c m \<and> apply_all (c # ds) m = apply_all (ds @ [c]) m"
proof -
  from assms have "\<forall>d\<in>set ds. \<not> Conflict c d" by (simp only: ConflictBatch_iff) simp
  then show ?thesis by (simp add: result_of_commute_all apply_all_commute)
qed

theorem overtaking_is_safe_witness:
  "apply_all [zero_command\<lparr>Key := ''x''\<rparr>, zero_command\<lparr>Key := ''y''\<rparr>] Map.empty =
   apply_all ([zero_command\<lparr>Key := ''y''\<rparr>] @ [zero_command\<lparr>Key := ''x''\<rparr>]) Map.empty"
  using overtaking_is_safe [of "zero_command\<lparr>Key := ''x''\<rparr>" "[zero_command\<lparr>Key := ''y''\<rparr>]" Map.empty]
  by (simp add: Conflict_def)

text \<open>
  C22: two orders of the same distinct commands that agree on every pair of conflicting
  commands produce the same store.
\<close>

theorem conflict_order_decides_store:
  assumes "distinct xs" "mset xs = mset ys"
    and "\<And>c d. before xs c d \<Longrightarrow> Conflict c d \<Longrightarrow> before ys c d"
  shows "apply_all xs m = apply_all ys m"
  using assms by (intro reorder_same_store) (auto simp: keeps_conflict_order_def)

theorem conflict_order_decides_store_witness:
  "apply_all [zero_command\<lparr>Key := ''x''\<rparr>, zero_command\<lparr>Key := ''y''\<rparr>] Map.empty =
   apply_all [zero_command\<lparr>Key := ''y''\<rparr>, zero_command\<lparr>Key := ''x''\<rparr>] Map.empty"
  by (rule conflict_order_decides_store)
    (auto simp: zero_command_def Conflict_def add_mset_commute split: if_splits)

text \<open>
  Executing a command a second time, which the removal of its record allows, leaves the
  store as it was when no conflicting command ran in between; after a conflicting write it
  undoes that write.
\<close>

theorem reexecution:
  "(\<not> ConflictBatch [c] ds \<longrightarrow> apply_all (c # ds @ [c]) m = apply_all (c # ds) m) \<and>
   (writes c \<and> writes d \<and> Key d = Key c \<longrightarrow>
      Conflict c d \<and> apply_all [c, d, c] m = apply_all [d, c] m)"
proof (intro conjI impI)
  assume "\<not> ConflictBatch [c] ds"
  then have "\<forall>d\<in>set ds. \<not> Conflict c d" by (simp only: ConflictBatch_iff) simp
  then show "apply_all (c # ds @ [c]) m = apply_all (c # ds) m" by (rule late_reexecution)
next
  assume "writes c \<and> writes d \<and> Key d = Key c"
  then show "Conflict c d" "apply_all [c, d, c] m = apply_all [d, c] m"
    by (auto simp: Conflict_iff apply_cmd_def writes_def)
qed

theorem reexecution_witness:
  "apply_all [zero_command, zero_command\<lparr>Value := ''1''\<rparr>, zero_command] Map.empty =
   apply_all [zero_command\<lparr>Value := ''1''\<rparr>, zero_command] Map.empty"
  using reexecution [of zero_command "[]" Map.empty "zero_command\<lparr>Value := ''1''\<rparr>"]
  by (simp add: writes_def zero_command_def opcode_simps)

end
