(* ===== verification/Witness.thy ===== *)
theory Witness
  imports Command
begin

text \<open>
  The witness of \<open>curp/witness/witness.go\<close>: the commands a replica has accepted and not
  yet seen committed. Both exported operations run under the witness's lock, so each is
  one atomic step.
\<close>

section \<open>Operations\<close>

record Witness =
  commandMap :: "(ProposeId, CurpClientCommand) gomap"

definition NewWitness :: Witness where
  "NewWitness = \<lparr>commandMap = mempty\<rparr>"

fun HasConflictWith_loop :: "(ProposeId \<times> CurpClientCommand) list \<Rightarrow> CurpClientCommand \<Rightarrow> bool" where
  "HasConflictWith_loop [] cmd = False"
| "HasConflictWith_loop ((_, c) # es) cmd =
     (if Conflict c cmd then True else HasConflictWith_loop es cmd)"

definition HasConflictWith :: "Witness \<Rightarrow> CurpClientCommand \<Rightarrow> bool" where
  "HasConflictWith w cmd = HasConflictWith_loop (commandMap w) cmd"

definition InsertIfNotConflict :: "Witness \<Rightarrow> CurpClientCommand \<Rightarrow> Witness \<times> bool" where
  "InsertIfNotConflict w cmd =
     (if HasConflictWith w cmd then (w, True)
      else let proposeId = \<lparr>ClientId = CmdClientId cmd, SeqId = CmdSeqId cmd\<rparr> in
        (w\<lparr>commandMap := mset_to proposeId cmd (commandMap w)\<rparr>, False))"

definition Remove :: "Witness \<Rightarrow> ProposeId \<Rightarrow> Witness" where
  "Remove w proposeId = w\<lparr>commandMap := mdelete proposeId (commandMap w)\<rparr>"

text \<open>The loop finds a conflict whatever order the map is iterated in.\<close>

lemma HasConflictWith_loop_iff: "HasConflictWith_loop es c \<longleftrightarrow> (\<exists>e\<in>set es. Conflict (snd e) c)"
  by (induction es c rule: HasConflictWith_loop.induct) auto

lemma HasConflictWith_loop_order:
  "set es = set fs \<Longrightarrow> HasConflictWith_loop es c = HasConflictWith_loop fs c"
  by (simp add: HasConflictWith_loop_iff)

section \<open>The contract\<close>

text \<open>
  What the state machine relies on: the set of recorded commands, its invariant (no two
  commands recorded under different identifiers conflict), and what the two operations do
  to it.
\<close>

definition compatible :: "CurpClientCommand set \<Rightarrow> bool" where
  "compatible R \<longleftrightarrow> (\<forall>c\<in>R. \<forall>d\<in>R. pid c \<noteq> pid d \<longrightarrow> \<not> Conflict c d)"

datatype witness_op = Record CurpClientCommand | Forget ProposeId

text \<open>An operation that neither removes the record of \<open>c\<close> nor reuses its identifier.\<close>

definition spares :: "CurpClientCommand \<Rightarrow> witness_op \<Rightarrow> bool" where
  "spares c p = (case p of Record d \<Rightarrow> pid d \<noteq> pid c | Forget i \<Rightarrow> i \<noteq> pid c)"

locale conflict_filter =
  fixes fresh :: 'w
    and record_cmd :: "'w \<Rightarrow> CurpClientCommand \<Rightarrow> 'w \<times> bool"
    and forget :: "'w \<Rightarrow> ProposeId \<Rightarrow> 'w"
    and recorded :: "'w \<Rightarrow> CurpClientCommand set"
    and ok :: "'w \<Rightarrow> bool"
  assumes fresh_ok: "ok fresh" and fresh_recorded: "recorded fresh = {}"
    and record_flag: "ok w \<Longrightarrow> snd (record_cmd w c) \<longleftrightarrow> (\<exists>d\<in>recorded w. Conflict d c)"
    and record_refused: "ok w \<Longrightarrow> snd (record_cmd w c) \<Longrightarrow> fst (record_cmd w c) = w"
    and record_accepted: "ok w \<Longrightarrow> \<not> snd (record_cmd w c) \<Longrightarrow>
      recorded (fst (record_cmd w c)) = insert c {d \<in> recorded w. pid d \<noteq> pid c}"
    and forget_recorded: "ok w \<Longrightarrow> recorded (forget w i) = {d \<in> recorded w. pid d \<noteq> i}"
    and record_ok: "ok w \<Longrightarrow> ok (fst (record_cmd w c))"
    and forget_ok: "ok w \<Longrightarrow> ok (forget w i)"
begin

fun run_op :: "'w \<Rightarrow> witness_op \<Rightarrow> 'w" where
  "run_op w (Record c) = fst (record_cmd w c)"
| "run_op w (Forget i) = forget w i"

definition run_ops :: "'w \<Rightarrow> witness_op list \<Rightarrow> 'w" where
  "run_ops w os = foldl run_op w os"

lemma run_ops_simps [simp]: "run_ops w [] = w" "run_ops w (p # os) = run_ops (run_op w p) os"
  by (simp_all add: run_ops_def)

lemma run_op_ok: "ok w \<Longrightarrow> ok (run_op w p)"
  by (cases p) (auto simp: record_ok forget_ok)

lemma run_ops_ok: "ok w \<Longrightarrow> ok (run_ops w os)"
  by (induction os arbitrary: w) (auto simp: run_op_ok)

lemma record_compatible:
  assumes "ok w" "compatible (recorded w)"
  shows "compatible (recorded (fst (record_cmd w c)))"
proof (cases "snd (record_cmd w c)")
  case True
  with assms show ?thesis by (simp add: record_refused)
next
  case False
  with assms(1) have "\<forall>d\<in>recorded w. \<not> Conflict d c" by (auto simp: record_flag)
  with assms False show ?thesis
    by (auto simp: record_accepted compatible_def Conflict_sym)
qed

lemma run_op_compatible:
  "ok w \<Longrightarrow> compatible (recorded w) \<Longrightarrow> compatible (recorded (run_op w p))"
proof (cases p)
  case (Forget i)
  then show "ok w \<Longrightarrow> compatible (recorded w) \<Longrightarrow> ?thesis"
    by (auto simp: forget_recorded compatible_def)
qed (simp add: record_compatible)

lemma run_ops_compatible:
  "ok w \<Longrightarrow> compatible (recorded w) \<Longrightarrow> compatible (recorded (run_ops w os))"
  by (induction os arbitrary: w) (auto simp: run_op_ok run_op_compatible)

lemma run_op_keeps: "ok w \<Longrightarrow> c \<in> recorded w \<Longrightarrow> spares c p \<Longrightarrow> c \<in> recorded (run_op w p)"
proof (cases p)
  case (Record d)
  assume "ok w" "c \<in> recorded w" "spares c p"
  with Record show ?thesis
    by (cases "snd (record_cmd w d)") (auto simp: record_refused record_accepted spares_def)
qed (auto simp: forget_recorded spares_def)

lemma run_ops_keep:
  "ok w \<Longrightarrow> c \<in> recorded w \<Longrightarrow> \<forall>p\<in>set os. spares c p \<Longrightarrow> c \<in> recorded (run_ops w os)"
  by (induction os arbitrary: w) (auto simp: run_op_ok run_op_keeps)

lemma accepted_blocks:
  assumes "ok w" "\<not> snd (record_cmd w c)" "\<forall>p\<in>set os. spares c p" "Conflict c d"
  shows "snd (record_cmd (run_ops (fst (record_cmd w c)) os) d)"
proof -
  let ?w = "fst (record_cmd w c)"
  have "ok ?w" "c \<in> recorded ?w" using assms by (auto simp: record_ok record_accepted)
  with assms(3) have "ok (run_ops ?w os)" "c \<in> recorded (run_ops ?w os)"
    by (auto simp: run_ops_ok run_ops_keep)
  with assms(4) show ?thesis by (auto simp: record_flag)
qed

end

section \<open>The witness meets the contract\<close>

definition recorded_cmds :: "Witness \<Rightarrow> CurpClientCommand set" where
  "recorded_cmds w = snd ` set (commandMap w)"

definition witness_ok :: "Witness \<Rightarrow> bool" where
  "witness_ok w \<longleftrightarrow> mwf (commandMap w) \<and> (\<forall>e\<in>set (commandMap w). fst e = pid (snd e))"

lemma witness_recorded_put:
  assumes "witness_ok w"
  shows "snd ` set (mset_to (pid c) c (commandMap w)) = insert c {d \<in> recorded_cmds w. pid d \<noteq> pid c}"
  using assms by (force simp: witness_ok_def recorded_cmds_def gm.entries_put)

lemma witness_recorded_delete:
  assumes "witness_ok w"
  shows "snd ` set (mdelete i (commandMap w)) = {d \<in> recorded_cmds w. pid d \<noteq> i}"
  using assms by (force simp: witness_ok_def recorded_cmds_def gm.entries_del)

lemma InsertIfNotConflict_pid:
  "InsertIfNotConflict w c =
     (if HasConflictWith w c then (w, True)
      else (w\<lparr>commandMap := mset_to (pid c) c (commandMap w)\<rparr>, False))"
  by (simp add: InsertIfNotConflict_def CurpClientCommand_ProposeId_def Let_def)

interpretation wit: conflict_filter NewWitness InsertIfNotConflict Remove recorded_cmds witness_ok
proof unfold_locales
  fix w c i
  assume ok: "witness_ok w"
  show "\<not> snd (InsertIfNotConflict w c) \<Longrightarrow>
      recorded_cmds (fst (InsertIfNotConflict w c)) = insert c {d \<in> recorded_cmds w. pid d \<noteq> pid c}"
    using witness_recorded_put [OF ok, of c]
    by (auto simp: InsertIfNotConflict_pid recorded_cmds_def split: if_splits)
  show "recorded_cmds (Remove w i) = {d \<in> recorded_cmds w. pid d \<noteq> i}"
    using witness_recorded_delete [OF ok, of i] by (simp add: Remove_def recorded_cmds_def)
  show "witness_ok (fst (InsertIfNotConflict w c))"
    using ok by (auto simp: InsertIfNotConflict_pid witness_ok_def gm.ok_put gm.entries_put)
  show "witness_ok (Remove w i)"
    using ok by (auto simp: Remove_def witness_ok_def gm.ok_del gm.entries_del)
qed (auto simp: witness_ok_def recorded_cmds_def NewWitness_def mempty_def mwf_def
      InsertIfNotConflict_def HasConflictWith_def HasConflictWith_loop_iff Let_def split: if_splits)

text \<open>Any sequence of calls, as the goroutines that share the witness make them.\<close>

fun witness_call :: "Witness \<Rightarrow> witness_op \<Rightarrow> Witness" where
  "witness_call w (Record c) = fst (InsertIfNotConflict w c)"
| "witness_call w (Forget i) = Remove w i"

definition witness_calls :: "Witness \<Rightarrow> witness_op list \<Rightarrow> Witness" where
  "witness_calls w os = foldl witness_call w os"

lemma witness_calls_run: "witness_calls w os = wit.run_ops w os"
proof (induction os arbitrary: w)
  case (Cons p os)
  have "witness_call w p = wit.run_op w p" by (cases p) simp_all
  with Cons.IH show ?case by (simp add: witness_calls_def)
qed (simp add: witness_calls_def)

section \<open>Properties of the witness\<close>

text \<open>
  A command is refused exactly when a recorded command conflicts with it, a refused
  command leaves the witness as it was, and an accepted one is recorded in place of any
  earlier command with its identifier.
\<close>

theorem witness_insert:
  assumes "witness_ok w"
  shows "case InsertIfNotConflict w c of (w', isConflict) \<Rightarrow>
      (isConflict \<longleftrightarrow> (\<exists>d\<in>recorded_cmds w. Conflict d c)) \<and> witness_ok w' \<and>
      (if isConflict then w' = w
       else recorded_cmds w' = insert c {d \<in> recorded_cmds w. pid d \<noteq> pid c})"
proof (cases "InsertIfNotConflict w c")
  case (Pair w' isConflict)
  then show ?thesis
    using wit.record_flag [OF assms, of c] wit.record_refused [OF assms, of c]
      wit.record_accepted [OF assms, of c] wit.record_ok [OF assms, of c]
    by (cases isConflict) simp_all
qed

theorem witness_insert_witness:
  "\<not> snd (InsertIfNotConflict NewWitness zero_command) \<and>
   recorded_cmds (fst (InsertIfNotConflict NewWitness zero_command)) = {zero_command}"
  using witness_insert [OF wit.fresh_ok, of zero_command]
  by (simp add: wit.fresh_recorded split: prod.splits)

text \<open>
  C17: an accepted command blocks every conflicting one for as long as its record stays: after
  any sequence of calls that neither removes the record nor reuses its identifier, a command
  that conflicts with it is refused. And no sequence of calls makes the witness hold two
  conflicting commands.
\<close>

theorem witness_blocks_conflicts:
  assumes "\<not> snd (InsertIfNotConflict (witness_calls NewWitness ps) c)"
    and "\<forall>p\<in>set qs. spares c p" "Conflict c d"
  shows "snd (InsertIfNotConflict (witness_calls NewWitness (ps @ Record c # qs)) d) \<and>
         compatible (recorded_cmds (witness_calls NewWitness (ps @ Record c # qs)))"
proof -
  have ok: "witness_ok (witness_calls NewWitness ps)"
    using wit.run_ops_ok [OF wit.fresh_ok] by (simp add: witness_calls_run)
  have "witness_calls NewWitness (ps @ Record c # qs) =
      wit.run_ops (fst (InsertIfNotConflict (witness_calls NewWitness ps) c)) qs"
    by (simp add: witness_calls_run wit.run_ops_def)
  moreover have "compatible (recorded_cmds (wit.run_ops NewWitness (ps @ Record c # qs)))"
    by (intro wit.run_ops_compatible wit.fresh_ok) (simp add: wit.fresh_recorded compatible_def)
  ultimately show ?thesis
    using wit.accepted_blocks [OF ok assms] by (simp add: witness_calls_run)
qed

theorem witness_blocks_conflicts_witness:
  "snd (InsertIfNotConflict (witness_calls NewWitness ([] @ Record zero_command # []))
     (zero_command\<lparr>CmdClientId := 1\<rparr>))"
  using witness_blocks_conflicts [of "[]" zero_command "[]" "zero_command\<lparr>CmdClientId := 1\<rparr>"]
  by (simp add: witness_calls_def NewWitness_def mempty_def InsertIfNotConflict_def HasConflictWith_def
      Conflict_def zero_command_def opcode_simps)

end
