(* ===== verification/Board.thy ===== *)
theory Board
  imports Command
begin

text \<open>
  The command board of \<open>curp/command/cmd_board.go\<close>: the results of executed commands and
  the channels on which the goroutines of \<open>Propose\<close> and \<open>WaitSynced\<close> wait for them.
  Each operation is cut where its goroutine can park: the sections between two such points
  run under the board's lock and are atomic. \<open>mu\<close> is the lock: \<open>None\<close> when it is free,
  otherwise the send at which the goroutine that holds it is parked.
\<close>

section \<open>State\<close>

datatype parked_send = SendingEr ProposeId string | SendingAsr ProposeId

record CommandBoard =
  mu :: "parked_send option"
  erNotifiers :: "(ProposeId, string chan) gomap"
  asrNotifiers :: "(ProposeId, unit chan) gomap"
  erBuffer :: "(ProposeId, string) gomap"
  asrBuffer :: "(ProposeId, unit) gomap"

definition NewBoard :: CommandBoard where
  "NewBoard = \<lparr>mu = None, erNotifiers = mempty, asrNotifiers = mempty,
               erBuffer = mempty, asrBuffer = mempty\<rparr>"

section \<open>Operations of the worker\<close>

text \<open>
  A send on a full notifier parks the worker with the lock held: \<open>Parked b\<close> is that state,
  and \<open>NotifyEr\<close> or \<open>NotifyAsr_send\<close> is what it resumes with.
\<close>

definition NotifyEr :: "CommandBoard \<Rightarrow> ProposeId \<Rightarrow> string \<Rightarrow> (CommandBoard, unit) outcome" where
  "NotifyEr c i result =
     (case mget (erNotifiers c) i of
        None \<Rightarrow> Done c ()
      | Some ch \<Rightarrow>
          (case chan_send ch result of
             None \<Rightarrow> Parked c
           | Some ch' \<Rightarrow> Done (c\<lparr>erNotifiers := mset_to i ch' (erNotifiers c)\<rparr>) ()))"

definition InsertEr :: "CommandBoard \<Rightarrow> ProposeId \<Rightarrow> string \<Rightarrow> (CommandBoard, unit) outcome" where
  "InsertEr c i result =
     (let c1 = c\<lparr>mu := Some (SendingEr i result), erBuffer := mset_to i result (erBuffer c)\<rparr> in
      case NotifyEr c1 i result of
        Done c2 _ \<Rightarrow> Done (c2\<lparr>mu := None\<rparr>) ()
      | Parked c2 \<Rightarrow> Parked c2)"

definition NotifyAsr_send :: "CommandBoard \<Rightarrow> ProposeId \<Rightarrow> (CommandBoard, unit) outcome" where
  "NotifyAsr_send c i =
     (case mget (asrNotifiers c) i of
        None \<Rightarrow> Done c ()
      | Some ch \<Rightarrow>
          (case chan_send ch () of
             None \<Rightarrow> Parked c
           | Some ch' \<Rightarrow> Done (c\<lparr>asrNotifiers := mset_to i ch' (asrNotifiers c)\<rparr>) ()))"

definition NotifyAsr :: "CommandBoard \<Rightarrow> ProposeId \<Rightarrow> (CommandBoard, unit) outcome" where
  "NotifyAsr c i =
     (let c1 = c\<lparr>mu := Some (SendingAsr i), asrBuffer := mset_to i () (asrBuffer c)\<rparr> in
      case NotifyAsr_send c1 i of
        Done c2 _ \<Rightarrow> Done (c2\<lparr>mu := None\<rparr>) ()
      | Parked c2 \<Rightarrow> Parked c2)"

section \<open>Operations of the waiters\<close>

text \<open>
  \<open>WaitForEr\<close>: the section under the lock returns a buffered result at once
  (\<open>Some result\<close>) or makes sure the notifier exists; the goroutine then receives from it.
\<close>

definition WaitForEr_enter :: "CommandBoard \<Rightarrow> ProposeId \<Rightarrow> CommandBoard \<times> string option" where
  "WaitForEr_enter c i =
     (case mget (erBuffer c) i of
        Some result \<Rightarrow> (c, Some result)
      | None \<Rightarrow>
          if mhas (erNotifiers c) i then (c, None)
          else (c\<lparr>erNotifiers := mset_to i (make_chan 1) (erNotifiers c)\<rparr>, None))"

definition WaitForEr_recv :: "CommandBoard \<Rightarrow> ProposeId \<Rightarrow> (CommandBoard, string) outcome" where
  "WaitForEr_recv c i =
     (case mget (erNotifiers c) i of
        None \<Rightarrow> Parked c
      | Some ch \<Rightarrow>
          (case chan_recv ch of
             None \<Rightarrow> Parked c
           | Some (result, ch') \<Rightarrow> Done (c\<lparr>erNotifiers := mset_to i ch' (erNotifiers c)\<rparr>) result))"

definition WaitForEr :: "CommandBoard \<Rightarrow> ProposeId \<Rightarrow> (CommandBoard, string) outcome" where
  "WaitForEr c i =
     (case WaitForEr_enter c i of
        (c1, Some result) \<Rightarrow> Done c1 result
      | (c1, None) \<Rightarrow> WaitForEr_recv c1 i)"

text \<open>
  \<open>WaitForAsr\<close>: the deferred deletions run when the function returns, before the deferred
  unlock. The wait itself happens with the lock released.
\<close>

definition WaitForAsr_clear :: "CommandBoard \<Rightarrow> ProposeId \<Rightarrow> CommandBoard" where
  "WaitForAsr_clear c i =
     c\<lparr>erBuffer := mdelete i (erBuffer c), asrBuffer := mdelete i (asrBuffer c)\<rparr>"

definition WaitForAsr_enter :: "CommandBoard \<Rightarrow> ProposeId \<Rightarrow> CommandBoard \<times> string option" where
  "WaitForAsr_enter c i =
     (case (mget (asrBuffer c) i, mget (erBuffer c) i) of
        (Some _, Some result) \<Rightarrow> (WaitForAsr_clear c i, Some result)
      | _ \<Rightarrow>
          if mhas (asrNotifiers c) i then (c, None)
          else (c\<lparr>asrNotifiers := mset_to i (make_chan 1) (asrNotifiers c)\<rparr>, None))"

definition WaitForAsr_recv :: "CommandBoard \<Rightarrow> ProposeId \<Rightarrow> (CommandBoard, unit) outcome" where
  "WaitForAsr_recv c i =
     (case mget (asrNotifiers c) i of
        None \<Rightarrow> Parked c
      | Some ch \<Rightarrow>
          (case chan_recv ch of
             None \<Rightarrow> Parked c
           | Some (_, ch') \<Rightarrow> Done (c\<lparr>asrNotifiers := mset_to i ch' (asrNotifiers c)\<rparr>) ()))"

definition WaitForAsr_finish :: "CommandBoard \<Rightarrow> ProposeId \<Rightarrow> CommandBoard \<times> string" where
  "WaitForAsr_finish c i =
     (case mget (erBuffer c) i of
        Some result \<Rightarrow> (WaitForAsr_clear c i, result)
      | None \<Rightarrow> (WaitForAsr_clear c i, ''NOT FOUND IN BUFFER''))"

definition WaitForAsr :: "CommandBoard \<Rightarrow> ProposeId \<Rightarrow> (CommandBoard, string) outcome" where
  "WaitForAsr c i =
     (case WaitForAsr_enter c i of
        (c1, Some result) \<Rightarrow> Done c1 result
      | (c1, None) \<Rightarrow>
          (case WaitForAsr_recv c1 i of
             Parked c2 \<Rightarrow> Parked c2
           | Done c2 _ \<Rightarrow> (case WaitForAsr_finish c2 i of (c3, result) \<Rightarrow> Done c3 result)))"

lemmas board_defs = NotifyEr_def InsertEr_def NotifyAsr_send_def NotifyAsr_def WaitForEr_enter_def
  WaitForEr_recv_def WaitForEr_def WaitForAsr_clear_def WaitForAsr_enter_def WaitForAsr_recv_def
  WaitForAsr_finish_def WaitForAsr_def

section \<open>Interleaved use\<close>

text \<open>
  The board as the goroutines share it. Every event is one atomic section; sections that
  lock need the lock to be free, a receive does not lock.
\<close>

datatype board_event =
    InsertedEr ProposeId string | InsertErParked ProposeId string | InsertErResumed ProposeId string
  | NotifiedAsr ProposeId | NotifyAsrParked ProposeId | NotifyAsrResumed ProposeId
  | ErReturned ProposeId string | ErParked ProposeId | ErReceived ProposeId string
  | AsrReturned ProposeId string | AsrParked ProposeId | AsrReceived ProposeId
  | AsrFinished ProposeId string

inductive board_step :: "CommandBoard \<Rightarrow> board_event \<Rightarrow> CommandBoard \<Rightarrow> bool" where
  insert_er: "mu c = None \<Longrightarrow> InsertEr c i r = Done d () \<Longrightarrow> board_step c (InsertedEr i r) d"
| insert_er_park: "mu c = None \<Longrightarrow> InsertEr c i r = Parked d \<Longrightarrow> board_step c (InsertErParked i r) d"
| insert_er_resume: "mu c = Some (SendingEr i r) \<Longrightarrow> NotifyEr c i r = Done d () \<Longrightarrow>
    board_step c (InsertErResumed i r) (d\<lparr>mu := None\<rparr>)"
| notify_asr: "mu c = None \<Longrightarrow> NotifyAsr c i = Done d () \<Longrightarrow> board_step c (NotifiedAsr i) d"
| notify_asr_park: "mu c = None \<Longrightarrow> NotifyAsr c i = Parked d \<Longrightarrow> board_step c (NotifyAsrParked i) d"
| notify_asr_resume: "mu c = Some (SendingAsr i) \<Longrightarrow> NotifyAsr_send c i = Done d () \<Longrightarrow>
    board_step c (NotifyAsrResumed i) (d\<lparr>mu := None\<rparr>)"
| wait_er_return: "mu c = None \<Longrightarrow> WaitForEr_enter c i = (d, Some r) \<Longrightarrow> board_step c (ErReturned i r) d"
| wait_er_park: "mu c = None \<Longrightarrow> WaitForEr_enter c i = (d, None) \<Longrightarrow> board_step c (ErParked i) d"
| wait_er_recv: "WaitForEr_recv c i = Done d r \<Longrightarrow> board_step c (ErReceived i r) d"
| wait_asr_return: "mu c = None \<Longrightarrow> WaitForAsr_enter c i = (d, Some r) \<Longrightarrow> board_step c (AsrReturned i r) d"
| wait_asr_park: "mu c = None \<Longrightarrow> WaitForAsr_enter c i = (d, None) \<Longrightarrow> board_step c (AsrParked i) d"
| wait_asr_recv: "WaitForAsr_recv c i = Done d () \<Longrightarrow> board_step c (AsrReceived i) d"
| wait_asr_finish: "mu c = None \<Longrightarrow> WaitForAsr_finish c i = (d, r) \<Longrightarrow> board_step c (AsrFinished i r) d"

inductive_simps board_step_simps:
  "board_step c (InsertedEr i r) d" "board_step c (InsertErParked i r) d"
  "board_step c (InsertErResumed i r) d" "board_step c (NotifiedAsr i) d"
  "board_step c (NotifyAsrParked i) d" "board_step c (NotifyAsrResumed i) d"
  "board_step c (ErReturned i r) d" "board_step c (ErParked i) d" "board_step c (ErReceived i r) d"
  "board_step c (AsrReturned i r) d" "board_step c (AsrParked i) d" "board_step c (AsrReceived i) d"
  "board_step c (AsrFinished i r) d"

definition board_inv :: "CommandBoard \<Rightarrow> bool" where
  "board_inv c \<longleftrightarrow>
     (\<forall>i ch. mget (erNotifiers c) i = Some ch \<longrightarrow> ccap ch = 1 \<and> chan_ok ch) \<and>
     (\<forall>i ch. mget (asrNotifiers c) i = Some ch \<longrightarrow> ccap ch = 1 \<and> chan_ok ch)"

lemma NotifyEr_cases:
  assumes "NotifyEr c i r = Done d ()"
  obtains (absent) "\<not> mhas (erNotifiers c) i" "d = c"
  | (sent) ch ch' where "mget (erNotifiers c) i = Some ch" "chan_send ch r = Some ch'"
      "d = c\<lparr>erNotifiers := mset_to i ch' (erNotifiers c)\<rparr>"
  using assms by (auto simp: NotifyEr_def mhas_def split: option.splits)

lemma NotifyAsr_send_cases:
  assumes "NotifyAsr_send c i = Done d ()"
  obtains (absent) "\<not> mhas (asrNotifiers c) i" "d = c"
  | (sent) ch ch' where "mget (asrNotifiers c) i = Some ch" "chan_send ch () = Some ch'"
      "d = c\<lparr>asrNotifiers := mset_to i ch' (asrNotifiers c)\<rparr>"
  using assms by (auto simp: NotifyAsr_send_def mhas_def split: option.splits)

lemma chan_recv_queue:
  "chan_recv ch = Some (x, ch') \<Longrightarrow> cbuf ch = x # cbuf ch'"
  by (simp add: ch.recv_Some)

lemma chan_send_queue:
  "chan_send ch x = Some ch' \<Longrightarrow> cbuf ch' = cbuf ch @ [x]"
  by (simp add: ch.send_Some)

lemma chan_send_ok: "chan_send ch x = Some ch' \<Longrightarrow> ccap ch' = ccap ch \<and> (chan_ok ch \<longrightarrow> chan_ok ch')"
  by (simp add: ch.send_Some)

lemma chan_recv_ok: "chan_recv ch = Some (x, ch') \<Longrightarrow> ccap ch' = ccap ch \<and> (chan_ok ch \<longrightarrow> chan_ok ch')"
  by (simp add: ch.recv_Some)

text \<open>Every channel of the board keeps the capacity it was made with.\<close>

lemma board_inv_new: "board_inv NewBoard"
  by (simp add: board_inv_def NewBoard_def gomap_simps)

lemma board_inv_step: "board_step c e d \<Longrightarrow> board_inv c \<Longrightarrow> board_inv d"
  by (cases rule: board_step.cases)
    (auto simp: board_defs board_inv_def gomap_simps chan_simps Let_def
      split: option.splits outcome.splits if_splits prod.splits
      dest!: chan_send_ok chan_recv_ok)

interpretation board: invariant_of "\<lambda>c. c = NewBoard" board_step board_inv
  by unfold_locales (auto simp: board_inv_new dest: board_inv_step)

section \<open>Only inserted results are delivered\<close>

text \<open>The results an event puts on the board, and the string it hands to a waiter.\<close>

fun offers :: "board_event \<Rightarrow> (ProposeId \<times> string) set" where
  "offers (InsertedEr i r) = {(i, r)}"
| "offers (InsertErParked i r) = {(i, r)}"
| "offers _ = {}"

fun delivers :: "board_event \<Rightarrow> ProposeId \<Rightarrow> string \<Rightarrow> bool" where
  "delivers (ErReturned j s) i r = (j = i \<and> s = r)"
| "delivers (ErReceived j s) i r = (j = i \<and> s = r)"
| "delivers (AsrReturned j s) i r = (j = i \<and> s = r)"
| "delivers (AsrFinished j s) i r = (j = i \<and> s = r)"
| "delivers _ i r = False"

definition results_from :: "(ProposeId \<times> string) set \<Rightarrow> CommandBoard \<Rightarrow> bool" where
  "results_from H c \<longleftrightarrow>
     (\<forall>i r. mget (erBuffer c) i = Some r \<longrightarrow> (i, r) \<in> H) \<and>
     (\<forall>i ch r. mget (erNotifiers c) i = Some ch \<longrightarrow> r \<in> set (cbuf ch) \<longrightarrow> (i, r) \<in> H) \<and>
     (\<forall>i r. mu c = Some (SendingEr i r) \<longrightarrow> (i, r) \<in> H)"

lemma results_from_step:
  assumes "board_step c e d" "results_from H c" shows "results_from (H \<union> offers e) d"
  using assms
  by (cases rule: board_step.cases)
    (auto simp: board_defs results_from_def gomap_simps chan_simps Let_def
      split: option.splits outcome.splits if_splits prod.splits
      dest!: chan_send_queue chan_recv_queue)

lemma delivered_from_step:
  assumes "board_step c e d" "results_from H c" "delivers e i r"
  shows "(i, r) \<in> H \<or> e = AsrFinished i r \<and> r = ''NOT FOUND IN BUFFER'' \<and> mget (erBuffer c) i = None"
  using assms
  by (cases rule: board_step.cases)
    (auto simp: board_defs results_from_def
      split: option.splits if_splits prod.splits dest!: chan_recv_queue)

lemma results_from_run:
  "run board_step c ls d \<Longrightarrow> results_from H c \<Longrightarrow> results_from (H \<union> \<Union> (offers ` set ls)) d"
proof (induction arbitrary: H rule: run.induct)
  case (run_cons s l t ls u)
  from run_cons.IH [OF results_from_step [OF run_cons.hyps(1) run_cons.prems]]
  show ?case by (simp add: Un_assoc)
qed simp

lemma results_from_new: "results_from {} NewBoard"
  by (simp add: results_from_def NewBoard_def gomap_simps)

section \<open>Waiters and wake-ups\<close>

text \<open>A goroutine parked in \<open>WaitForEr\<close> can run again when its channel holds a result.\<close>

definition er_ready :: "CommandBoard \<Rightarrow> ProposeId \<Rightarrow> bool" where
  "er_ready c i = (case mget (erNotifiers c) i of None \<Rightarrow> False | Some ch \<Rightarrow> cbuf ch \<noteq> [])"

definition asr_idle :: "CommandBoard \<Rightarrow> ProposeId \<Rightarrow> bool" where
  "asr_idle c i = (case mget (asrNotifiers c) i of None \<Rightarrow> False | Some ch \<Rightarrow> cbuf ch = [])"

definition asr_busy :: "CommandBoard \<Rightarrow> ProposeId \<Rightarrow> bool" where
  "asr_busy c i = (case mget (asrNotifiers c) i of None \<Rightarrow> False | Some ch \<Rightarrow> cbuf ch \<noteq> [])"

definition inserts :: "ProposeId \<Rightarrow> board_event \<Rightarrow> bool" where
  "inserts i e \<longleftrightarrow> (\<exists>r. e = InsertedEr i r \<or> e = InsertErParked i r)"

definition receives :: "ProposeId \<Rightarrow> board_event \<Rightarrow> bool" where
  "receives i e \<longleftrightarrow> (\<exists>r. e = ErReceived i r)"

definition notifies :: "ProposeId \<Rightarrow> board_event \<Rightarrow> bool" where
  "notifies i e \<longleftrightarrow> e = NotifiedAsr i \<or> e = NotifyAsrResumed i"

lemma er_notifier_stays: "board_step c e d \<Longrightarrow> mhas (erNotifiers c) i \<Longrightarrow> mhas (erNotifiers d) i"
  by (cases rule: board_step.cases)
    (auto simp: board_defs gomap_simps Let_def
      split: option.splits outcome.splits if_splits prod.splits)

lemma asr_notifier_stays: "board_step c e d \<Longrightarrow> mhas (asrNotifiers c) i \<Longrightarrow> mhas (asrNotifiers d) i"
  by (cases rule: board_step.cases)
    (auto simp: board_defs gomap_simps Let_def
      split: option.splits outcome.splits if_splits prod.splits)

lemma er_ready_stays:
  assumes "board_step c e d" "er_ready c i" "\<not> receives i e" shows "er_ready d i"
  using assms
  by (cases rule: board_step.cases)
    (auto simp: board_defs er_ready_def receives_def gomap_simps mhas_def chan_simps Let_def
      split: option.splits outcome.splits if_splits prod.splits dest!: chan_send_queue)

lemma er_ready_by_insert:
  assumes "board_step c e d" "board_inv c" "mhas (erNotifiers c) i" "inserts i e"
  shows "er_ready d i"
proof -
  have full: "cbuf ch \<noteq> []" if "mget (erNotifiers c) i = Some ch" "chan_send ch r = None" for ch r
    using that assms(2) ch.send_None [of ch r] by (auto simp: board_inv_def)
  from assms(1,3,4) show ?thesis
    by (cases rule: board_step.cases)
      (auto simp: inserts_def InsertEr_def NotifyEr_def er_ready_def mhas_def gomap_simps Let_def
        split: option.splits outcome.splits dest: full dest!: chan_send_queue)
qed

lemma er_ready_runs: "er_ready c i \<longleftrightarrow> (\<exists>d r. WaitForEr_recv c i = Done d r)"
  by (auto simp: er_ready_def WaitForEr_recv_def chan_recv_def split: option.splits list.splits)

lemma er_ready_along:
  "run board_step c ls d \<Longrightarrow> er_ready c i \<Longrightarrow> \<forall>e\<in>set ls. \<not> receives i e \<Longrightarrow> er_ready d i"
  by (induction rule: run.induct) (auto intro: er_ready_stays)

lemma er_wakeup:
  assumes "run board_step c ls d" "board_inv c" "mhas (erNotifiers c) i"
    and "\<exists>e\<in>set ls. inserts i e" "\<forall>e\<in>set ls. \<not> receives i e"
  shows "er_ready d i"
  using assms
proof (induction rule: run.induct)
  case (run_cons s l t ls u)
  show ?case
  proof (cases "inserts i l")
    case True
    with run_cons have "er_ready t i" by (auto intro: er_ready_by_insert)
    with run_cons show ?thesis by (auto intro: er_ready_along)
  next
    case False
    with run_cons.prems have "\<exists>e\<in>set ls. inserts i e" by auto
    with run_cons show ?thesis
      by (auto intro: board_inv_step er_notifier_stays)
  qed
qed simp

lemma asr_idle_stays:
  assumes "board_step c e d" "asr_idle c i" "\<not> notifies i e" shows "asr_idle d i"
  using assms
  by (cases rule: board_step.cases)
    (auto simp: board_defs asr_idle_def notifies_def gomap_simps mhas_def chan_simps Let_def
      split: option.splits outcome.splits if_splits prod.splits dest!: chan_recv_queue)

lemma asr_idle_along:
  "run board_step c ls d \<Longrightarrow> asr_idle c i \<Longrightarrow> \<forall>e\<in>set ls. \<not> notifies i e \<Longrightarrow> asr_idle d i"
  by (induction rule: run.induct) (auto intro: asr_idle_stays)

lemma asr_idle_parks: "asr_idle c i \<Longrightarrow> WaitForAsr_recv c i = Parked c"
  by (auto simp: asr_idle_def WaitForAsr_recv_def chan_recv_def split: option.splits)

lemma asr_enter_parks:
  assumes "mget (erBuffer c) i = None \<or> mget (asrBuffer c) i = None" "\<not> mhas (asrNotifiers c) i"
  shows "\<exists>d. WaitForAsr_enter c i = (d, None) \<and> asr_idle d i \<and> mu d = mu c"
  using assms
  by (auto simp: WaitForAsr_enter_def asr_idle_def gomap_simps chan_simps split: option.splits)

lemma asr_enter_idle:
  assumes "mget (erBuffer c) i = None" "\<not> asr_busy c i"
  shows "\<exists>d. WaitForAsr_enter c i = (d, None) \<and> asr_idle d i"
  using assms
  by (auto simp: WaitForAsr_enter_def asr_idle_def asr_busy_def mhas_def gomap_simps chan_simps split: option.splits)

text \<open>The worker parks exactly when a notifier holds something that nobody has read.\<close>

lemma chan_full_iff: "ccap ch = 1 \<Longrightarrow> chan_ok ch \<Longrightarrow> chan_send ch x = None \<longleftrightarrow> cbuf ch \<noteq> []"
  using ch.send_None [of ch x] by (cases "cbuf ch") (auto simp: chan_ok_def)

lemma InsertEr_parks_iff:
  assumes "board_inv c" shows "(\<exists>d. InsertEr c i r = Parked d) \<longleftrightarrow> er_ready c i"
proof (cases "mget (erNotifiers c) i")
  case (Some ch)
  with assms have "(chan_send ch r = None) = (cbuf ch \<noteq> [])"
    by (intro chan_full_iff) (auto simp: board_inv_def)
  with Some show ?thesis
    by (cases "chan_send ch r") (auto simp: InsertEr_def NotifyEr_def er_ready_def Let_def)
qed (simp add: InsertEr_def NotifyEr_def er_ready_def Let_def)

lemma NotifyAsr_parks_iff:
  assumes "board_inv c" shows "(\<exists>d. NotifyAsr c i = Parked d) \<longleftrightarrow> asr_busy c i"
proof (cases "mget (asrNotifiers c) i")
  case (Some ch)
  with assms have "(chan_send ch () = None) = (cbuf ch \<noteq> [])"
    by (intro chan_full_iff) (auto simp: board_inv_def)
  with Some show ?thesis
    by (cases "chan_send ch ()") (auto simp: NotifyAsr_def NotifyAsr_send_def asr_busy_def Let_def)
qed (simp add: NotifyAsr_def NotifyAsr_send_def asr_busy_def Let_def)

text \<open>Only the worker puts anything into a notifier.\<close>

lemma InsertEr_tokens:
  assumes "InsertEr c i r = Done d u"
  shows "er_ready d j \<longleftrightarrow> er_ready c j \<or> j = i \<and> mhas (erNotifiers c) i" "asr_busy d j = asr_busy c j"
  using assms
  by (auto simp: InsertEr_def NotifyEr_def er_ready_def asr_busy_def mhas_def gomap_simps Let_def
      split: option.splits outcome.splits if_splits dest!: chan_send_queue)

lemma NotifyAsr_tokens:
  assumes "NotifyAsr c i = Done d u"
  shows "asr_busy d j \<longrightarrow> asr_busy c j \<or> j = i" "er_ready d j = er_ready c j"
  using assms
  by (auto simp: NotifyAsr_def NotifyAsr_send_def er_ready_def asr_busy_def gomap_simps Let_def
      split: option.splits outcome.splits if_splits)

lemma wait_tokens:
  "WaitForEr_enter c i = (d, w) \<Longrightarrow> (er_ready d j = er_ready c j) \<and> (asr_busy d j = asr_busy c j)"
  "WaitForEr_recv c i = Done d r \<Longrightarrow> (er_ready d j \<longrightarrow> er_ready c j) \<and> (asr_busy d j = asr_busy c j)"
  "WaitForAsr_enter c i = (d, w) \<Longrightarrow> (er_ready d j = er_ready c j) \<and> (asr_busy d j = asr_busy c j)"
  "WaitForAsr_recv c i = Done d u \<Longrightarrow> (er_ready d j = er_ready c j) \<and> (asr_busy d j \<longrightarrow> asr_busy c j)"
  "WaitForAsr_finish c i = (d, r) \<Longrightarrow> (er_ready d j = er_ready c j) \<and> (asr_busy d j = asr_busy c j)"
  by (auto simp: board_defs er_ready_def asr_busy_def mhas_def gomap_simps chan_simps
      split: option.splits prod.splits if_splits dest!: chan_recv_queue)

lemma InsertEr_er:
  assumes "InsertEr c i r = Done d u"
  shows "mhas (erBuffer d) j \<longleftrightarrow> j = i \<or> mhas (erBuffer c) j" "mhas (erNotifiers d) j = mhas (erNotifiers c) j"
  using assms
  by (auto simp: InsertEr_def NotifyEr_def gomap_simps Let_def mhas_def split: option.splits outcome.splits if_splits)

lemma NotifyAsr_er:
  assumes "NotifyAsr c i = Done d u"
  shows "erBuffer d = erBuffer c" "erNotifiers d = erNotifiers c"
  using assms
  by (auto simp: NotifyAsr_def NotifyAsr_send_def Let_def split: option.splits outcome.splits)

lemma asr_busy_runs: "asr_busy c i \<longleftrightarrow> (\<exists>d. WaitForAsr_recv c i = Done d ())"
  by (auto simp: asr_busy_def WaitForAsr_recv_def chan_recv_def split: option.splits list.splits)

lemma InsertEr_asr:
  assumes "InsertEr c i r = Done d u"
  shows "asrBuffer d = asrBuffer c" "asrNotifiers d = asrNotifiers c"
  using assms
  by (auto simp: InsertEr_def NotifyEr_def Let_def split: option.splits outcome.splits)

lemma NotifyAsr_asr:
  assumes "NotifyAsr c i = Done d u"
  shows "mhas (asrBuffer d) j \<longleftrightarrow> j = i \<or> mhas (asrBuffer c) j" "mhas (asrNotifiers d) j = mhas (asrNotifiers c) j"
    and "asr_busy d j \<longleftrightarrow> asr_busy c j \<or> j = i \<and> mhas (asrNotifiers c) i"
  using assms
  by (auto simp: NotifyAsr_def NotifyAsr_send_def asr_busy_def mhas_def gomap_simps Let_def
      split: option.splits outcome.splits if_splits dest!: chan_send_queue)

lemma InsertEr_delivers:
  assumes "board_inv c" "\<not> er_ready c i"
  shows "\<exists>d. InsertEr c i r = Done d () \<and> mu d = None \<and> mget (erBuffer d) i = Some r \<and>
    (mhas (erNotifiers c) i \<longrightarrow> (\<exists>d'. WaitForEr_recv d i = Done d' r))"
proof (cases "mget (erNotifiers c) i")
  case None
  then show ?thesis by (simp add: InsertEr_def NotifyEr_def mhas_def gomap_simps Let_def)
next
  case (Some ch)
  with assms have ch: "ccap ch = 1" "chan_ok ch" "cbuf ch = []" by (auto simp: board_inv_def er_ready_def)
  with chan_full_iff [OF ch(1,2), of r] obtain ch' where "chan_send ch r = Some ch'" by auto
  with Some ch(3) chan_send_queue [OF this] show ?thesis
    by (auto simp: InsertEr_def NotifyEr_def WaitForEr_recv_def chan_recv_def gomap_simps Let_def split: list.splits)
qed

lemma NotifyAsr_delivers:
  assumes "board_inv c" "\<not> asr_busy c i"
  shows "\<exists>d. NotifyAsr c i = Done d () \<and> mu d = None \<and> erBuffer d = erBuffer c \<and>
    (mhas (asrNotifiers c) i \<longrightarrow> (\<exists>d'. WaitForAsr_recv d i = Done d' () \<and> mu d' = None \<and> erBuffer d' = erBuffer c))"
proof (cases "mget (asrNotifiers c) i")
  case None
  then show ?thesis by (simp add: NotifyAsr_def NotifyAsr_send_def mhas_def gomap_simps Let_def)
next
  case (Some ch)
  with assms have ch: "ccap ch = 1" "chan_ok ch" "cbuf ch = []" by (auto simp: board_inv_def asr_busy_def)
  with chan_full_iff [OF ch(1,2), of "()"] obtain ch' where "chan_send ch () = Some ch'" by auto
  with Some ch(3) chan_send_queue [OF this] show ?thesis
    by (auto simp: NotifyAsr_def NotifyAsr_send_def WaitForAsr_recv_def chan_recv_def gomap_simps Let_def split: list.splits)
qed

text \<open>A board that knows nothing of an identifier.\<close>

definition forgotten :: "CommandBoard \<Rightarrow> ProposeId \<Rightarrow> bool" where
  "forgotten c i \<longleftrightarrow> mget (erBuffer c) i = None \<and> \<not> er_ready c i \<and> \<not> asr_busy c i \<and>
     (\<forall>r. mu c \<noteq> Some (SendingEr i r))"

lemma forgotten_by_sync:
  assumes "board_step c (AsrReturned i r) d \<or> board_step c (AsrFinished i r) d" "\<not> er_ready d i" "\<not> asr_busy d i"
  shows "forgotten d i"
  using assms
  by (auto simp: forgotten_def board_step_simps WaitForAsr_enter_def WaitForAsr_finish_def WaitForAsr_clear_def gomap_simps
      split: option.splits if_splits)

lemma no_result_stays:
  assumes "board_step c e d" "mget (erBuffer c) i = None" "\<not> inserts i e" shows "mget (erBuffer d) i = None"
  using assms
  by (cases rule: board_step.cases)
    (auto simp: board_defs inserts_def gomap_simps Let_def split: option.splits outcome.splits if_splits prod.splits)

lemma no_send_stays:
  assumes "board_step c e d" "\<forall>r. mu c \<noteq> Some (SendingEr i r)" "\<not> inserts i e" shows "\<forall>r. mu d \<noteq> Some (SendingEr i r)"
  using assms
  by (cases rule: board_step.cases)
    (auto simp: board_defs inserts_def Let_def split: option.splits outcome.splits if_splits prod.splits)

lemma not_ready_stays:
  assumes "board_step c e d" "\<not> er_ready c i" "\<forall>r. mu c \<noteq> Some (SendingEr i r)" "\<not> inserts i e" shows "\<not> er_ready d i"
  using assms
  by (cases rule: board_step.cases)
    (auto simp: board_defs er_ready_def inserts_def gomap_simps mhas_def chan_simps Let_def
      split: option.splits outcome.splits if_splits prod.splits dest!: chan_recv_queue)

lemma not_busy_stays:
  assumes "board_step c e d" "\<not> asr_busy c i" "\<not> notifies i e" shows "\<not> asr_busy d i"
  using assms
  by (cases rule: board_step.cases)
    (auto simp: board_defs asr_busy_def notifies_def gomap_simps mhas_def chan_simps Let_def
      split: option.splits outcome.splits if_splits prod.splits dest!: chan_recv_queue)

lemma forgotten_step:
  assumes "board_step c e d" "forgotten c i" "\<not> inserts i e" "\<not> notifies i e" shows "forgotten d i"
  using assms no_result_stays no_send_stays not_ready_stays not_busy_stays unfolding forgotten_def by blast

lemma forgotten_along:
  "run board_step c ls d \<Longrightarrow> \<forall>e\<in>set ls. \<not> inserts i e \<and> \<not> notifies i e \<Longrightarrow> forgotten c i \<Longrightarrow> forgotten d i"
  by (induction rule: run.induct) (auto intro: forgotten_step)

lemma forgotten_parks:
  "forgotten c i \<Longrightarrow> (\<exists>v. WaitForEr c i = Parked v) \<and> (\<exists>v. WaitForAsr c i = Parked v)"
  by (auto simp: forgotten_def er_ready_def asr_busy_def board_defs mhas_def gomap_simps make_chan_def chan_recv_def
      split: option.splits)

text \<open>The order the code counts on: the result is in the buffer when the commit is announced.\<close>

lemma asr_synced_return:
  "mget (erBuffer c) i = Some r \<Longrightarrow> mhas (asrBuffer c) i \<Longrightarrow>
   WaitForAsr c i = Done (WaitForAsr_clear c i) r"
  by (auto simp: WaitForAsr_def WaitForAsr_enter_def mhas_def)

lemma asr_synced_wakeup:
  assumes "mget (erBuffer c) i = Some r" "\<not> mhas (asrBuffer c) i" "\<not> mhas (asrNotifiers c) i"
    and "WaitForAsr_enter c i = (c1, w)"
  shows "w = None \<and> (\<exists>c2 c3 c4. NotifyAsr c1 i = Done c2 () \<and> WaitForAsr_recv c2 i = Done c3 () \<and>
           WaitForAsr_finish c3 i = (c4, r))"
  using assms
  by (auto simp: WaitForAsr_enter_def NotifyAsr_def NotifyAsr_send_def WaitForAsr_recv_def
      WaitForAsr_finish_def gomap_simps mhas_def make_chan_def chan_send_def chan_recv_def Let_def
      split: option.splits)

lemma board_reach_run: "reach (\<lambda>c. c = NewBoard) board_step c \<Longrightarrow> \<exists>ls. run board_step NewBoard ls c"
  by (induction rule: reach.induct) (auto intro: run.intros run_snoc)

section \<open>Properties of the board\<close>

text \<open>A board on which one result was inserted.\<close>

definition demo_board :: CommandBoard where
  "demo_board = NewBoard\<lparr>erBuffer := [(\<lparr>ClientId = 1, SeqId = 1\<rparr>, ''v'')]\<rparr>"

text \<open>
  C18: what the board hands to a waiter of an identifier, in every interleaving of the worker with any
  number of waiters, is a result that the worker inserted for that identifier before, and never the
  result of another command; or it is \<open>NOT FOUND IN BUFFER\<close>, which only \<open>WaitForAsr\<close> returns,
  after it was woken, and only when the board holds no result for the identifier at that moment.
\<close>

theorem board_delivers_inserted:
  assumes "run board_step NewBoard ls c" "board_step c e d" "delivers e i r"
  shows "InsertedEr i r \<in> set ls \<or> InsertErParked i r \<in> set ls \<or>
         e = AsrFinished i r \<and> r = ''NOT FOUND IN BUFFER'' \<and> mget (erBuffer c) i = None"
proof -
  have "results_from (\<Union> (offers ` set ls)) c"
    using results_from_run [OF assms(1) results_from_new] by simp
  from delivered_from_step [OF assms(2) this assms(3)] show ?thesis
  proof
    assume "(i, r) \<in> \<Union> (offers ` set ls)"
    then obtain l where "l \<in> set ls" "(i, r) \<in> offers l" by auto
    moreover from this(2) have "l = InsertedEr i r \<or> l = InsertErParked i r" by (cases l) simp_all
    ultimately show ?thesis by auto
  qed simp
qed

theorem board_delivers_inserted_witness:
  "InsertedEr \<lparr>ClientId = 1, SeqId = 1\<rparr> ''v'' \<in> set [InsertedEr \<lparr>ClientId = 1, SeqId = 1\<rparr> ''v''] \<or>
   InsertErParked \<lparr>ClientId = 1, SeqId = 1\<rparr> ''v'' \<in> set [InsertedEr \<lparr>ClientId = 1, SeqId = 1\<rparr> ''v''] \<or>
   ErReturned \<lparr>ClientId = 1, SeqId = 1\<rparr> ''v'' = AsrFinished \<lparr>ClientId = 1, SeqId = 1\<rparr> ''v'' \<and>
     ''v'' = ''NOT FOUND IN BUFFER'' \<and> mget (erBuffer demo_board) \<lparr>ClientId = 1, SeqId = 1\<rparr> = None"
proof (rule board_delivers_inserted)
  show "run board_step NewBoard [InsertedEr \<lparr>ClientId = 1, SeqId = 1\<rparr> ''v''] demo_board"
    by (rule run_cons [OF _ run_nil])
      (simp add: board_step_simps board_defs demo_board_def NewBoard_def mempty_def mget_def mset_to_def)
  show "board_step demo_board (ErReturned \<lparr>ClientId = 1, SeqId = 1\<rparr> ''v'') demo_board"
    by (simp add: board_step_simps board_defs demo_board_def NewBoard_def mget_def)
qed simp

text \<open>
  No proposal loses its wake-up. Once a goroutine has parked in \<open>WaitForEr\<close>, an
  insertion for its identifier makes its receive possible, at once or after the worker's own
  parked send, and it stays possible until some goroutine receives for that identifier.
\<close>

theorem parked_proposal_woken:
  assumes "reach (\<lambda>c. c = NewBoard) board_step c" "board_step c (ErParked i) c1"
    and "run board_step c1 ls d" "\<exists>e\<in>set ls. inserts i e" "\<forall>e\<in>set ls. \<not> receives i e"
  shows "\<exists>d' r. WaitForEr_recv d i = Done d' r"
proof -
  have "board_inv c1" using board.holds_reachable assms(1,2) board_inv_step by blast
  moreover have "mhas (erNotifiers c1) i" using assms(2)
    by (auto simp: board_step_simps WaitForEr_enter_def gomap_simps split: option.splits if_splits)
  ultimately have "er_ready d i" using assms(3-5) by (intro er_wakeup)
  then show ?thesis by (simp add: er_ready_runs)
qed

theorem parked_proposal_woken_witness:
  "\<exists>d' r. WaitForEr_recv (NewBoard\<lparr>erBuffer := [(\<lparr>ClientId = 1, SeqId = 1\<rparr>, ''v'')],
     erNotifiers := [(\<lparr>ClientId = 1, SeqId = 1\<rparr>, \<lparr>ccap = 1, cbuf = [''v'']\<rparr>)]\<rparr>) \<lparr>ClientId = 1, SeqId = 1\<rparr> = Done d' r"
proof (rule parked_proposal_woken)
  let ?i = "\<lparr>ClientId = 1, SeqId = 1\<rparr>"
  show "reach (\<lambda>c. c = NewBoard) board_step NewBoard" by (rule reach_init) simp
  show "board_step NewBoard (ErParked ?i) (NewBoard\<lparr>erNotifiers := [(?i, make_chan 1)]\<rparr>)"
    by (simp add: board_step_simps board_defs NewBoard_def mempty_def mget_def mset_to_def mhas_def)
  show "run board_step (NewBoard\<lparr>erNotifiers := [(?i, make_chan 1)]\<rparr>) [InsertedEr ?i ''v'']
     (NewBoard\<lparr>erBuffer := [(?i, ''v'')], erNotifiers := [(?i, \<lparr>ccap = 1, cbuf = [''v'']\<rparr>)]\<rparr>)"
    by (rule run_cons [OF _ run_nil])
      (simp add: board_step_simps board_defs NewBoard_def mempty_def mget_def mset_to_def make_chan_def chan_send_def)
qed (simp_all add: inserts_def receives_def)

text \<open>
  The worker parks in \<open>InsertEr\<close>, holding the board's lock, exactly when an earlier
  result of the same identifier still lies unread in its notifier; in every other case the
  insertion goes through.
\<close>

theorem insert_parks_iff_unread:
  assumes "reach (\<lambda>c. c = NewBoard) board_step c"
  shows "(\<exists>d. InsertEr c i r = Parked d) \<longleftrightarrow> er_ready c i"
  using board.holds_reachable [OF assms] by (rule InsertEr_parks_iff)

theorem insert_parks_iff_unread_witness:
  "(\<exists>d. InsertEr NewBoard \<lparr>ClientId = 1, SeqId = 1\<rparr> ''v'' = Parked d) \<longleftrightarrow> er_ready NewBoard \<lparr>ClientId = 1, SeqId = 1\<rparr>"
  by (rule insert_parks_iff_unread, rule reach_init) simp

text \<open>
  In the order the code counts on, where the fast path has put the result in the buffer
  before the commit is announced, a synchronisation request ends with that result: at once
  when the commit was already announced, otherwise after the announcement wakes it.
\<close>

theorem wait_synced_after_result:
  assumes "mget (erBuffer c) i = Some r"
  shows "(mhas (asrBuffer c) i \<longrightarrow> WaitForAsr c i = Done (WaitForAsr_clear c i) r) \<and>
         (\<not> mhas (asrBuffer c) i \<and> \<not> mhas (asrNotifiers c) i \<longrightarrow>
           (\<exists>c1 c2 c3 c4. WaitForAsr_enter c i = (c1, None) \<and> NotifyAsr c1 i = Done c2 () \<and>
              WaitForAsr_recv c2 i = Done c3 () \<and> WaitForAsr_finish c3 i = (c4, r)))"
  using asr_synced_return [OF assms] asr_synced_wakeup [OF assms]
  by (cases "WaitForAsr_enter c i") auto

theorem wait_synced_after_result_witness:
  "\<exists>c1 c2 c3 c4. WaitForAsr_enter demo_board \<lparr>ClientId = 1, SeqId = 1\<rparr> = (c1, None) \<and>
     NotifyAsr c1 \<lparr>ClientId = 1, SeqId = 1\<rparr> = Done c2 () \<and>
     WaitForAsr_recv c2 \<lparr>ClientId = 1, SeqId = 1\<rparr> = Done c3 () \<and>
     WaitForAsr_finish c3 \<lparr>ClientId = 1, SeqId = 1\<rparr> = (c4, ''v'')"
proof -
  let ?i = "\<lparr>ClientId = 1, SeqId = 1\<rparr>"
  have "mget (erBuffer demo_board) ?i = Some ''v''" "\<not> mhas (asrBuffer demo_board) ?i"
      "\<not> mhas (asrNotifiers demo_board) ?i"
    by (simp_all add: demo_board_def NewBoard_def mget_def mhas_def mempty_def)
  with wait_synced_after_result [OF this(1)] show ?thesis by simp
qed

text \<open>
  C35: in the other order the wake-up is lost. Take any board whose lock is free, on which
  the commit of an identifier has been announced, its result is not there yet, and no announcement
  lies unread in its notifier. A synchronisation request for the identifier that arrives now parks,
  and however the board is used afterwards, the insertion of the result included, it stays parked
  until the commit of this identifier is announced a second time.
\<close>

theorem wait_synced_lost_wakeup:
  assumes "mu c = None" "mhas (asrBuffer c) i" "\<not> mhas (erBuffer c) i" "\<not> asr_busy c i"
  shows "\<exists>c1. board_step c (AsrParked i) c1 \<and>
           (\<forall>ls d. run board_step c1 ls d \<and> (\<forall>e\<in>set ls. \<not> notifies i e) \<longrightarrow> WaitForAsr_recv d i = Parked d)"
proof -
  from assms(3) have "mget (erBuffer c) i = None" by (simp add: mhas_def)
  from asr_enter_idle [OF this assms(4)] obtain c1 where "WaitForAsr_enter c i = (c1, None)" "asr_idle c1 i" by blast
  moreover from this assms(1) have "board_step c (AsrParked i) c1" by (simp add: board_step_simps)
  ultimately show ?thesis using asr_idle_along asr_idle_parks by blast
qed

theorem wait_synced_lost_wakeup_witness:
  "\<exists>c1. board_step (NewBoard\<lparr>asrBuffer := [(\<lparr>ClientId = 1, SeqId = 1\<rparr>, ())]\<rparr>) (AsrParked \<lparr>ClientId = 1, SeqId = 1\<rparr>) c1 \<and>
     (\<exists>d. board_step c1 (InsertedEr \<lparr>ClientId = 1, SeqId = 1\<rparr> ''v'') d \<and> WaitForAsr_recv d \<lparr>ClientId = 1, SeqId = 1\<rparr> = Parked d)"
proof -
  let ?i = "\<lparr>ClientId = 1, SeqId = 1\<rparr>"
  let ?c = "NewBoard\<lparr>asrBuffer := [(?i, ())]\<rparr>"
  have "\<exists>c1. board_step ?c (AsrParked ?i) c1 \<and>
      (\<forall>ls d. run board_step c1 ls d \<and> (\<forall>e\<in>set ls. \<not> notifies ?i e) \<longrightarrow> WaitForAsr_recv d ?i = Parked d)"
    by (rule wait_synced_lost_wakeup) (simp_all add: NewBoard_def mempty_def mhas_def mget_def asr_busy_def)
  then obtain c1 where c1: "board_step ?c (AsrParked ?i) c1"
      "\<And>ls d. run board_step c1 ls d \<Longrightarrow> \<forall>e\<in>set ls. \<not> notifies ?i e \<Longrightarrow> WaitForAsr_recv d ?i = Parked d" by blast
  moreover from c1(1) obtain d where "board_step c1 (InsertedEr ?i ''v'') d"
    by (auto simp: board_step_simps board_defs NewBoard_def mempty_def mhas_def mget_def mset_to_def split: if_splits)
  moreover from this have "run board_step c1 [InsertedEr ?i ''v''] d" by (blast intro: run.intros)
  ultimately show ?thesis by (fastforce simp: notifies_def)
qed

text \<open>
  C37: a synchronisation request that has been answered takes the result with it. After it has returned
  for an identifier, with nothing unread in the identifier's notifiers, every later \<open>WaitForEr\<close> and
  \<open>WaitForAsr\<close> for that identifier parks, however the board was used in between, as long as no result
  was inserted and no commit announced for the identifier again: a proposal whose goroutine had not
  looked at the board yet, or a client that repeats its request, waits for ever.
\<close>

theorem answered_sync_forgets:
  assumes "board_step c (AsrReturned i r) d \<or> board_step c (AsrFinished i r) d" "\<not> er_ready d i" "\<not> asr_busy d i"
    and "run board_step d ls u" "\<forall>e\<in>set ls. \<not> inserts i e \<and> \<not> notifies i e"
  shows "(\<exists>v. WaitForEr u i = Parked v) \<and> (\<exists>v. WaitForAsr u i = Parked v)"
proof -
  have "forgotten d i" using assms(1-3) forgotten_by_sync by blast
  with assms(4,5) have "forgotten u i" by (rule forgotten_along)
  then show ?thesis by (rule forgotten_parks)
qed

theorem answered_sync_forgets_witness:
  "(\<exists>v. WaitForEr NewBoard \<lparr>ClientId = 1, SeqId = 1\<rparr> = Parked v) \<and> (\<exists>v. WaitForAsr NewBoard \<lparr>ClientId = 1, SeqId = 1\<rparr> = Parked v)"
proof -
  let ?i = "\<lparr>ClientId = 1, SeqId = 1\<rparr>"
  have "board_step (demo_board\<lparr>asrBuffer := [(?i, ())]\<rparr>) (AsrReturned ?i ''v'') NewBoard"
    by (simp add: board_step_simps board_defs demo_board_def NewBoard_def mempty_def mget_def mdelete_def)
  from answered_sync_forgets [OF disjI1 [OF this], of "[]" NewBoard] show ?thesis
    by (simp add: er_ready_def asr_busy_def NewBoard_def mempty_def mget_def run_nil)
qed

end
