(* ===== verification/State_Machine.thy ===== *)
theory State_Machine
  imports Gob Command_Order Witness Board
begin

text \<open>
  The replica of \<open>curp/state.go\<close>: the speculative fast path, the committed slow path and
  the RPC handlers. The operations of the source are the functions of the first sections;
  the last section puts the goroutines of one process together as a labelled step, where
  a label names the goroutine that runs and the step is one section between two points
  at which that goroutine can be descheduled with an observable difference.
\<close>

section \<open>State\<close>

datatype StateType = StateFollower | StateCandidate | StateLeader | StatePreCandidate

definition stmap :: "string list" where
  "stmap = [''StateFollower'', ''StateCandidate'', ''StateLeader'', ''StatePreCandidate'']"

record 'kv StateMachine =
  NodeId :: int
  sm_KVStore :: 'kv
  commandBoard :: CommandBoard
  raftState :: StateType
  fastPath :: "CurpClientCommand chan"
  slowPath :: "CurpClientCommand chan"
  commandSet :: "(ProposeId, unit) gomap"
  witness :: Witness

text \<open>
  Snapshots. The snapshotter is library code: its \<open>Load\<close> is the pair it returns. The two
  functions that would move the store in and out of a snapshot are commented out in the
  source and do nothing.
\<close>

definition ErrNoSnapshot :: error where
  "ErrNoSnapshot = LibError ''snap: no available snapshot''"

definition loadSnapshot :: "(string option \<times> err) option \<Rightarrow> string option \<times> err" where
  "loadSnapshot snapshotter =
     (case snapshotter of
        None \<Rightarrow> (None, nil)
      | Some (snapshot, e) \<Rightarrow>
          if e = Some ErrNoSnapshot then (None, nil)
          else if e \<noteq> nil then (None, e)
          else (snapshot, nil))"

definition getSnapshot :: "('kv, 'a) StateMachine_scheme \<Rightarrow> string option \<times> err" where
  "getSnapshot s = (None, nil)"

definition recoverFromSnapshot ::
  "('kv, 'a) StateMachine_scheme \<Rightarrow> string \<Rightarrow> ('kv, 'a) StateMachine_scheme \<times> err" where
  "recoverFromSnapshot s snapshot = (s, nil)"

text \<open>
  Loading the snapshot, as the constructors and the commit reader do it; \<open>None\<close> is the
  \<open>log.Panic\<close>.
\<close>

definition reloadSnapshot ::
  "('kv, 'a) StateMachine_scheme \<Rightarrow> (string option \<times> err) option \<Rightarrow> ('kv, 'a) StateMachine_scheme option" where
  "reloadSnapshot s snapshotter =
     (case loadSnapshot snapshotter of
        (_, Some e) \<Rightarrow> None
      | (None, None) \<Rightarrow> Some s
      | (Some snapshot, None) \<Rightarrow>
          (case recoverFromSnapshot s snapshot of (s', e) \<Rightarrow> if e \<noteq> nil then None else Some s'))"

definition initial_state :: "int \<Rightarrow> 'kv \<Rightarrow> 'kv StateMachine" where
  "initial_state nodeId kv =
     \<lparr>NodeId = nodeId, sm_KVStore = kv, commandBoard = NewBoard, raftState = StateFollower,
      fastPath = make_chan 1000, slowPath = make_chan 1000, commandSet = mempty,
      witness = NewWitness\<rparr>"

definition newGrpcState :: "int \<Rightarrow> (string option \<times> err) option \<Rightarrow> MemStore StateMachine option" where
  "newGrpcState nodeId snapshotter =
     (case NewMemStore of (kv, _) \<Rightarrow> reloadSnapshot (initial_state nodeId kv) snapshotter)"

section \<open>Executing commands\<close>

definition executeSync ::
  "'kv KVStore \<Rightarrow> ('kv, 'a) StateMachine_scheme \<Rightarrow> CurpClientCommand \<Rightarrow>
   ('kv, 'a) StateMachine_scheme \<times> string" where
  "executeSync K s cmd =
     (if Op cmd = PUT then
        (case kv_Put K (sm_KVStore s) (Key cmd) (Value cmd) of (kv, _) \<Rightarrow> (s\<lparr>sm_KVStore := kv\<rparr>, []))
      else if Op cmd = DELETE then
        (case kv_Delete K (sm_KVStore s) (Key cmd) of (kv, _) \<Rightarrow> (s\<lparr>sm_KVStore := kv\<rparr>, []))
      else if Op cmd = GET then
        (case kv_Get K (sm_KVStore s) (Key cmd) of (result, e) \<Rightarrow>
           if e \<noteq> nil then (s, ''NOT FOUND IN STATE'') else (s, result))
      else (s, []))"

definition executeAsync ::
  "'kv KVStore \<Rightarrow> ('kv, 'a) StateMachine_scheme \<Rightarrow> CurpClientCommand \<Rightarrow>
   ('kv, 'a) StateMachine_scheme \<times> string" where
  "executeAsync K s cmd =
     (if Op cmd = PUT then
        (case kv_Put K (sm_KVStore s) (Key cmd) (Value cmd) of (kv, _) \<Rightarrow> (s\<lparr>sm_KVStore := kv\<rparr>, []))
      else if Op cmd = DELETE then
        (case kv_Delete K (sm_KVStore s) (Key cmd) of (kv, _) \<Rightarrow> (s\<lparr>sm_KVStore := kv\<rparr>, []))
      else if Op cmd = GET then
        (case kv_Get K (sm_KVStore s) (Key cmd) of (result, _) \<Rightarrow> (s, result))
      else (s, []))"

definition removeRecord ::
  "('kv, 'a) StateMachine_scheme \<Rightarrow> CurpClientCommand \<Rightarrow> ('kv, 'a) StateMachine_scheme" where
  "removeRecord s cmd =
     s\<lparr>witness := Remove (witness s) (pid cmd), commandSet := mdelete (pid cmd) (commandSet s)\<rparr>"

section \<open>RPC handlers\<close>

definition StateMachine_IsLeader :: "('kv, 'a) StateMachine_scheme \<Rightarrow> bool" where
  "StateMachine_IsLeader s = (raftState s = StateLeader)"

definition grpc_IsLeader :: "('kv, 'a) StateMachine_scheme \<Rightarrow> LeaderReply" where
  "grpc_IsLeader s =
     (if StateMachine_IsLeader s then \<lparr>IsLeaderFlag = 1\<rparr> else \<lparr>IsLeaderFlag = 0\<rparr>)"

text \<open>
  \<open>Propose\<close> is cut in three. The witness is consulted first, under its own lock. The
  section under the replica's lock then crashes on an operation code outside \<open>OpFmt\<close>
  (the trace call's arguments are evaluated even when tracing is off), answers at once on
  a replica that is not the leader, and otherwise starts the goroutines that feed the fast
  path and the raft node. Last, the leader waits for the result on the board.
\<close>

datatype dispatch = Crash | Answer CurpReply | Forward CurpClientCommand "string option"

definition Propose_witness ::
  "('kv, 'a) StateMachine_scheme \<Rightarrow> CurpClientCommand \<Rightarrow> ('kv, 'a) StateMachine_scheme \<times> bool" where
  "Propose_witness s cmd =
     (case InsertIfNotConflict (witness s) cmd of (w, isConflict) \<Rightarrow> (s\<lparr>witness := w\<rparr>, isConflict))"

definition Propose_locked ::
  "int \<Rightarrow> ('kv, 'a) StateMachine_scheme \<Rightarrow> CurpClientCommand \<Rightarrow> bool \<Rightarrow> dispatch" where
  "Propose_locked tid s cmd isConflict =
     (case OpFmt_at (Op cmd) of
        None \<Rightarrow> Crash
      | Some _ \<Rightarrow>
          if raftState s \<noteq> StateLeader then
            if isConflict then Answer \<lparr>Content = [], StatusCode = CONFLICT, ReplySeqId = 0\<rparr>
            else Answer \<lparr>Content = [], StatusCode = ACCEPTED, ReplySeqId = 0\<rparr>
          else
            let buf = CurpClientCommand_Encode tid cmd in
            Forward cmd (if raftState s = StateLeader then Some buf else None))"

definition Propose_reply :: "string \<Rightarrow> bool \<Rightarrow> CurpReply" where
  "Propose_reply result isConflict =
     (let reply = \<lparr>Content = result, StatusCode = 0, ReplySeqId = 0\<rparr> in
      if isConflict then reply\<lparr>StatusCode := CONFLICT\<rparr> else reply\<lparr>StatusCode := ACCEPTED\<rparr>)"

definition WaitSynced_reply :: "string \<Rightarrow> CurpReply" where
  "WaitSynced_reply result = \<lparr>Content = result, StatusCode = ACCEPTED, ReplySeqId = 0\<rparr>"

definition listenRaftState ::
  "('kv, 'a) StateMachine_scheme \<Rightarrow> StateType \<Rightarrow> ('kv, 'a) StateMachine_scheme" where
  "listenRaftState s state = s\<lparr>raftState := state\<rparr>"

section \<open>Goroutines of one replica\<close>

datatype goroutine =
    ProposeCalled CurpClientCommand
  | ProposeChecked CurpClientCommand bool
  | ProposeWaits CurpClientCommand bool
  | ProposeReceives CurpClientCommand bool
  | FollowerReplied CurpClientCommand CurpReply
  | LeaderReplied CurpClientCommand CurpReply
  | SendsFast CurpClientCommand
  | SendsProposal string
  | SyncCalled ProposeId
  | SyncReceives ProposeId
  | SyncFinishes ProposeId
  | SyncReplied ProposeId CurpReply

text \<open>Where the worker of \<open>cmd_worker\<close> stands between two turns of its loop.\<close>

datatype worker_pc =
    Selects
  | InsertsEr CurpClientCommand string
  | SendsEr CurpClientCommand string
  | NotifiesAsr CurpClientCommand
  | SendsAsr CurpClientCommand
  | RemovesRecord CurpClientCommand

text \<open>
  The replica with its goroutines. \<open>reading\<close> is the commit \<open>readCommits\<close> is working on.
  The last three fields are history: every command executed, in order; the answers of the
  fast path with the position of their command in that order; and the committed commands
  the worker took from the slow path.
\<close>

record 'kv node = "'kv StateMachine" +
  goroutines :: "goroutine list"
  worker :: worker_pc
  proposeC :: "string chan"
  reading :: "string list option"
  crashed :: bool
  executed :: "CurpClientCommand list"
  answers :: "(CurpClientCommand \<times> nat \<times> string) list"
  consumed :: "CurpClientCommand list"

definition new_node :: "int \<Rightarrow> 'kv \<Rightarrow> 'kv node" where
  "new_node nodeId kv =
     StateMachine.extend (initial_state nodeId kv)
       \<lparr>goroutines = [], worker = Selects, proposeC = make_chan 1, reading = None, crashed = False,
        executed = [], answers = [], consumed = []\<rparr>"

text \<open>
  One turn of a goroutine: \<open>None\<close> when it is parked (or has returned), otherwise the new
  state and the goroutines that stand in its place.
\<close>

fun goroutine_step :: "int \<Rightarrow> 'kv node \<Rightarrow> goroutine \<Rightarrow> ('kv node \<times> goroutine list) option" where
  "goroutine_step tid s (ProposeCalled cmd) =
     (case Propose_witness s cmd of (s', isConflict) \<Rightarrow> Some (s', [ProposeChecked cmd isConflict]))"
| "goroutine_step tid s (ProposeChecked cmd isConflict) =
     (case Propose_locked tid s cmd isConflict of
        Crash \<Rightarrow> Some (s\<lparr>crashed := True\<rparr>, [])
      | Answer reply \<Rightarrow> Some (s, [FollowerReplied cmd reply])
      | Forward c None \<Rightarrow> Some (s, [ProposeWaits cmd isConflict, SendsFast c])
      | Forward c (Some buf) \<Rightarrow> Some (s, [ProposeWaits cmd isConflict, SendsFast c, SendsProposal buf]))"
| "goroutine_step tid s (ProposeWaits cmd isConflict) =
     (if mu (commandBoard s) \<noteq> None then None
      else case WaitForEr_enter (commandBoard s) (pid cmd) of
        (b, Some result) \<Rightarrow>
          Some (s\<lparr>commandBoard := b\<rparr>, [LeaderReplied cmd (Propose_reply result isConflict)])
      | (b, None) \<Rightarrow> Some (s\<lparr>commandBoard := b\<rparr>, [ProposeReceives cmd isConflict]))"
| "goroutine_step tid s (ProposeReceives cmd isConflict) =
     (case WaitForEr_recv (commandBoard s) (pid cmd) of
        Parked _ \<Rightarrow> None
      | Done b result \<Rightarrow>
          Some (s\<lparr>commandBoard := b\<rparr>, [LeaderReplied cmd (Propose_reply result isConflict)]))"
| "goroutine_step tid s (SendsFast cmd) =
     (case chan_send (fastPath s) cmd of
        None \<Rightarrow> None
      | Some ch \<Rightarrow> Some (s\<lparr>fastPath := ch\<rparr>, []))"
| "goroutine_step tid s (SendsProposal buf) =
     (case chan_send (proposeC s) buf of
        None \<Rightarrow> None
      | Some ch \<Rightarrow> Some (s\<lparr>proposeC := ch\<rparr>, []))"
| "goroutine_step tid s (SyncCalled i) =
     (if mu (commandBoard s) \<noteq> None then None
      else case WaitForAsr_enter (commandBoard s) i of
        (b, Some result) \<Rightarrow> Some (s\<lparr>commandBoard := b\<rparr>, [SyncReplied i (WaitSynced_reply result)])
      | (b, None) \<Rightarrow> Some (s\<lparr>commandBoard := b\<rparr>, [SyncReceives i]))"
| "goroutine_step tid s (SyncReceives i) =
     (case WaitForAsr_recv (commandBoard s) i of
        Parked _ \<Rightarrow> None
      | Done b _ \<Rightarrow> Some (s\<lparr>commandBoard := b\<rparr>, [SyncFinishes i]))"
| "goroutine_step tid s (SyncFinishes i) =
     (if mu (commandBoard s) \<noteq> None then None
      else case WaitForAsr_finish (commandBoard s) i of
        (b, result) \<Rightarrow> Some (s\<lparr>commandBoard := b\<rparr>, [SyncReplied i (WaitSynced_reply result)]))"
| "goroutine_step tid s (FollowerReplied cmd reply) = None"
| "goroutine_step tid s (LeaderReplied cmd reply) = None"
| "goroutine_step tid s (SyncReplied i reply) = None"

text \<open>The two cases of the worker's \<open>select\<close>, up to the point where the board is called.\<close>

definition worker_fast :: "'kv KVStore \<Rightarrow> 'kv node \<Rightarrow> 'kv node option" where
  "worker_fast K s =
     (if worker s \<noteq> Selects then None
      else case chan_recv (fastPath s) of
        None \<Rightarrow> None
      | Some (cmd, ch) \<Rightarrow>
          let s1 = s\<lparr>fastPath := ch\<rparr> in
          if mhas (commandSet s1) (pid cmd) then Some s1
          else
            let s2 = s1\<lparr>commandSet := mset_to (pid cmd) () (commandSet s1)\<rparr> in
            case executeSync K s2 cmd of (s3, result) \<Rightarrow>
              Some (s3\<lparr>worker := InsertsEr cmd result, executed := executed s3 @ [cmd],
                       answers := answers s3 @ [(cmd, length (executed s3), result)]\<rparr>))"

definition worker_slow :: "'kv KVStore \<Rightarrow> 'kv node \<Rightarrow> 'kv node option" where
  "worker_slow K s =
     (if worker s \<noteq> Selects then None
      else case chan_recv (slowPath s) of
        None \<Rightarrow> None
      | Some (cmd, ch) \<Rightarrow>
          let isLeader = (raftState s = StateLeader);
              s1 = s\<lparr>slowPath := ch, consumed := consumed s @ [cmd]\<rparr> in
          if mhas (commandSet s1) (pid cmd) \<and> isLeader
          then Some (s1\<lparr>worker := NotifiesAsr cmd\<rparr>)
          else
            let s2 = s1\<lparr>commandSet := mset_to (pid cmd) () (commandSet s1)\<rparr> in
            case executeAsync K s2 cmd of (s3, _) \<Rightarrow>
              Some (s3\<lparr>worker := NotifiesAsr cmd, executed := executed s3 @ [cmd]\<rparr>))"

text \<open>The rest of a turn: the calls on the board and the removal of the record.\<close>

definition worker_continue :: "'kv node \<Rightarrow> 'kv node option" where
  "worker_continue s =
     (case worker s of
        Selects \<Rightarrow> None
      | InsertsEr cmd result \<Rightarrow>
          if mu (commandBoard s) \<noteq> None then None
          else (case InsertEr (commandBoard s) (pid cmd) result of
                  Done b _ \<Rightarrow> Some (s\<lparr>commandBoard := b, worker := Selects\<rparr>)
                | Parked b \<Rightarrow> Some (s\<lparr>commandBoard := b, worker := SendsEr cmd result\<rparr>))
      | SendsEr cmd result \<Rightarrow>
          (case NotifyEr (commandBoard s) (pid cmd) result of
             Done b _ \<Rightarrow> Some (s\<lparr>commandBoard := b\<lparr>mu := None\<rparr>, worker := Selects\<rparr>)
           | Parked b \<Rightarrow> None)
      | NotifiesAsr cmd \<Rightarrow>
          if mu (commandBoard s) \<noteq> None then None
          else (case NotifyAsr (commandBoard s) (pid cmd) of
                  Done b _ \<Rightarrow> Some (s\<lparr>commandBoard := b, worker := RemovesRecord cmd\<rparr>)
                | Parked b \<Rightarrow> Some (s\<lparr>commandBoard := b, worker := SendsAsr cmd\<rparr>))
      | SendsAsr cmd \<Rightarrow>
          (case NotifyAsr_send (commandBoard s) (pid cmd) of
             Done b _ \<Rightarrow> Some (s\<lparr>commandBoard := b\<lparr>mu := None\<rparr>, worker := RemovesRecord cmd\<rparr>)
           | Parked b \<Rightarrow> None)
      | RemovesRecord cmd \<Rightarrow> Some (removeRecord (s\<lparr>worker := Selects\<rparr>) cmd))"

text \<open>
  \<open>readCommits\<close>: a commit is taken from the channel when the previous one is done; its
  entries are decoded and pushed one by one; an entry that does not decode ends the
  process. A \<open>nil\<close> commit reloads the snapshot.
\<close>

definition readCommits_take :: "'kv node \<Rightarrow> string list \<Rightarrow> 'kv node option" where
  "readCommits_take s data =
     (case reading s of None \<Rightarrow> Some (s\<lparr>reading := Some data\<rparr>) | Some _ \<Rightarrow> None)"

definition readCommits_reload ::
  "'kv node \<Rightarrow> (string option \<times> err) option \<Rightarrow> 'kv node option" where
  "readCommits_reload s snapshotter =
     (case reading s of
        Some _ \<Rightarrow> None
      | None \<Rightarrow> (case reloadSnapshot s snapshotter of
                  None \<Rightarrow> Some (s\<lparr>crashed := True\<rparr>) | Some s' \<Rightarrow> Some s'))"

definition readCommits_push :: "'kv node \<Rightarrow> 'kv node option" where
  "readCommits_push s =
     (case reading s of
        None \<Rightarrow> None
      | Some [] \<Rightarrow> Some (s\<lparr>reading := None\<rparr>)
      | Some (data # rest) \<Rightarrow>
          (case DecodeClientCommand data of
             None \<Rightarrow> Some (s\<lparr>crashed := True\<rparr>)
           | Some cmd \<Rightarrow>
               (case chan_send (slowPath s) cmd of
                  None \<Rightarrow> None
                | Some ch \<Rightarrow> Some (s\<lparr>slowPath := ch, reading := Some rest\<rparr>))))"

text \<open>
  The end of the loop: raft has closed the channel of commits, and the error it may have sent ends
  the process.
\<close>

definition readCommits_closed :: "'kv node \<Rightarrow> err \<Rightarrow> 'kv node option" where
  "readCommits_closed s errorC =
     (case reading s of
        Some _ \<Rightarrow> None
      | None \<Rightarrow> (case errorC of None \<Rightarrow> Some s | Some e \<Rightarrow> Some (s\<lparr>crashed := True\<rparr>)))"

section \<open>Steps\<close>

datatype node_event =
    CallPropose CurpClientCommand | CallSync ProposeId | Sched nat
  | WorkerFast | WorkerSlow | WorkerContinue
  | StateChange StateType
  | Commit "string list" | CommitNil "(string option \<times> err) option" | PushCommit | CommitsClosed err
  | TakeProposal string

definition replace_at :: "nat \<Rightarrow> 'a list \<Rightarrow> 'a list \<Rightarrow> 'a list" where
  "replace_at n ys xs = take n xs @ ys @ drop (Suc n) xs"

text \<open>
  The gRPC handlers of \<open>curp/state_grpc.go\<close>: each call runs the method of the state machine in a
  goroutine of its own.
\<close>

definition grpc_Propose :: "CurpClientCommand \<Rightarrow> goroutine" where
  "grpc_Propose cmd = ProposeCalled cmd"

text \<open>\<open>Lookup\<close> is \<open>Propose\<close> under another name.\<close>

definition StateMachine_Lookup :: "CurpClientCommand \<Rightarrow> goroutine" where
  "StateMachine_Lookup cmd = ProposeCalled cmd"

definition grpc_WaitSynced :: "ProposeId \<Rightarrow> goroutine" where
  "grpc_WaitSynced i = SyncCalled \<lparr>ClientId = ClientId i, SeqId = SeqId i\<rparr>"

lemma grpc_handlers [simp]: "grpc_Propose cmd = ProposeCalled cmd" "grpc_WaitSynced i = SyncCalled i"
  by (simp_all add: grpc_Propose_def grpc_WaitSynced_def)

fun node_perform :: "'kv KVStore \<Rightarrow> int \<Rightarrow> 'kv node \<Rightarrow> node_event \<Rightarrow> 'kv node option" where
  "node_perform K tid s (CallPropose cmd) = Some (s\<lparr>goroutines := goroutines s @ [grpc_Propose cmd]\<rparr>)"
| "node_perform K tid s (CallSync i) = Some (s\<lparr>goroutines := goroutines s @ [grpc_WaitSynced i]\<rparr>)"
| "node_perform K tid s (Sched n) =
     (if length (goroutines s) \<le> n then None
      else case goroutine_step tid s (goroutines s ! n) of
        None \<Rightarrow> None
      | Some (s', gs) \<Rightarrow> Some (s'\<lparr>goroutines := replace_at n gs (goroutines s)\<rparr>))"
| "node_perform K tid s WorkerFast = worker_fast K s"
| "node_perform K tid s WorkerSlow = worker_slow K s"
| "node_perform K tid s WorkerContinue = worker_continue s"
| "node_perform K tid s (StateChange st) = Some (listenRaftState s st)"
| "node_perform K tid s (Commit data) = readCommits_take s data"
| "node_perform K tid s (CommitNil snapshotter) = readCommits_reload s snapshotter"
| "node_perform K tid s PushCommit = readCommits_push s"
| "node_perform K tid s (CommitsClosed errorC) = readCommits_closed s errorC"
| "node_perform K tid s (TakeProposal buf) =
     (case chan_recv (proposeC s) of
        None \<Rightarrow> None
      | Some (x, ch) \<Rightarrow> if x = buf then Some (s\<lparr>proposeC := ch\<rparr>) else None)"

definition node_step :: "'kv KVStore \<Rightarrow> int \<Rightarrow> 'kv node \<Rightarrow> node_event \<Rightarrow> 'kv node \<Rightarrow> bool" where
  "node_step K tid s e t \<longleftrightarrow> \<not> crashed s \<and> node_perform K tid s e = Some t"

fun node_performs :: "'kv KVStore \<Rightarrow> int \<Rightarrow> 'kv node \<Rightarrow> node_event list \<Rightarrow> 'kv node option" where
  "node_performs K tid s [] = Some s"
| "node_performs K tid s (e # es) =
     (if crashed s then None
      else case node_perform K tid s e of None \<Rightarrow> None | Some t \<Rightarrow> node_performs K tid t es)"

lemma node_performs_cons:
  "node_performs K tid s (e # es) = Some t \<longleftrightarrow>
   (\<exists>u. node_step K tid s e u \<and> node_performs K tid u es = Some t)"
  by (auto simp: node_step_def split: option.splits)

lemma node_performs_run: "node_performs K tid s es = Some t \<longleftrightarrow> run (node_step K tid) s es t"
proof (induction es arbitrary: s)
  case Nil
  have "run (node_step K tid) s [] t \<longleftrightarrow> s = t" by (metis run_nilE run_nil)
  then show ?case by simp
next
  case (Cons e es)
  have "run (node_step K tid) s (e # es) t \<longleftrightarrow>
        (\<exists>u. node_step K tid s e u \<and> run (node_step K tid) u es t)"
    by (metis run_consE run_cons)
  with Cons.IH show ?case by (simp only: node_performs_cons)
qed

abbreviation starts :: "'kv \<Rightarrow> 'kv node \<Rightarrow> bool" where
  "starts kv s \<equiv> \<exists>n. s = new_node n kv"

end
