(* ===== verification/Replica.thy ===== *)
theory Replica
  imports State_Machine
begin

text \<open>
  What one replica guarantees whatever the schedule of its goroutines: its store is the
  sequence of commands it executed, a leader's answer is the result of executing the
  command at one position of that sequence, the witness never holds two conflicting
  commands, and a replica that is not the leader executes exactly the committed log.
\<close>

section \<open>Executing against the storage contract\<close>

context reliable_kv
begin

lemma executeSync_spec:
  assumes "ok (sm_KVStore s)" "executeSync K s c = (t, r)"
  shows "\<exists>kv. t = s\<lparr>sm_KVStore := kv\<rparr> \<and> ok kv \<and> view kv = apply_cmd c (view (sm_KVStore s))"
    and "r = result_of c (view (sm_KVStore s))"
proof -
  have get: "kv_Get K (sm_KVStore s) k = (v, e) \<Longrightarrow>
      (if e \<noteq> nil then ''NOT FOUND IN STATE'' else v) =
      (case view (sm_KVStore s) k of Some v \<Rightarrow> v | None \<Rightarrow> ''NOT FOUND IN STATE'')" for k v e
    using get_hit [OF assms(1), of k] get_miss [OF assms(1), of k]
    by (cases "view (sm_KVStore s) k") auto
  show "\<exists>kv. t = s\<lparr>sm_KVStore := kv\<rparr> \<and> ok kv \<and> view kv = apply_cmd c (view (sm_KVStore s))"
    using assms put_nil [OF assms(1), of "Key c" "Value c"] delete_nil [OF assms(1), of "Key c"]
    by (intro exI [of _ "sm_KVStore t"])
      (auto simp: executeSync_def apply_cmd_def split: prod.splits if_splits dest: put_law delete_law)
  show "r = result_of c (view (sm_KVStore s))"
    using assms(2) get [of "Key c"]
    by (auto simp: executeSync_def result_of_def split: prod.splits if_splits)
qed

lemma executeAsync_spec:
  assumes "ok (sm_KVStore s)" "executeAsync K s c = (t, r)"
  shows "\<exists>kv. t = s\<lparr>sm_KVStore := kv\<rparr> \<and> ok kv \<and> view kv = apply_cmd c (view (sm_KVStore s))"
  using assms put_nil [OF assms(1), of "Key c" "Value c"] delete_nil [OF assms(1), of "Key c"]
  by (intro exI [of _ "sm_KVStore t"])
    (auto simp: executeAsync_def apply_cmd_def split: prod.splits if_splits dest: put_law delete_law)

end

section \<open>What each step touches\<close>

lemma goroutine_step_frame:
  assumes "goroutine_step tid s g = Some (t, gs)"
  shows "sm_KVStore t = sm_KVStore s" "executed t = executed s" "answers t = answers s"
    "consumed t = consumed s" "worker t = worker s" "commandSet t = commandSet s"
    "raftState t = raftState s" "slowPath t = slowPath s" "reading t = reading s"
  using assms
  by (cases g; auto simp: Propose_witness_def split: prod.splits option.splits dispatch.splits
      outcome.splits if_splits)+

lemma worker_continue_frame:
  assumes "worker_continue s = Some t"
  shows "sm_KVStore t = sm_KVStore s" "executed t = executed s" "answers t = answers s"
    "consumed t = consumed s" "goroutines t = goroutines s" "fastPath t = fastPath s"
    "slowPath t = slowPath s" "raftState t = raftState s" "reading t = reading s" "proposeC t = proposeC s"
  using assms
  by (auto simp: worker_continue_def removeRecord_def split: worker_pc.splits outcome.splits if_splits)

lemma readCommits_frame:
  assumes "readCommits_take s d = Some t \<or> readCommits_reload s l = Some t \<or> readCommits_push s = Some t \<or>
    readCommits_closed s c = Some t"
  shows "sm_KVStore t = sm_KVStore s" "executed t = executed s" "answers t = answers s"
    "consumed t = consumed s" "goroutines t = goroutines s" "worker t = worker s"
    "commandBoard t = commandBoard s" "witness t = witness s" "fastPath t = fastPath s"
    "raftState t = raftState s" "commandSet t = commandSet s" "proposeC t = proposeC s"
  using assms
  by (auto simp: readCommits_take_def readCommits_reload_def readCommits_push_def readCommits_closed_def
      reloadSnapshot_def recoverFromSnapshot_def split: option.splits list.splits prod.splits if_splits)

lemmas readCommits_frames =
  readCommits_frame [OF disjI1] readCommits_frame [OF disjI2 [OF disjI1]]
  readCommits_frame [OF disjI2 [OF disjI2 [OF disjI1]]] readCommits_frame [OF disjI2 [OF disjI2 [OF disjI2]]]

lemma exec_frame:
  assumes "node_step K tid s e t" "e \<noteq> WorkerFast" "e \<noteq> WorkerSlow"
  shows "sm_KVStore t = sm_KVStore s \<and> executed t = executed s \<and> answers t = answers s \<and>
         consumed t = consumed s"
  using assms
  by (cases e)
    (auto simp: node_step_def listenRaftState_def worker_continue_frame readCommits_frames
      goroutine_step_frame split: option.splits prod.splits if_splits)

lemma worker_fast_cases:
  assumes "worker_fast K s = Some t"
  obtains (skipped) cmd ch where "worker s = Selects" "chan_recv (fastPath s) = Some (cmd, ch)"
      "mhas (commandSet s) (pid cmd)" "t = s\<lparr>fastPath := ch\<rparr>"
  | (run) cmd ch s2 s3 r where "worker s = Selects" "chan_recv (fastPath s) = Some (cmd, ch)"
      "\<not> mhas (commandSet s) (pid cmd)"
      "s2 = s\<lparr>fastPath := ch, commandSet := mset_to (pid cmd) () (commandSet s)\<rparr>"
      "executeSync K s2 cmd = (s3, r)"
      "t = s3\<lparr>worker := InsertsEr cmd r, executed := executed s3 @ [cmd],
             answers := answers s3 @ [(cmd, length (executed s3), r)]\<rparr>"
  using assms by (auto simp: worker_fast_def Let_def split: option.splits prod.splits if_splits)

lemma worker_slow_cases:
  assumes "worker_slow K s = Some t"
  obtains (skipped) cmd ch where "worker s = Selects" "chan_recv (slowPath s) = Some (cmd, ch)"
      "mhas (commandSet s) (pid cmd)" "raftState s = StateLeader"
      "t = s\<lparr>slowPath := ch, consumed := consumed s @ [cmd], worker := NotifiesAsr cmd\<rparr>"
  | (run) cmd ch s2 s3 r where "worker s = Selects" "chan_recv (slowPath s) = Some (cmd, ch)"
      "\<not> (mhas (commandSet s) (pid cmd) \<and> raftState s = StateLeader)"
      "s2 = s\<lparr>slowPath := ch, consumed := consumed s @ [cmd],
             commandSet := mset_to (pid cmd) () (commandSet s)\<rparr>"
      "executeAsync K s2 cmd = (s3, r)"
      "t = s3\<lparr>worker := NotifiesAsr cmd, executed := executed s3 @ [cmd]\<rparr>"
  using assms by (auto simp: worker_slow_def Let_def split: option.splits prod.splits if_splits)

lemma execute_frame:
  assumes "executeSync K s c = (t, r) \<or> executeAsync K s c = (t, r)"
  shows "\<exists>kv. t = s\<lparr>sm_KVStore := kv\<rparr>"
  using assms
  by (intro exI [of _ "sm_KVStore t"])
    (auto simp: executeSync_def executeAsync_def split: prod.splits if_splits)

section \<open>The store is the executed sequence\<close>

context reliable_kv
begin

definition store_inv :: "'a node \<Rightarrow> bool" where
  "store_inv s \<longleftrightarrow> ok (sm_KVStore s) \<and> view (sm_KVStore s) = apply_all (executed s) Map.empty"

definition answers_inv :: "'a node \<Rightarrow> bool" where
  "answers_inv s \<longleftrightarrow> (\<forall>(c, n, r)\<in>set (answers s).
     n < length (executed s) \<and> executed s ! n = c \<and>
     r = result_of c (apply_all (take n (executed s)) Map.empty))"

lemma store_answers_fast:
  assumes "worker_fast K s = Some t" "store_inv s" "answers_inv s"
  shows "store_inv t \<and> answers_inv t"
  using assms(1)
proof (cases rule: worker_fast_cases)
  case skipped
  with assms(2,3) show ?thesis by (simp add: store_inv_def answers_inv_def)
next
  case (run cmd ch s2 s3 r)
  from run(4) assms(2) have s2: "ok (sm_KVStore s2)" "view (sm_KVStore s2) = apply_all (executed s) Map.empty"
    by (simp_all add: store_inv_def)
  from executeSync_spec [OF s2(1) run(5)] s2(2) obtain kv where kv: "s3 = s2\<lparr>sm_KVStore := kv\<rparr>" "ok kv"
      "view kv = apply_cmd cmd (apply_all (executed s) Map.empty)"
      "r = result_of cmd (apply_all (executed s) Map.empty)"
    by auto
  with run(4,6) have t: "executed t = executed s @ [cmd]" "sm_KVStore t = kv"
      "answers t = answers s @ [(cmd, length (executed s), r)]"
    by simp_all
  with kv have "store_inv t" by (simp add: store_inv_def)
  moreover have "answers_inv t"
    using assms(3) kv(4) t by (fastforce simp: answers_inv_def nth_append)
  ultimately show ?thesis ..
qed

lemma store_answers_slow:
  assumes "worker_slow K s = Some t" "store_inv s" "answers_inv s"
  shows "store_inv t \<and> answers_inv t"
  using assms(1)
proof (cases rule: worker_slow_cases)
  case skipped
  with assms(2,3) show ?thesis by (simp add: store_inv_def answers_inv_def)
next
  case (run cmd ch s2 s3 r)
  from run(4) assms(2) have s2: "ok (sm_KVStore s2)" "view (sm_KVStore s2) = apply_all (executed s) Map.empty"
    by (simp_all add: store_inv_def)
  from executeAsync_spec [OF s2(1) run(5)] s2(2) obtain kv where kv: "s3 = s2\<lparr>sm_KVStore := kv\<rparr>" "ok kv"
      "view kv = apply_cmd cmd (apply_all (executed s) Map.empty)"
    by auto
  with run(4,6) have t: "executed t = executed s @ [cmd]" "sm_KVStore t = kv" "answers t = answers s"
    by simp_all
  with kv have "store_inv t" by (simp add: store_inv_def)
  moreover have "answers_inv t"
    using assms(3) t by (fastforce simp: answers_inv_def nth_append)
  ultimately show ?thesis ..
qed

lemma store_answers_step:
  assumes "node_step K tid s e t" "store_inv s" "answers_inv s"
  shows "store_inv t \<and> answers_inv t"
proof (cases "e = WorkerFast \<or> e = WorkerSlow")
  case True
  with assms show ?thesis
    using store_answers_fast store_answers_slow by (auto simp: node_step_def)
next
  case False
  with exec_frame [OF assms(1)] assms(2,3) show ?thesis
    by (simp add: store_inv_def answers_inv_def)
qed

end

section \<open>The board inside the replica\<close>

text \<open>
  The board's lock is held across a step exactly when the worker is parked at a send, and
  every step of the replica is a step of the board or leaves the board alone.
\<close>

definition parked_inv :: "'kv node \<Rightarrow> bool" where
  "parked_inv s \<longleftrightarrow>
     mu (commandBoard s) = (case worker s of
        SendsEr cmd r \<Rightarrow> Some (SendingEr (pid cmd) r)
      | SendsAsr cmd \<Rightarrow> Some (SendingAsr (pid cmd))
      | _ \<Rightarrow> None)"

definition pending_answer :: "'kv node \<Rightarrow> (ProposeId \<times> string) set" where
  "pending_answer s = (case worker s of InsertsEr cmd r \<Rightarrow> {(pid cmd, r)} | _ \<Rightarrow> {})"

definition board_moves :: "'kv node \<Rightarrow> 'kv node \<Rightarrow> bool" where
  "board_moves s t \<longleftrightarrow>
     commandBoard t = commandBoard s \<or>
     (\<exists>e. board_step (commandBoard s) e (commandBoard t) \<and> offers e \<subseteq> pending_answer s)"

lemma board_moves_same: "commandBoard t = commandBoard s \<Longrightarrow> board_moves s t"
  by (simp add: board_moves_def)

lemma wait_keeps_mu:
  "WaitForEr_enter c i = (d, w) \<Longrightarrow> mu d = mu c"
  "WaitForEr_recv c i = Done d r \<Longrightarrow> mu d = mu c"
  "WaitForAsr_enter c i = (d, w) \<Longrightarrow> mu d = mu c"
  "WaitForAsr_recv c i = Done d u \<Longrightarrow> mu d = mu c"
  "WaitForAsr_finish c i = (d, r) \<Longrightarrow> mu d = mu c"
  by (auto simp: board_defs split: option.splits prod.splits if_splits)

lemma notify_mu:
  "InsertEr c i r = Done d u \<Longrightarrow> mu d = None"
  "InsertEr c i r = Parked d \<Longrightarrow> mu d = Some (SendingEr i r)"
  "NotifyAsr c i = Done d u \<Longrightarrow> mu d = None"
  "NotifyAsr c i = Parked d \<Longrightarrow> mu d = Some (SendingAsr i)"
  by (auto simp: board_defs Let_def split: option.splits outcome.splits)

lemma goroutine_board:
  assumes "goroutine_step tid s g = Some (t, gs)"
  shows "board_moves s t \<and> mu (commandBoard t) = mu (commandBoard s)"
proof (cases g)
  case (ProposeWaits cmd cf)
  with assms obtain w where mu: "mu (commandBoard s) = None"
    and w: "WaitForEr_enter (commandBoard s) (pid cmd) = (commandBoard t, w)"
    by (auto split: prod.splits option.splits if_splits)
  with board_step.wait_er_return [OF mu] board_step.wait_er_park [OF mu] show ?thesis
    by (cases w) (fastforce simp: board_moves_def wait_keeps_mu)+
next
  case (ProposeReceives cmd cf)
  with assms obtain r where "WaitForEr_recv (commandBoard s) (pid cmd) = Done (commandBoard t) r"
    by (auto split: outcome.splits)
  with board_step.wait_er_recv show ?thesis by (fastforce simp: board_moves_def wait_keeps_mu)
next
  case (SyncCalled i)
  with assms obtain w where mu: "mu (commandBoard s) = None"
    and w: "WaitForAsr_enter (commandBoard s) i = (commandBoard t, w)"
    by (auto split: prod.splits option.splits if_splits)
  with board_step.wait_asr_return [OF mu] board_step.wait_asr_park [OF mu] show ?thesis
    by (cases w) (fastforce simp: board_moves_def wait_keeps_mu)+
next
  case (SyncReceives i)
  with assms obtain u where "WaitForAsr_recv (commandBoard s) i = Done (commandBoard t) u"
    by (auto split: outcome.splits)
  with board_step.wait_asr_recv show ?thesis by (fastforce simp: board_moves_def wait_keeps_mu)
next
  case (SyncFinishes i)
  with assms obtain r where mu: "mu (commandBoard s) = None"
    and w: "WaitForAsr_finish (commandBoard s) i = (commandBoard t, r)"
    by (auto split: prod.splits if_splits)
  with board_step.wait_asr_finish [OF mu w] show ?thesis
    by (fastforce simp: board_moves_def wait_keeps_mu)
qed (use assms in \<open>auto simp: Propose_witness_def intro: board_moves_same
    split: prod.splits dispatch.splits option.splits\<close>)

lemma worker_continue_board:
  assumes "worker_continue s = Some t" "parked_inv s"
  shows "board_moves s t \<and> parked_inv t"
proof (cases "worker s")
  case (InsertsEr cmd r)
  with assms have mu: "mu (commandBoard s) = None" by (simp add: parked_inv_def)
  show ?thesis
  proof (cases "InsertEr (commandBoard s) (pid cmd) r")
    case (Done b u)
    with assms InsertsEr mu have t: "t = s\<lparr>commandBoard := b, worker := Selects\<rparr>"
      by (simp add: worker_continue_def)
    from Done have "InsertEr (commandBoard s) (pid cmd) r = Done b ()" by simp
    with board_step.insert_er [OF mu this] t InsertsEr notify_mu(1) [OF Done] show ?thesis
      by (fastforce simp: board_moves_def pending_answer_def parked_inv_def)
  next
    case (Parked b)
    with assms InsertsEr mu have t: "t = s\<lparr>commandBoard := b, worker := SendsEr cmd r\<rparr>"
      by (simp add: worker_continue_def)
    with board_step.insert_er_park [OF mu Parked] InsertsEr notify_mu(2) [OF Parked] show ?thesis
      by (fastforce simp: board_moves_def pending_answer_def parked_inv_def)
  qed
next
  case (SendsEr cmd r)
  with assms obtain b where t: "NotifyEr (commandBoard s) (pid cmd) r = Done b ()"
      "t = s\<lparr>commandBoard := b\<lparr>mu := None\<rparr>, worker := Selects\<rparr>"
    by (auto simp: worker_continue_def split: outcome.splits)
  from SendsEr assms have "mu (commandBoard s) = Some (SendingEr (pid cmd) r)" by (simp add: parked_inv_def)
  from board_step.insert_er_resume [OF this t(1)] t(2) show ?thesis
    by (fastforce simp: board_moves_def parked_inv_def)
next
  case (NotifiesAsr cmd)
  with assms have mu: "mu (commandBoard s) = None" by (simp add: parked_inv_def)
  show ?thesis
  proof (cases "NotifyAsr (commandBoard s) (pid cmd)")
    case (Done b u)
    with assms NotifiesAsr mu have t: "t = s\<lparr>commandBoard := b, worker := RemovesRecord cmd\<rparr>"
      by (simp add: worker_continue_def)
    from Done have "NotifyAsr (commandBoard s) (pid cmd) = Done b ()" by simp
    with board_step.notify_asr [OF mu this] t notify_mu(3) [OF Done] show ?thesis
      by (fastforce simp: board_moves_def parked_inv_def)
  next
    case (Parked b)
    with assms NotifiesAsr mu have t: "t = s\<lparr>commandBoard := b, worker := SendsAsr cmd\<rparr>"
      by (simp add: worker_continue_def)
    with board_step.notify_asr_park [OF mu Parked] notify_mu(4) [OF Parked] show ?thesis
      by (fastforce simp: board_moves_def parked_inv_def)
  qed
next
  case (SendsAsr cmd)
  with assms obtain b where t: "NotifyAsr_send (commandBoard s) (pid cmd) = Done b ()"
      "t = s\<lparr>commandBoard := b\<lparr>mu := None\<rparr>, worker := RemovesRecord cmd\<rparr>"
    by (auto simp: worker_continue_def split: outcome.splits)
  from SendsAsr assms have "mu (commandBoard s) = Some (SendingAsr (pid cmd))" by (simp add: parked_inv_def)
  from board_step.notify_asr_resume [OF this t(1)] t(2) show ?thesis
    by (fastforce simp: board_moves_def parked_inv_def)
qed (use assms in \<open>auto simp: worker_continue_def removeRecord_def parked_inv_def board_moves_def\<close>)

lemma worker_select_board:
  assumes "worker_fast K s = Some t \<or> worker_slow K s = Some t" "parked_inv s"
  shows "commandBoard t = commandBoard s \<and> parked_inv t"
  using assms
  by (auto simp: parked_inv_def elim!: worker_fast_cases worker_slow_cases
      dest!: execute_frame [OF disjI1] execute_frame [OF disjI2])

lemma node_board:
  assumes "node_step K tid s e t" "parked_inv s"
  shows "board_moves s t \<and> parked_inv t"
proof (cases e)
  case (Sched n)
  with assms(1) obtain u gs where u: "goroutine_step tid s (goroutines s ! n) = Some (u, gs)"
      "t = u\<lparr>goroutines := replace_at n gs (goroutines s)\<rparr>"
    by (auto simp: node_step_def split: option.splits if_splits)
  with goroutine_board [OF u(1)] goroutine_step_frame(5) [OF u(1)] assms(2) show ?thesis
    by (simp add: board_moves_def parked_inv_def)
next
  case WorkerFast
  with assms worker_select_board [of K s t] show ?thesis by (simp add: node_step_def board_moves_def)
next
  case WorkerSlow
  with assms worker_select_board [of K s t] show ?thesis by (simp add: node_step_def board_moves_def)
next
  case WorkerContinue
  with assms worker_continue_board [of s t] show ?thesis by (simp add: node_step_def)
qed (use assms in \<open>auto simp: node_step_def listenRaftState_def parked_inv_def board_moves_def
    readCommits_frames split: option.splits if_splits\<close>)

section \<open>Replies\<close>

definition node_results :: "'kv node \<Rightarrow> (ProposeId \<times> string) set" where
  "node_results s = {(pid c, r) | c n r. (c, n, r) \<in> set (answers s)}"

definition reply_from :: "(ProposeId \<times> string) set \<Rightarrow> goroutine \<Rightarrow> bool" where
  "reply_from H g =
     (case g of
        LeaderReplied cmd rep \<Rightarrow> (pid cmd, Content rep) \<in> H
      | SyncReplied i rep \<Rightarrow> Content rep = ''NOT FOUND IN BUFFER'' \<or> (i, Content rep) \<in> H
      | _ \<Rightarrow> True)"

definition replies_inv :: "'kv node \<Rightarrow> bool" where
  "replies_inv s \<longleftrightarrow>
     parked_inv s \<and> results_from (node_results s) (commandBoard s) \<and>
     pending_answer s \<subseteq> node_results s \<and> (\<forall>g\<in>set (goroutines s). reply_from (node_results s) g)"

lemma results_from_mono: "results_from H c \<Longrightarrow> H \<subseteq> H' \<Longrightarrow> results_from H' c"
  unfolding results_from_def by blast

lemma reply_from_mono: "reply_from H g \<Longrightarrow> H \<subseteq> H' \<Longrightarrow> reply_from H' g"
  by (auto simp: reply_from_def split: goroutine.splits)

lemma results_from_moves:
  assumes "board_moves s t" "results_from H (commandBoard s)" "pending_answer s \<subseteq> H"
  shows "results_from H (commandBoard t)"
proof -
  from assms(1) consider "commandBoard t = commandBoard s"
    | e where "board_step (commandBoard s) e (commandBoard t)" "offers e \<subseteq> pending_answer s"
    unfolding board_moves_def by blast
  then show ?thesis
  proof cases
    case 2
    from results_from_step [OF 2(1) assms(2)] 2(2) assms(3) show ?thesis
      by (auto intro: results_from_mono)
  qed (use assms in simp)
qed

lemma results_read:
  assumes "results_from H c"
  shows "WaitForEr_enter c i = (d, Some r) \<Longrightarrow> (i, r) \<in> H"
    and "WaitForEr_recv c i = Done d r \<Longrightarrow> (i, r) \<in> H"
    and "WaitForAsr_enter c i = (d, Some r) \<Longrightarrow> (i, r) \<in> H"
    and "WaitForAsr_finish c i = (d, r) \<Longrightarrow> r = ''NOT FOUND IN BUFFER'' \<or> (i, r) \<in> H"
  using assms
  by (auto simp: board_defs results_from_def split: option.splits prod.splits if_splits
      dest!: chan_recv_queue)

lemma reply_contents [simp]:
  "Content (Propose_reply r cf) = r" "Content (WaitSynced_reply r) = r"
  by (simp_all add: Propose_reply_def WaitSynced_reply_def Let_def)

lemma goroutine_replies:
  assumes "goroutine_step tid s g = Some (t, gs)" "results_from H (commandBoard s)" "h \<in> set gs"
  shows "reply_from H h"
  using assms results_read [OF assms(2)]
  by (cases g)
    (auto simp: reply_from_def Propose_witness_def
      split: prod.splits option.splits dispatch.splits outcome.splits if_splits)

lemma node_answers_grow: "node_step K tid s e t \<Longrightarrow> node_results s \<subseteq> node_results t"
proof (cases "e = WorkerFast \<or> e = WorkerSlow")
  case True
  assume "node_step K tid s e t"
  with True have "\<exists>xs. answers t = answers s @ xs"
    by (auto simp: node_step_def elim!: worker_fast_cases worker_slow_cases
        dest!: execute_frame [OF disjI1] execute_frame [OF disjI2])
  then obtain xs where "set (answers t) = set (answers s) \<union> set xs" by auto
  then show ?thesis unfolding node_results_def by blast
next
  case False
  assume "node_step K tid s e t"
  with False exec_frame show ?thesis by (fastforce simp: node_results_def)
qed

lemma worker_frame:
  assumes "node_step K tid s e t" "e \<noteq> WorkerFast" "e \<noteq> WorkerSlow" "e \<noteq> WorkerContinue"
  shows "worker t = worker s"
  using assms
  by (cases e)
    (auto simp: node_step_def listenRaftState_def readCommits_frames goroutine_step_frame
      split: option.splits if_splits)

lemma node_pending:
  assumes "node_step K tid s e t" "pending_answer s \<subseteq> node_results s"
  shows "pending_answer t \<subseteq> node_results t"
proof -
  note grow = node_answers_grow [OF assms(1)]
  consider "worker_fast K s = Some t" | "worker_slow K s = Some t" | "worker_continue s = Some t"
    | "worker t = worker s"
    using worker_frame [OF assms(1)] assms(1) by (cases e) (auto simp: node_step_def)
  then show ?thesis
  proof cases
    case 1
    then show ?thesis
    proof (cases rule: worker_fast_cases)
      case skipped
      with assms(2) show ?thesis by (simp add: pending_answer_def node_results_def)
    next
      case (run cmd ch s2 s3 r)
      then have "pending_answer t = {(pid cmd, r)}" "(cmd, length (executed s3), r) \<in> set (answers t)"
        by (simp_all add: pending_answer_def)
      then show ?thesis unfolding node_results_def by blast
    qed
  next
    case 2
    then have "pending_answer t = {}" by (auto simp: pending_answer_def elim!: worker_slow_cases)
    then show ?thesis by simp
  next
    case 3
    then have "pending_answer t = {}"
      by (auto simp: pending_answer_def worker_continue_def removeRecord_def
          split: worker_pc.splits outcome.splits if_splits)
    then show ?thesis by simp
  next
    case 4
    with assms(2) grow show ?thesis by (simp add: pending_answer_def)
  qed
qed

lemma set_replace_at: "set (replace_at n ys xs) \<subseteq> set ys \<union> set xs"
  by (auto simp: replace_at_def dest: in_set_takeD in_set_dropD)

lemma filter_replace_at:
  assumes "n < length xs"
  shows "length (filter P (replace_at n ys xs)) + (if P (xs ! n) then 1 else 0) =
         length (filter P xs) + length (filter P ys)"
proof -
  from assms have "filter P xs = filter P (take n xs @ xs ! n # drop (Suc n) xs)"
    by (simp add: id_take_nth_drop [symmetric])
  then have "length (filter P xs) =
      length (filter P (take n xs)) + (if P (xs ! n) then 1 else 0) + length (filter P (drop (Suc n) xs))"
    by simp
  then show ?thesis by (simp add: replace_at_def)
qed

lemma sched_step:
  "node_step K tid s (Sched n) t \<longleftrightarrow>
   \<not> crashed s \<and> n < length (goroutines s) \<and>
   (\<exists>u gs. goroutine_step tid s (goroutines s ! n) = Some (u, gs) \<and>
           t = u\<lparr>goroutines := replace_at n gs (goroutines s)\<rparr>)"
  by (auto simp: node_step_def split: option.splits)

lemma in_replace_at:
  assumes "n < length xs" "x \<in> set xs" "x \<noteq> xs ! n" shows "x \<in> set (replace_at n ys xs)"
proof -
  from assms(1) have "set xs = insert (xs ! n) (set (take n xs) \<union> set (drop (Suc n) xs))"
    by (metis id_take_nth_drop list.simps(15) set_append Un_insert_right)
  with assms show ?thesis by (auto simp: replace_at_def)
qed


lemma node_goroutines_new:
  assumes "node_step K tid s e t" "g \<in> set (goroutines t)" "\<nexists>n. e = Sched n"
  shows "g \<in> set (goroutines s) \<or> (\<exists>cmd. g = ProposeCalled cmd) \<or> (\<exists>i. g = SyncCalled i)"
proof (cases e)
  case WorkerFast
  with assms show ?thesis
    by (auto simp: node_step_def elim!: worker_fast_cases dest!: execute_frame [OF disjI1])
next
  case WorkerSlow
  with assms show ?thesis
    by (auto simp: node_step_def elim!: worker_slow_cases dest!: execute_frame [OF disjI2])
qed (use assms in \<open>auto simp: node_step_def listenRaftState_def worker_continue_frame
    readCommits_frames split: option.splits if_splits\<close>)

lemma node_goroutines:
  assumes "node_step K tid s e t" "g \<in> set (goroutines t)"
  shows "g \<in> set (goroutines s) \<or> (\<exists>cmd. g = ProposeCalled cmd) \<or> (\<exists>i. g = SyncCalled i) \<or>
    (\<exists>h u gs. h \<in> set (goroutines s) \<and> goroutine_step tid s h = Some (u, gs) \<and> g \<in> set gs)"
proof (cases "\<exists>n. e = Sched n")
  case True
  then obtain n where "e = Sched n" ..
  with assms(1) obtain u gs where n: "n < length (goroutines s)"
      and u: "goroutine_step tid s (goroutines s ! n) = Some (u, gs)"
      "t = u\<lparr>goroutines := replace_at n gs (goroutines s)\<rparr>"
    by (auto simp: node_step_def split: option.splits if_splits)
  with assms(2) have "g \<in> set gs \<or> g \<in> set (goroutines s)"
    using set_replace_at [of n gs "goroutines s"] by auto
  with n u show ?thesis using nth_mem by blast
qed (use node_goroutines_new [OF assms] in blast)

lemma node_board_inv:
  "node_step K tid s e t \<Longrightarrow> parked_inv s \<Longrightarrow> board_inv (commandBoard s) \<Longrightarrow> board_inv (commandBoard t)"
  using node_board [of K tid s e t] board_inv_step by (auto simp: board_moves_def)

text \<open>A goroutine that is parked on a notifier has one to be parked on.\<close>

definition waits_ok :: "CommandBoard \<Rightarrow> goroutine \<Rightarrow> bool" where
  "waits_ok b g = (case g of
     ProposeReceives cmd _ \<Rightarrow> mhas (erNotifiers b) (pid cmd)
   | SyncReceives i \<Rightarrow> mhas (asrNotifiers b) i
   | _ \<Rightarrow> True)"

definition board_ok :: "'kv node \<Rightarrow> bool" where
  "board_ok s \<longleftrightarrow> parked_inv s \<and> board_inv (commandBoard s) \<and> (\<forall>g\<in>set (goroutines s). waits_ok (commandBoard s) g)"

lemma waits_ok_moves: "board_moves s t \<Longrightarrow> waits_ok (commandBoard s) g \<Longrightarrow> waits_ok (commandBoard t) g"
  using er_notifier_stays asr_notifier_stays
  by (auto simp: board_moves_def waits_ok_def split: goroutine.splits)

lemma goroutine_waits:
  "goroutine_step tid s g = Some (u, gs) \<Longrightarrow> h \<in> set gs \<Longrightarrow> waits_ok (commandBoard u) h"
  by (cases g)
    (auto simp: waits_ok_def WaitForEr_enter_def WaitForAsr_enter_def gomap_simps
      split: prod.splits option.splits dispatch.splits outcome.splits if_splits)

lemma board_ok_step:
  assumes "node_step K tid s e t" "board_ok s" shows "board_ok t"
proof -
  from assms(2) have s: "parked_inv s" "board_inv (commandBoard s)" "\<forall>g\<in>set (goroutines s). waits_ok (commandBoard s) g"
    by (simp_all add: board_ok_def)
  from node_board [OF assms(1) s(1)] have m: "board_moves s t" "parked_inv t" by simp_all
  have "waits_ok (commandBoard t) g" if g: "g \<in> set (goroutines t)" for g
  proof (cases "\<exists>n. e = Sched n")
    case True
    with assms(1) obtain n u gs where u: "goroutine_step tid s (goroutines s ! n) = Some (u, gs)"
        "t = u\<lparr>goroutines := replace_at n gs (goroutines s)\<rparr>"
      by (auto simp: node_step_def split: option.splits if_splits)
    with g have "g \<in> set gs \<or> g \<in> set (goroutines s)"
      using set_replace_at [of n gs "goroutines s"] by auto
    with u goroutine_waits [OF u(1)] waits_ok_moves [OF m(1)] s(3) show ?thesis by auto
  next
    case False
    with node_goroutines_new [OF assms(1)] g have "g \<in> set (goroutines s) \<or> (\<exists>cmd. g = ProposeCalled cmd) \<or> (\<exists>i. g = SyncCalled i)"
      by blast
    with s(3) waits_ok_moves [OF m(1)] show ?thesis by (auto simp: waits_ok_def)
  qed
  with m(2) node_board_inv [OF assms(1) s(1,2)] show ?thesis by (simp add: board_ok_def)
qed

lemma replies_step:
  assumes "node_step K tid s e t" "replies_inv s" shows "replies_inv t"
proof -
  from assms have s: "parked_inv s" "results_from (node_results s) (commandBoard s)"
      "pending_answer s \<subseteq> node_results s" "\<forall>g\<in>set (goroutines s). reply_from (node_results s) g"
    by (simp_all add: replies_inv_def)
  note grow = node_answers_grow [OF assms(1)]
  from node_board [OF assms(1) s(1)] have m: "board_moves s t" "parked_inv t" by simp_all
  from results_from_moves [OF m(1) s(2,3)] grow have "results_from (node_results t) (commandBoard t)"
    by (rule results_from_mono)
  moreover have "reply_from (node_results t) g" if "g \<in> set (goroutines t)" for g
  proof -
    from node_goroutines [OF assms(1) that] s(4) goroutine_replies [OF _ s(2)]
    have "reply_from (node_results s) g" by (auto simp: reply_from_def)
    then show ?thesis using grow by (rule reply_from_mono)
  qed
  ultimately show ?thesis
    using m(2) node_pending [OF assms(1) s(3)] by (simp add: replies_inv_def)
qed

section \<open>The witness inside the replica\<close>

lemma goroutine_witness:
  "goroutine_step tid s g = Some (t, gs) \<Longrightarrow>
   witness t = witness s \<or> (\<exists>c. witness t = fst (InsertIfNotConflict (witness s) c))"
  by (cases g)
    (auto simp: Propose_witness_def split: prod.splits option.splits dispatch.splits
      outcome.splits if_splits, metis fst_conv)

lemma node_witness:
  assumes "node_step K tid s e t"
  shows "witness t = witness s \<or> (\<exists>p. witness t = witness_call (witness s) p)"
proof (cases e)
  case (Sched n)
  with assms obtain u gs where "goroutine_step tid s (goroutines s ! n) = Some (u, gs)" "witness t = witness u"
    by (auto simp: node_step_def split: option.splits if_splits)
  with goroutine_witness show ?thesis by (metis witness_call.simps(1))
next
  case WorkerFast
  with assms show ?thesis
    by (auto simp: node_step_def elim!: worker_fast_cases dest!: execute_frame [OF disjI1])
next
  case WorkerSlow
  with assms show ?thesis
    by (auto simp: node_step_def elim!: worker_slow_cases dest!: execute_frame [OF disjI2])
next
  case WorkerContinue
  with assms show ?thesis
    by (auto simp: node_step_def worker_continue_def removeRecord_def
        split: worker_pc.splits outcome.splits if_splits
        intro: exI [of _ "Forget (pid c)" for c])
qed (use assms in \<open>auto simp: node_step_def listenRaftState_def readCommits_frames
    split: option.splits if_splits\<close>)

definition witness_inv :: "'kv node \<Rightarrow> bool" where
  "witness_inv s \<longleftrightarrow> witness_ok (witness s) \<and> compatible (recorded_cmds (witness s))"

lemma witness_call_inv:
  assumes "witness_ok w" "compatible (recorded_cmds w)"
  shows "witness_ok (witness_call w p) \<and> compatible (recorded_cmds (witness_call w p))"
proof -
  have "witness_call w p = wit.run_op w p" by (cases p) simp_all
  with assms show ?thesis by (simp add: wit.run_op_ok wit.run_op_compatible)
qed

lemma witness_step: "node_step K tid s e t \<Longrightarrow> witness_inv s \<Longrightarrow> witness_inv t"
  unfolding witness_inv_def using node_witness witness_call_inv by metis

section \<open>The committed log\<close>

text \<open>
  Everything a replica has been handed by raft and not lost: the commands the worker took,
  those waiting in the slow path, and the entries of the commit being read.
\<close>

definition pipeline :: "'kv node \<Rightarrow> CurpClientCommand option list" where
  "pipeline s = map Some (consumed s @ cbuf (slowPath s)) @
     map DecodeClientCommand (case reading s of None \<Rightarrow> [] | Some ds \<Rightarrow> ds)"

fun commit_data :: "node_event list \<Rightarrow> string list" where
  "commit_data [] = []"
| "commit_data (Commit ds # es) = ds @ commit_data es"
| "commit_data (_ # es) = commit_data es"

lemma pipeline_step:
  assumes "node_step K tid s e t"
  shows "pipeline t = pipeline s @ map DecodeClientCommand (commit_data [e])"
proof (cases e)
  case (Sched n)
  with assms show ?thesis
    by (auto simp: node_step_def pipeline_def goroutine_step_frame split: option.splits if_splits)
next
  case WorkerFast
  with assms show ?thesis
    by (auto simp: node_step_def pipeline_def elim!: worker_fast_cases dest!: execute_frame [OF disjI1])
next
  case WorkerSlow
  with assms show ?thesis
    by (auto simp: node_step_def pipeline_def elim!: worker_slow_cases
        dest!: execute_frame [OF disjI2] chan_recv_queue)
next
  case WorkerContinue
  with assms show ?thesis
    by (auto simp: node_step_def pipeline_def worker_continue_frame)
next
  case PushCommit
  with assms show ?thesis
    by (auto simp: node_step_def pipeline_def readCommits_push_def
        split: option.splits list.splits dest!: chan_send_queue)
next
  case (CommitNil l)
  with assms show ?thesis
    by (auto simp: node_step_def pipeline_def readCommits_reload_def reloadSnapshot_def
        recoverFromSnapshot_def split: option.splits prod.splits if_splits)
qed (use assms in \<open>auto simp: node_step_def pipeline_def listenRaftState_def readCommits_take_def readCommits_closed_def
    split: option.splits if_splits\<close>)

lemma commit_data_Cons: "commit_data (e # es) = commit_data [e] @ commit_data es"
  by (cases e) simp_all

lemma pipeline_run:
  "run (node_step K tid) s es t \<Longrightarrow> pipeline t = pipeline s @ map DecodeClientCommand (commit_data es)"
proof (induction rule: run.induct)
  case (run_cons s e t es u)
  then show ?case using commit_data_Cons [of e es] by (simp add: pipeline_step)
qed simp

text \<open>No committed command is dropped: what was taken from the slow path was executed.\<close>

definition executed_inv :: "'kv node \<Rightarrow> bool" where
  "executed_inv s \<longleftrightarrow>
     (\<forall>i. mhas (commandSet s) i \<longrightarrow> i \<in> pid ` set (executed s)) \<and>
     (\<forall>c\<in>set (consumed s). pid c \<in> pid ` set (executed s))"

lemma executed_step:
  assumes "node_step K tid s e t" "executed_inv s" shows "executed_inv t"
proof (cases e)
  case (Sched n)
  with assms show ?thesis
    by (auto simp: node_step_def executed_inv_def goroutine_step_frame split: option.splits if_splits)
next
  case WorkerFast
  with assms show ?thesis
    by (auto simp: node_step_def executed_inv_def gomap_simps elim!: worker_fast_cases
        dest!: execute_frame [OF disjI1])
next
  case WorkerSlow
  with assms show ?thesis
    by (auto simp: node_step_def executed_inv_def gomap_simps elim!: worker_slow_cases
        dest!: execute_frame [OF disjI2])
next
  case WorkerContinue
  with assms show ?thesis
    by (auto simp: node_step_def executed_inv_def worker_continue_def removeRecord_def gomap_simps
        split: worker_pc.splits outcome.splits if_splits)
qed (use assms in \<open>auto simp: node_step_def executed_inv_def listenRaftState_def readCommits_frames
    split: option.splits if_splits\<close>)

section \<open>A replica that never leads\<close>

definition leaderless :: "goroutine \<Rightarrow> bool" where
  "leaderless g =
     (case g of SendsFast _ \<Rightarrow> False | SendsProposal _ \<Rightarrow> False | ProposeWaits _ _ \<Rightarrow> False
      | ProposeReceives _ _ \<Rightarrow> False | LeaderReplied _ _ \<Rightarrow> False | _ \<Rightarrow> True)"

definition follower_inv :: "'kv node \<Rightarrow> bool" where
  "follower_inv s \<longleftrightarrow>
     raftState s \<noteq> StateLeader \<and> cbuf (fastPath s) = [] \<and> cbuf (proposeC s) = [] \<and>
     executed s = consumed s \<and> (\<forall>g\<in>set (goroutines s). leaderless g)"

definition follower_step :: "'kv KVStore \<Rightarrow> int \<Rightarrow> 'kv node \<Rightarrow> node_event \<Rightarrow> 'kv node \<Rightarrow> bool" where
  "follower_step K tid s e t \<longleftrightarrow> node_step K tid s e t \<and> e \<noteq> StateChange StateLeader"

lemma goroutine_follower:
  assumes "goroutine_step tid s g = Some (t, gs)" "raftState s \<noteq> StateLeader" "leaderless g"
  shows "fastPath t = fastPath s \<and> proposeC t = proposeC s \<and> (\<forall>h\<in>set gs. leaderless h)"
  using assms
  by (cases g)
    (auto simp: leaderless_def Propose_witness_def Propose_locked_def
      split: prod.splits option.splits dispatch.splits outcome.splits if_splits)

lemma follower_keeps:
  assumes "follower_step K tid s e t" "follower_inv s" shows "follower_inv t"
proof (cases e)
  case (Sched n)
  with assms(1) obtain u gs where n: "n < length (goroutines s)"
      and u: "goroutine_step tid s (goroutines s ! n) = Some (u, gs)"
      "t = u\<lparr>goroutines := replace_at n gs (goroutines s)\<rparr>"
    by (auto simp: follower_step_def node_step_def split: option.splits if_splits)
  moreover from n assms(2) have "leaderless (goroutines s ! n)" by (simp add: follower_inv_def)
  ultimately show ?thesis
    using assms(2) goroutine_follower [OF u(1)] goroutine_step_frame [OF u(1)]
      set_replace_at [of n gs "goroutines s"]
    by (fastforce simp: follower_inv_def)
next
  case WorkerFast
  with assms show ?thesis
    by (auto simp: follower_step_def node_step_def follower_inv_def elim!: worker_fast_cases
        dest!: chan_recv_queue)
next
  case WorkerSlow
  with assms show ?thesis
    by (auto simp: follower_step_def node_step_def follower_inv_def elim!: worker_slow_cases
        dest!: execute_frame [OF disjI2])
qed (use assms in \<open>auto simp: follower_step_def node_step_def follower_inv_def listenRaftState_def
    readCommits_frames worker_continue_frame leaderless_def
    split: option.splits if_splits dest!: chan_recv_queue\<close>)

lemma run_follower:
  "run (node_step K tid) s es t \<Longrightarrow> StateChange StateLeader \<notin> set es \<Longrightarrow>
   run (follower_step K tid) s es t"
  by (induction rule: run.induct) (auto intro: run.intros simp: follower_step_def)

section \<open>The replica over the in-memory store\<close>

text \<open>
  \<open>newGrpcState\<close> runs the state machine on a \<open>MemStore\<close>; the laws above hold there
  because the store meets the \<open>reliable_kv\<close> contract.
\<close>

abbreviation mem_node_step :: "int \<Rightarrow> MemStore node \<Rightarrow> node_event \<Rightarrow> MemStore node \<Rightarrow> bool" where
  "mem_node_step tid \<equiv> node_step MemStore_KVStore tid"

abbreviation mem_start :: "MemStore node \<Rightarrow> bool" where
  "mem_start \<equiv> starts (fst NewMemStore)"

lemmas new_node_defs = new_node_def initial_state_def StateMachine.defs

lemma new_node_invs:
  "mem.store_inv (new_node n (fst NewMemStore))" "mem.answers_inv (new_node n (fst NewMemStore))"
  "replies_inv (new_node n kv)" "witness_inv (new_node n kv)" "executed_inv (new_node n kv)"
  "follower_inv (new_node n kv)" "pipeline (new_node n kv) = []"
  using mem_fresh wit.fresh_ok wit.fresh_recorded results_from_new
  by (auto simp: new_node_defs mem.store_inv_def mem.answers_inv_def replies_inv_def parked_inv_def
      NewBoard_def pending_answer_def node_results_def witness_inv_def compatible_def
      executed_inv_def follower_inv_def pipeline_def gomap_simps chan_simps results_from_def)

lemma new_node_board_ok: "board_ok (new_node n kv)"
  using board_inv_new by (simp add: board_ok_def new_node_defs parked_inv_def NewBoard_def)

interpretation mem_exec: invariant_of mem_start "mem_node_step tid"
  "\<lambda>s. mem.store_inv s \<and> mem.answers_inv s" for tid
  by unfold_locales (auto simp: new_node_invs dest: mem.store_answers_step)

interpretation node_replies: invariant_of "starts kv" "node_step K tid" replies_inv for kv K tid
  by unfold_locales (auto simp: new_node_invs dest: replies_step)

interpretation node_boards: invariant_of "starts kv" "node_step K tid" board_ok for kv K tid
  by unfold_locales (auto simp: new_node_board_ok dest: board_ok_step)

interpretation node_witness: invariant_of "starts kv" "node_step K tid" witness_inv for kv K tid
  by unfold_locales (auto simp: new_node_invs dest: witness_step)

interpretation node_executed: invariant_of "starts kv" "node_step K tid" executed_inv for kv K tid
  by unfold_locales (auto simp: new_node_invs dest: executed_step)

interpretation follower: invariant_of "starts kv" "follower_step K tid" follower_inv for kv K tid
  by unfold_locales (auto simp: new_node_invs dest: follower_keeps)


text \<open>The same facts along a run from the start state.\<close>

lemma mem_run_store:
  assumes "run (mem_node_step tid) (new_node n (fst NewMemStore)) es s"
  shows "mem_view (sm_KVStore s) = apply_all (executed s) Map.empty"
proof -
  have "mem.store_inv s \<and> mem.answers_inv s"
    by (rule mem_exec.holds_along [OF assms]) (simp add: new_node_invs)
  then show ?thesis by (simp add: mem.store_inv_def)
qed

lemma follower_run_executed:
  assumes "run (node_step K tid) (new_node n kv) es s" "StateChange StateLeader \<notin> set es"
  shows "executed s = consumed s"
proof -
  have "follower_inv s"
    by (rule follower.holds_along [OF run_follower [OF assms]]) (simp add: new_node_invs)
  then show ?thesis by (simp add: follower_inv_def)
qed

lemma run_log:
  assumes "run (node_step K tid) (new_node n kv) es s"
  shows "map Some (consumed s) = take (length (consumed s)) (map DecodeClientCommand (commit_data es))"
proof -
  have "map DecodeClientCommand (commit_data es) = pipeline s"
    using pipeline_run [OF assms] by (simp add: new_node_invs(7))
  then show ?thesis by (simp add: pipeline_def)
qed

lemma leader_reply_position:
  assumes "reach mem_start (mem_node_step tid) s"
    and "LeaderReplied cmd rep \<in> set (goroutines s)"
  shows "\<exists>n < length (executed s). pid (executed s ! n) = pid cmd \<and>
           Content rep = result_of (executed s ! n) (apply_all (take n (executed s)) Map.empty)"
proof -
  from node_replies.holds_reachable [OF assms(1)] assms(2)
  have "(pid cmd, Content rep) \<in> node_results s"
    by (fastforce simp: replies_inv_def reply_from_def)
  then obtain c n where "(c, n, Content rep) \<in> set (answers s)" "pid cmd = pid c"
    by (auto simp: node_results_def)
  moreover have "mem.answers_inv s" using mem_exec.holds_reachable [OF assms(1)] by simp
  ultimately show ?thesis by (fastforce simp: mem.answers_inv_def)
qed

section \<open>Answers that reach their request\<close>

text \<open>
  A result the worker is about to insert reaches the proposal that waits for it, whether that has
  looked at the board or not.
\<close>

lemma answer_delivered:
  assumes "board_ok s" "\<not> crashed s" "worker s = InsertsEr cmd r" "\<not> er_ready (commandBoard s) (pid cmd)"
    and "n < length (goroutines s)" "goroutines s ! n \<in> {ProposeWaits cmd b, ProposeReceives cmd b}"
  shows "\<exists>t. run (node_step K tid) s [WorkerContinue, Sched n] t \<and>
    LeaderReplied cmd (Propose_reply r b) \<in> set (goroutines t) \<and> sm_KVStore t = sm_KVStore s"
proof -
  from assms(1,3) have s: "board_inv (commandBoard s)" "mu (commandBoard s) = None"
    by (simp_all add: board_ok_def parked_inv_def)
  from InsertEr_delivers [OF s(1) assms(4), of r] obtain d where d: "InsertEr (commandBoard s) (pid cmd) r = Done d ()"
      "mu d = None" "mget (erBuffer d) (pid cmd) = Some r"
      "mhas (erNotifiers (commandBoard s)) (pid cmd) \<Longrightarrow> \<exists>d'. WaitForEr_recv d (pid cmd) = Done d' r" by blast
  from assms(5,6) consider "goroutines s ! n = ProposeWaits cmd b"
    | "goroutines s ! n = ProposeReceives cmd b" "mhas (erNotifiers (commandBoard s)) (pid cmd)"
    using assms(1) nth_mem [OF assms(5)] by (fastforce simp: board_ok_def waits_ok_def)
  then show ?thesis
    unfolding node_performs_run [symmetric]
    using assms(2,3,5) s(2) d by cases (auto simp: worker_continue_def WaitForEr_enter_def replace_at_def)
qed

text \<open>A commit announced to a synchronisation request that waits, on a board without its result.\<close>

lemma sync_not_found:
  assumes "board_ok s" "\<not> crashed s" "worker s = NotifiesAsr cmd" "\<not> asr_busy (commandBoard s) (pid cmd)"
    and "\<not> mhas (erBuffer (commandBoard s)) (pid cmd)"
    and "n < length (goroutines s)" "goroutines s ! n = SyncReceives (pid cmd)"
  shows "\<exists>t. run (node_step K tid) s [WorkerContinue, Sched n, Sched n] t \<and>
    SyncReplied (pid cmd) (WaitSynced_reply ''NOT FOUND IN BUFFER'') \<in> set (goroutines t)"
proof -
  from assms(1,3) have s: "board_inv (commandBoard s)" "mu (commandBoard s) = None"
    by (simp_all add: board_ok_def parked_inv_def)
  have "mhas (asrNotifiers (commandBoard s)) (pid cmd)"
    using assms(1,7) nth_mem [OF assms(6)] by (fastforce simp: board_ok_def waits_ok_def)
  with NotifyAsr_delivers [OF s(1) assms(4)] obtain d d' where d: "NotifyAsr (commandBoard s) (pid cmd) = Done d ()" "mu d = None"
      "WaitForAsr_recv d (pid cmd) = Done d' ()" "mu d' = None" "erBuffer d' = erBuffer (commandBoard s)" by blast
  from d(5) assms(5) have "WaitForAsr_finish d' (pid cmd) = (WaitForAsr_clear d' (pid cmd), ''NOT FOUND IN BUFFER'')"
    by (simp add: WaitForAsr_finish_def mhas_def)
  with assms(2,3,6,7) s(2) d(1-4) show ?thesis
    unfolding node_performs_run [symmetric]
    by (simp add: worker_continue_def replace_at_def nth_append)
qed

lemma worker_slow_takes:
  assumes "worker s = Selects" "chan_recv (slowPath s) = Some (cmd, ch)"
  shows "\<exists>t. worker_slow K s = Some t \<and> worker t = NotifiesAsr cmd \<and> commandBoard t = commandBoard s \<and>
    goroutines t = goroutines s \<and> crashed t = crashed s"
  using assms by (auto simp: worker_slow_def executeAsync_def Let_def split: prod.splits)

lemma worker_fast_takes:
  assumes "worker s = Selects" "chan_recv (fastPath s) = Some (cmd, ch)" "\<not> mhas (commandSet s) (pid cmd)"
    and "kv_Put K (sm_KVStore s) (Key cmd) (Value cmd) = (kv, e)" "Op cmd = PUT"
  shows "\<exists>t. worker_fast K s = Some t \<and> worker t = InsertsEr cmd [] \<and> commandBoard t = commandBoard s \<and>
    goroutines t = goroutines s \<and> crashed t = crashed s \<and> sm_KVStore t = kv"
  using assms by (simp add: worker_fast_def executeSync_def Let_def)

lemma Propose_reply_fields:
  "Propose_reply r b = \<lparr>Content = r, StatusCode = if b then CONFLICT else ACCEPTED, ReplySeqId = 0\<rparr>"
  by (simp add: Propose_reply_def)

text \<open>A leader that remembers a result answers a proposal with that identifier without executing it.\<close>

lemma remembered_answer:
  assumes "board_ok s" "\<not> crashed s" "worker s = Selects" "raftState s = StateLeader" "unat (Op cmd) < 5"
    and "mget (erBuffer (commandBoard s)) (pid cmd) = Some r"
  shows "\<exists>t. run (node_step K tid) s (CallPropose cmd # replicate 3 (Sched (length (goroutines s)))) t \<and>
    LeaderReplied cmd (Propose_reply r (snd (InsertIfNotConflict (witness s) cmd))) \<in> set (goroutines t) \<and> executed t = executed s \<and> sm_KVStore t = sm_KVStore s"
proof -
  from assms(1,3) have "mu (commandBoard s) = None" by (simp add: board_ok_def parked_inv_def)
  moreover obtain x where "OpFmt_at (Op cmd) = Some x" using assms(5) by (auto simp: OpFmt_at_def OpFmt_def)
  moreover obtain w b where "InsertIfNotConflict (witness s) cmd = (w, b)" by fastforce
  ultimately show ?thesis using assms(2,4,6)
    unfolding node_performs_run [symmetric]
    by (simp add: numeral_3_eq_3 Propose_witness_def Propose_locked_def WaitForEr_enter_def replace_at_def nth_append)
qed

end
