(* ===== verification/Replica_Properties.thy ===== *)
theory Replica_Properties
  imports Replica
begin

text \<open>
  The properties of one replica, stated over the state machine of \<open>curp/state.go\<close> on the
  in-memory store, with concrete runs that reach the states they speak of.
\<close>

section \<open>A concrete run\<close>

text \<open>
  A leader takes one put, executes it on the fast path, answers the client, and then sees
  it committed.
\<close>

definition demo_put :: CurpClientCommand where
  "demo_put = \<lparr>Op = PUT, CmdClientId = 1, CmdSeqId = 1, Key = ''x'', Value = ''1'', Sync = 0\<rparr>"

definition demo_get :: CurpClientCommand where
  "demo_get = \<lparr>Op = GET, CmdClientId = 2, CmdSeqId = 1, Key = ''x'', Value = [], Sync = 0\<rparr>"

definition demo_lead :: "node_event list" where
  "demo_lead =
     [StateChange StateLeader, CallPropose demo_put, Sched 0, Sched 0, Sched 1, WorkerFast,
      WorkerContinue, Sched 0, CallPropose demo_get, Sched 2, Sched 2, Sched 3, WorkerFast,
      WorkerContinue, Sched 2]"

definition demo_leader :: "MemStore node" where
  "demo_leader = the (node_performs MemStore_KVStore 64 (new_node 1 (fst NewMemStore)) demo_lead)"

definition demo_follow :: "node_event list" where
  "demo_follow =
     [CallPropose demo_put, Sched 0, Sched 0, Commit [CurpClientCommand_Encode 64 demo_put],
      PushCommit, WorkerSlow, WorkerContinue, WorkerContinue]"

definition demo_follower :: "MemStore node" where
  "demo_follower = the (node_performs MemStore_KVStore 64 (new_node 2 (fst NewMemStore)) demo_follow)"

definition demo_follow2 :: "node_event list" where
  "demo_follow2 =
     [Commit [CurpClientCommand_Encode 64 demo_put], CallPropose demo_get, PushCommit, PushCommit,
      WorkerSlow, Sched 0]"

definition demo_follower2 :: "MemStore node" where
  "demo_follower2 = the (node_performs MemStore_KVStore 64 (new_node 3 (fst NewMemStore)) demo_follow2)"

definition demo_other :: CurpClientCommand where
  "demo_other = \<lparr>Op = PUT, CmdClientId = 1, CmdSeqId = 2, Key = ''y'', Value = ''2'', Sync = 0\<rparr>"

definition demo_recorded :: "MemStore node" where
  "demo_recorded = the (node_performs MemStore_KVStore 64 (new_node 2 (fst NewMemStore))
     [CallPropose demo_put, Sched 0, CallPropose demo_other, Sched 1])"

text \<open>
  A leader whose raft node commits a put before the goroutine that feeds the fast path has
  run, then commits a second put of the same key, and only then schedules that goroutine.
\<close>

definition demo_second :: CurpClientCommand where
  "demo_second = \<lparr>Op = PUT, CmdClientId = 2, CmdSeqId = 2, Key = ''x'', Value = ''2'', Sync = 0\<rparr>"

definition late_events :: "node_event list" where
  "late_events =
     [StateChange StateLeader, CallPropose demo_put, Sched 0, Sched 0, Sched 2,
      TakeProposal (CurpClientCommand_Encode 64 demo_put),
      Commit [CurpClientCommand_Encode 64 demo_put], PushCommit, WorkerSlow, WorkerContinue,
      WorkerContinue, PushCommit,
      CallPropose demo_second, Sched 2, Sched 2, Sched 4,
      TakeProposal (CurpClientCommand_Encode 64 demo_second),
      Commit [CurpClientCommand_Encode 64 demo_second], PushCommit, WorkerSlow, WorkerContinue,
      WorkerContinue, PushCommit, Sched 1, WorkerFast, WorkerContinue]"

text \<open>
  Two clients put the same key on a leader. The goroutines that feed the fast path run in the order
  of the calls, those that hand the commands to raft in the other order; and the same commit on a
  replica that does not lead.
\<close>

definition swapped_commit :: "string list" where
  "swapped_commit = [CurpClientCommand_Encode 64 demo_second, CurpClientCommand_Encode 64 demo_put]"

definition swap_events :: "node_event list" where
  "swap_events =
     [StateChange StateLeader, CallPropose demo_put, Sched 0, Sched 0, CallPropose demo_second, Sched 3, Sched 3,
      Sched 1, WorkerFast, WorkerContinue, Sched 3, WorkerFast, WorkerContinue, Sched 0, Sched 2,
      Sched 3, TakeProposal (CurpClientCommand_Encode 64 demo_second),
      Sched 1, TakeProposal (CurpClientCommand_Encode 64 demo_put),
      Commit swapped_commit, PushCommit, WorkerSlow, WorkerContinue, WorkerContinue,
      PushCommit, WorkerSlow, WorkerContinue, WorkerContinue, PushCommit]"

definition swap_follow :: "node_event list" where
  "swap_follow =
     [Commit swapped_commit, PushCommit, WorkerSlow, WorkerContinue, WorkerContinue,
      PushCommit, WorkerSlow, WorkerContinue, WorkerContinue, PushCommit]"

text \<open>
  A leader that is asked to synchronise a command whose commit overtook its fast path.
\<close>

definition early_sync_events :: "node_event list" where
  "early_sync_events =
     [StateChange StateLeader, CallPropose demo_put, Sched 0, Sched 0,
      CallSync (pid demo_put), Sched 3,
      Commit [CurpClientCommand_Encode 64 demo_put], PushCommit]"

text \<open>
  A leader that answers and commits a get, and then answers and commits a put of the same key.
\<close>

definition reuse_events :: "node_event list" where
  "reuse_events =
     [StateChange StateLeader, CallPropose demo_get, Sched 0, Sched 0, Sched 1, WorkerFast, WorkerContinue,
      Sched 0, Sched 1, TakeProposal (CurpClientCommand_Encode 64 demo_get),
      Commit [CurpClientCommand_Encode 64 demo_get], PushCommit, WorkerSlow, WorkerContinue, WorkerContinue, PushCommit,
      CallPropose demo_put, Sched 1, Sched 1, Sched 2, WorkerFast, WorkerContinue,
      Sched 1, Sched 2, TakeProposal (CurpClientCommand_Encode 64 demo_put),
      Commit [CurpClientCommand_Encode 64 demo_put], PushCommit, WorkerSlow, WorkerContinue, WorkerContinue, PushCommit]"

text \<open>The encoding of a command is kept symbolic here: its round trip is all a run needs.\<close>

lemma demo_decode [simp]: "DecodeClientCommand (CurpClientCommand_Encode 64 demo_put) = Some demo_put"
  by (rule DecodeClientCommand_Encode) (simp_all add: command_fits_def demo_put_def)

lemmas node_eval = new_node_defs node_performs.simps replace_at_def
  Propose_witness_def Propose_locked_def Propose_reply_def WaitSynced_reply_def listenRaftState_def
  worker_fast_def worker_slow_def worker_continue_def readCommits_take_def readCommits_push_def
  InsertIfNotConflict_def HasConflictWith_def Remove_def NewWitness_def NewBoard_def removeRecord_def
  executeSync_def executeAsync_def mem_defs NewMemStore_def mempty_def mget_def mhas_def mset_to_def
  mdelete_def make_chan_def chan_send_def chan_recv_def board_defs Let_def OpFmt_at_def OpFmt_def
  CurpClientCommand_ProposeId_def opcode_simps Conflict_def

lemma demo_fields:
  "Op demo_put = 0" "Key demo_put = ''x''" "Value demo_put = ''1''" "pid demo_put = \<lparr>ClientId = 1, SeqId = 1\<rparr>"
  "Op demo_get = 1" "Key demo_get = ''x''" "Value demo_get = []" "pid demo_get = \<lparr>ClientId = 2, SeqId = 1\<rparr>"
  "CmdClientId demo_put = 1" "CmdSeqId demo_put = 1" "CmdClientId demo_get = 2" "CmdSeqId demo_get = 1"
  by (simp_all add: demo_put_def demo_get_def CurpClientCommand_ProposeId_def opcode_simps)

lemma demo_get_decode: "DecodeClientCommand (CurpClientCommand_Encode 64 demo_get) = Some demo_get"
  by (rule DecodeClientCommand_Encode) (simp_all add: command_fits_def demo_get_def)

lemma reuse_run:
  "\<exists>s. run (mem_node_step 64) (new_node 1 (fst NewMemStore)) reuse_events s \<and>
     \<not> crashed s \<and> worker s = Selects \<and> raftState s = StateLeader \<and> consumed s = [demo_get, demo_put] \<and>
     mget (erBuffer (commandBoard s)) (pid demo_get) = Some ''NOT FOUND IN STATE'' \<and>
     \<not> snd (InsertIfNotConflict (witness s) demo_get) \<and> mem_view (sm_KVStore s) ''x'' = Some ''1''"
  unfolding node_performs_run [symmetric]
  by (simp add: node_eval reuse_events_def demo_fields demo_get_decode)

lemma demo_second_fields:
  "Op demo_second = 0" "Key demo_second = ''x''" "Value demo_second = ''2''"
  "pid demo_second = \<lparr>ClientId = 2, SeqId = 2\<rparr>" "CmdClientId demo_second = 2" "CmdSeqId demo_second = 2"
  "DecodeClientCommand (CurpClientCommand_Encode 64 demo_second) = Some demo_second"
proof -
  show "DecodeClientCommand (CurpClientCommand_Encode 64 demo_second) = Some demo_second"
    by (rule DecodeClientCommand_Encode) (simp_all add: command_fits_def demo_second_def)
qed (simp_all add: demo_second_def CurpClientCommand_ProposeId_def opcode_simps)

lemma demo_leader_ex:
  "\<exists>s. node_performs MemStore_KVStore 64 (new_node 1 (fst NewMemStore)) demo_lead = Some s \<and>
     executed s = [demo_put, demo_get] \<and>
     LeaderReplied demo_get \<lparr>Content = ''1'', StatusCode = CONFLICT, ReplySeqId = 0\<rparr> \<in> set (goroutines s)"
  by (simp add: node_eval demo_lead_def demo_put_def demo_get_def)

lemma demo_follower_ex:
  "\<exists>s. node_performs MemStore_KVStore 64 (new_node 2 (fst NewMemStore)) demo_follow = Some s \<and>
     executed s = [demo_put]"
  by (simp add: node_eval demo_follow_def) (simp add: node_eval demo_put_def)

lemma demo_leader_facts:
  "run (mem_node_step 64) (new_node 1 (fst NewMemStore)) demo_lead demo_leader"
  "executed demo_leader = [demo_put, demo_get]"
  "LeaderReplied demo_get \<lparr>Content = ''1'', StatusCode = CONFLICT, ReplySeqId = 0\<rparr>
     \<in> set (goroutines demo_leader)"
  using demo_leader_ex by (auto simp: demo_leader_def node_performs_run [symmetric])

lemma demo_follower_facts:
  "run (mem_node_step 64) (new_node 2 (fst NewMemStore)) demo_follow demo_follower"
  "executed demo_follower = [demo_put]" "StateChange StateLeader \<notin> set demo_follow"
  using demo_follower_ex
  by (auto simp: demo_follower_def node_performs_run [symmetric] demo_follow_def)

lemma demo_follower2_ex:
  "\<exists>s. node_performs MemStore_KVStore 64 (new_node 3 (fst NewMemStore)) demo_follow2 = Some s \<and>
     executed s = [demo_put]"
  by (simp add: node_eval demo_follow2_def)

lemma demo_follower2_facts:
  "run (mem_node_step 64) (new_node 3 (fst NewMemStore)) demo_follow2 demo_follower2"
  "executed demo_follower2 = [demo_put]" "StateChange StateLeader \<notin> set demo_follow2"
  using demo_follower2_ex
  by (auto simp: demo_follower2_def node_performs_run [symmetric] demo_follow2_def)

lemma demo_recorded_ex:
  "\<exists>s. node_performs MemStore_KVStore 64 (new_node 2 (fst NewMemStore))
         [CallPropose demo_put, Sched 0, CallPropose demo_other, Sched 1] = Some s \<and>
       commandMap (witness s) = [(pid demo_put, demo_put), (pid demo_other, demo_other)]"
  by (simp add: node_eval demo_put_def demo_other_def)

lemma demo_recorded_facts:
  "run (mem_node_step 64) (new_node 2 (fst NewMemStore))
     [CallPropose demo_put, Sched 0, CallPropose demo_other, Sched 1] demo_recorded"
  "commandMap (witness demo_recorded) = [(pid demo_put, demo_put), (pid demo_other, demo_other)]"
  using demo_recorded_ex by (auto simp: demo_recorded_def node_performs_run [symmetric])

lemma demo_leader_reach: "reach mem_start (mem_node_step 64) demo_leader"
  by (rule reach_run [OF demo_leader_facts(1)], rule reach_init) blast

section \<open>Properties of the replica\<close>

text \<open>
  C2: every reply a leader sends to a proposal is the result of executing a command with the
  proposal's identifier at one position of the replica's execution order, on the store that
  the commands before that position produce. This holds in every reachable state, for every
  interleaving of the RPC goroutines, the worker, the commit reader and the raft callbacks.
\<close>

theorem leader_reply_linearized:
  assumes "reach mem_start (mem_node_step tid) s"
    and "LeaderReplied cmd rep \<in> set (goroutines s)"
  shows "\<exists>n < length (executed s). pid (executed s ! n) = pid cmd \<and>
           Content rep = result_of (executed s ! n) (apply_all (take n (executed s)) Map.empty)"
  by (rule leader_reply_position [OF assms])

theorem leader_reply_linearized_witness:
  "\<exists>n < length (executed demo_leader). pid (executed demo_leader ! n) = pid demo_get \<and>
     ''1'' = result_of (executed demo_leader ! n) (apply_all (take n (executed demo_leader)) Map.empty)"
  using leader_reply_linearized [OF demo_leader_reach demo_leader_facts(3)] by simp

text \<open>
  C7: in every reachable state the replica's store is exactly what executing its commands in
  execution order produces, and every fast-path answer recorded for a command is that
  command's result at its position.
\<close>

theorem replica_store_refines:
  assumes "reach mem_start (mem_node_step tid) s"
  shows "mem_view (sm_KVStore s) = apply_all (executed s) Map.empty \<and>
         (\<forall>(c, n, r)\<in>set (answers s). n < length (executed s) \<and> executed s ! n = c \<and>
            r = result_of c (apply_all (take n (executed s)) Map.empty))"
  using mem_exec.holds_reachable [OF assms]
  by (auto simp: mem.store_inv_def mem.answers_inv_def)

theorem replica_store_refines_witness:
  "mem_view (sm_KVStore demo_leader) = apply_all (executed demo_leader) Map.empty \<and>
   executed demo_leader = [demo_put, demo_get]"
  using replica_store_refines [OF demo_leader_reach] demo_leader_facts(2) by simp

text \<open>
  C8: a replica that never becomes leader executes the committed log and nothing else: the
  commands it executed are a prefix of the decoded log, in log order and each exactly once,
  and its store is what that prefix produces.
\<close>

theorem follower_applies_log:
  assumes "run (mem_node_step tid) (new_node n (fst NewMemStore)) es s"
    and "StateChange StateLeader \<notin> set es"
  shows "map Some (executed s) = take (length (executed s)) (map DecodeClientCommand (commit_data es)) \<and>
         mem_view (sm_KVStore s) = apply_all (executed s) Map.empty"
  using run_log [OF assms(1)] follower_run_executed [OF assms] mem_run_store [OF assms(1)] by simp

theorem follower_applies_log_witness:
  "map Some (executed demo_follower) =
     take (length (executed demo_follower)) (map DecodeClientCommand (commit_data demo_follow)) \<and>
   mem_view (sm_KVStore demo_follower) = apply_all (executed demo_follower) Map.empty"
  by (rule follower_applies_log [OF demo_follower_facts(1,3)])

text \<open>
  C9: two replicas that never lead and were handed the same committed log hold the same store
  once they have executed the same number of entries, whatever their schedules were.
\<close>

theorem followers_agree:
  assumes "run (mem_node_step tid) (new_node n (fst NewMemStore)) es s" "StateChange StateLeader \<notin> set es"
    and "run (mem_node_step tid') (new_node n' (fst NewMemStore)) es' s'" "StateChange StateLeader \<notin> set es'"
    and "commit_data es = commit_data es'" "length (executed s) = length (executed s')"
  shows "mem_view (sm_KVStore s) = mem_view (sm_KVStore s')"
proof -
  have "map Some (executed s) = map Some (executed s')"
    using run_log [OF assms(1)] run_log [OF assms(3)] assms(5,6)
      follower_run_executed [OF assms(1,2)] follower_run_executed [OF assms(3,4)]
    by simp
  then have "executed s = executed s'" by (simp add: inj_map_eq_map)
  then show ?thesis using mem_run_store [OF assms(1)] mem_run_store [OF assms(3)] by simp
qed

theorem followers_agree_witness:
  "mem_view (sm_KVStore demo_follower) = mem_view (sm_KVStore demo_follower2)"
  by (rule followers_agree [OF demo_follower_facts(1,3) demo_follower2_facts(1,3)])
    (simp_all add: demo_follower_facts demo_follower2_facts demo_follow_def demo_follow2_def)

text \<open>
  C10: no committed command is lost. In every reachable state, for every command the worker
  took from the committed log the replica has executed a command with that identifier, on
  the fast path or on the slow path.
\<close>

theorem committed_commands_executed:
  assumes "reach mem_start (mem_node_step tid) s" "c \<in> set (consumed s)"
  shows "\<exists>d\<in>set (executed s). pid d = pid c"
  using node_executed.holds_reachable [OF assms(1)] assms(2) by (force simp: executed_inv_def)

theorem committed_commands_executed_witness:
  "\<exists>d\<in>set (executed demo_follower). pid d = pid demo_put"
proof (rule committed_commands_executed)
  show "reach mem_start (mem_node_step 64) demo_follower"
    by (rule reach_run [OF demo_follower_facts(1)], rule reach_init) blast
  show "demo_put \<in> set (consumed demo_follower)"
    by (simp add: follower_run_executed [OF demo_follower_facts(1,3), symmetric] demo_follower_facts(2))
qed

text \<open>
  C15: the witness of a replica never holds two conflicting commands under different
  identifiers, in any reachable state.
\<close>

theorem replica_witness_compatible:
  assumes "reach mem_start (mem_node_step tid) s"
    and "c \<in> recorded_cmds (witness s)" "d \<in> recorded_cmds (witness s)" "pid c \<noteq> pid d"
  shows "\<not> Conflict c d"
  using node_witness.holds_reachable [OF assms(1)] assms(2-4)
  by (auto simp: witness_inv_def compatible_def)

theorem replica_witness_compatible_witness:
  "\<not> Conflict demo_put demo_other"
proof (rule replica_witness_compatible)
  show "reach mem_start (mem_node_step 64) demo_recorded"
    by (rule reach_run [OF demo_recorded_facts(1)], rule reach_init) blast
qed (simp_all add: demo_recorded_facts recorded_cmds_def demo_put_def demo_other_def
      CurpClientCommand_ProposeId_def)

section \<open>Where the replica departs from its comments\<close>

text \<open>
  The replica of a leader can diverge from the committed log. There is a schedule in
  which the leader has committed and executed two puts of one key, in that order, and then
  executes the first one again from the fast path, because the commit removed the record
  that would have stopped it; its store then differs from the one the log produces.
\<close>

theorem late_fast_path_diverges:
  "\<exists>s. run (mem_node_step 64) (new_node 1 (fst NewMemStore)) late_events s \<and>
     consumed s = [demo_put, demo_second] \<and> executed s = [demo_put, demo_second, demo_put] \<and>
     mem_view (sm_KVStore s) ''x'' = Some ''1'' \<and> apply_all (consumed s) Map.empty ''x'' = Some ''2''"
  unfolding node_performs_run [symmetric]
  by (simp add: node_eval late_events_def demo_fields demo_second_fields apply_cmd_def)

text \<open>
  C33: leader and followers can diverge for good although every command is executed once and every
  record is kept. \<open>Propose\<close> starts one goroutine that feeds the fast path and another that feeds raft, and
  nothing ties their orders together: there is a schedule in which the leader answers two puts of a
  key in one order and commits them in the other. When everything has been executed everywhere, the
  leader, which skips committed commands it has executed, and a replica that follows the log hold
  different values.
\<close>

theorem swapped_proposals_diverge:
  "\<exists>s t. run (mem_node_step 64) (new_node 1 (fst NewMemStore)) swap_events s \<and>
     run (mem_node_step 64) (new_node 2 (fst NewMemStore)) swap_follow t \<and>
     commit_data swap_events = commit_data swap_follow \<and>
     executed s = [demo_put, demo_second] \<and> consumed s = [demo_second, demo_put] \<and>
     executed t = [demo_second, demo_put] \<and>
     (\<exists>rep. LeaderReplied demo_put rep \<in> set (goroutines s)) \<and>
     (\<exists>rep. LeaderReplied demo_second rep \<in> set (goroutines s)) \<and>
     mem_view (sm_KVStore s) ''x'' = Some ''2'' \<and> mem_view (sm_KVStore t) ''x'' = Some ''1''"
proof -
  have "\<exists>s. run (mem_node_step 64) (new_node 1 (fst NewMemStore)) swap_events s \<and>
     executed s = [demo_put, demo_second] \<and> consumed s = [demo_second, demo_put] \<and>
     (\<exists>rep. LeaderReplied demo_put rep \<in> set (goroutines s)) \<and>
     (\<exists>rep. LeaderReplied demo_second rep \<in> set (goroutines s)) \<and>
     mem_view (sm_KVStore s) ''x'' = Some ''2''"
    unfolding node_performs_run [symmetric]
    by (simp add: node_eval swap_events_def swapped_commit_def demo_fields demo_second_fields) blast
  moreover have "\<exists>t. run (mem_node_step 64) (new_node 2 (fst NewMemStore)) swap_follow t \<and>
     executed t = [demo_second, demo_put] \<and> mem_view (sm_KVStore t) ''x'' = Some ''1''"
    unfolding node_performs_run [symmetric]
    by (simp add: node_eval swap_follow_def swapped_commit_def demo_fields demo_second_fields)
  moreover have "commit_data swap_events = commit_data swap_follow"
    by (simp add: swap_events_def swap_follow_def)
  ultimately show ?thesis by blast
qed

text \<open>
  C36: the reply that the comment in \<open>WaitForAsr\<close> calls unreachable is sent. Take any reachable state in
  which the worker is about to take a command from the log whose result is not on the board, which is so
  when the commit overtakes the fast path, while a synchronisation request for it waits and has not
  been woken: the next steps of the worker and of the request answer it \<open>NOT FOUND IN BUFFER\<close>, with the
  status of an accepted command.
\<close>

theorem not_found_in_buffer_reachable:
  assumes "reach (starts kv) (node_step K tid) s" "\<not> crashed s" "worker s = Selects"
    and "chan_recv (slowPath s) = Some (cmd, ch)" "\<not> mhas (erBuffer (commandBoard s)) (pid cmd)"
    and "n < length (goroutines s)" "goroutines s ! n = SyncReceives (pid cmd)" "\<not> asr_busy (commandBoard s) (pid cmd)"
  shows "\<exists>t. run (node_step K tid) s [WorkerSlow, WorkerContinue, Sched n, Sched n] t \<and>
     SyncReplied (pid cmd) \<lparr>Content = ''NOT FOUND IN BUFFER'', StatusCode = ACCEPTED, ReplySeqId = 0\<rparr>
       \<in> set (goroutines t)"
proof -
  obtain u where u: "worker_slow K s = Some u" "worker u = NotifiesAsr cmd" "commandBoard u = commandBoard s"
      "goroutines u = goroutines s" "crashed u = crashed s"
    using worker_slow_takes [OF assms(3,4)] by blast
  with assms(2) have step: "node_step K tid s WorkerSlow u" by (simp add: node_step_def)
  with assms(1) have "board_ok u" using node_boards.holds_reachable reach_step by metis
  with assms(2,5-8) u obtain t where "run (node_step K tid) u [WorkerContinue, Sched n, Sched n] t"
      "SyncReplied (pid cmd) (WaitSynced_reply ''NOT FOUND IN BUFFER'') \<in> set (goroutines t)"
    using sync_not_found [of u cmd n K tid] by auto
  with step show ?thesis by (auto simp: WaitSynced_reply_def intro: run_cons)
qed

theorem not_found_in_buffer_reachable_witness:
  "\<exists>s t. run (mem_node_step 64) (new_node 1 (fst NewMemStore)) early_sync_events s \<and>
     run (mem_node_step 64) s [WorkerSlow, WorkerContinue, Sched 3, Sched 3] t \<and>
     SyncReplied (pid demo_put) \<lparr>Content = ''NOT FOUND IN BUFFER'', StatusCode = ACCEPTED, ReplySeqId = 0\<rparr>
       \<in> set (goroutines t)"
proof -
  have "\<exists>s. run (mem_node_step 64) (new_node 1 (fst NewMemStore)) early_sync_events s \<and> \<not> crashed s \<and> worker s = Selects \<and>
      chan_recv (slowPath s) = Some (demo_put, \<lparr>ccap = 1000, cbuf = []\<rparr>) \<and> \<not> mhas (erBuffer (commandBoard s)) (pid demo_put) \<and>
      3 < length (goroutines s) \<and> goroutines s ! 3 = SyncReceives (pid demo_put) \<and> \<not> asr_busy (commandBoard s) (pid demo_put)"
    unfolding node_performs_run [symmetric]
    by (simp add: node_eval early_sync_events_def demo_fields asr_busy_def)
  then obtain s where s: "run (mem_node_step 64) (new_node 1 (fst NewMemStore)) early_sync_events s" "\<not> crashed s" "worker s = Selects"
      "chan_recv (slowPath s) = Some (demo_put, \<lparr>ccap = 1000, cbuf = []\<rparr>)" "\<not> mhas (erBuffer (commandBoard s)) (pid demo_put)"
      "3 < length (goroutines s)" "goroutines s ! 3 = SyncReceives (pid demo_put)" "\<not> asr_busy (commandBoard s) (pid demo_put)" by blast
  have "reach mem_start (mem_node_step 64) s" by (rule reach_run [OF s(1)], rule reach_init) blast
  from not_found_in_buffer_reachable [OF this s(2-)] s(1) show ?thesis by blast
qed

text \<open>
  C40: a proposal whose operation code is not one of the five known ones ends the process of
  the replica that gets it, leader or not: the name of the operation is looked up for the
  trace before anything is checked.
\<close>

theorem unknown_operation_crashes:
  assumes "\<not> crashed s" "5 \<le> unat (Op cmd)"
  shows "\<exists>t. run (node_step K tid) s
           [CallPropose cmd, Sched (length (goroutines s)), Sched (length (goroutines s))] t \<and> crashed t"
  using assms OpFmt_at_None [of "Op cmd"]
  unfolding node_performs_run [symmetric]
  by (auto simp: Propose_witness_def Propose_locked_def replace_at_def nth_append split: prod.splits)

theorem unknown_operation_crashes_witness:
  "\<exists>t. run (mem_node_step 64) (new_node 1 (fst NewMemStore))
     [CallPropose (zero_command\<lparr>Op := 7\<rparr>), Sched 0, Sched 0] t \<and> crashed t"
  using unknown_operation_crashes [of "new_node 1 (fst NewMemStore)" "zero_command\<lparr>Op := 7\<rparr>" MemStore_KVStore 64]
  by (simp add: new_node_defs)

end
