(* ===== verification/Client.thy ===== *)
theory Client
  imports Complex_Main State_Machine
begin

text \<open>
  The two clients: \<open>MockClient\<close> of \<open>curp/client.go\<close>, which calls the replicas of its own
  process, and \<open>Grpc_client\<close> of \<open>curp/client_grpc.go\<close>. What the replicas answer is an
  input of the rounds: the answers to a fast round are the list of events its \<open>select\<close>
  sees, in order of arrival, the answer of \<open>WaitSynced\<close> is a function of the replica and the
  identifier.
\<close>

section \<open>Rounds\<close>

text \<open>
  A call can return, end the process (a nil dereference, an index out of range, a
  \<open>log.Fatalf\<close>), or still be waiting when the events so far are used up.
\<close>

datatype 'a round = Returned 'a | Crashed | Waiting

text \<open>
  What the \<open>select\<close> of a fast round receives: the reply of a peer, \<open>None\<close> for the nil
  pointer that comes with a failed RPC, or the tick of the timeout.
\<close>

datatype fast_event = Arrives nat "CurpReply option" | Tick

text \<open>\<open>xs[i]\<close> for a Go \<open>int\<close>: \<open>None\<close> is the index panic.\<close>

definition at_int :: "'a list \<Rightarrow> int \<Rightarrow> 'a option" where
  "at_int xs i = (if 0 \<le> i \<and> i < int (length xs) then Some (xs ! nat i) else None)"

definition timeout_reply :: CurpReply where
  "timeout_reply = \<lparr>Content = [], StatusCode = TIMEOUT, ReplySeqId = 0\<rparr>"

definition failures :: "nat \<Rightarrow> int" where
  "failures n = (if n = 0 then 0 else (int n - 1) div 2)"

text \<open>
  \<open>math.Ceil(float64(c.f)/2)\<close>; both conversions are exact for every \<open>f\<close> below \<open>2^53\<close>.
\<close>

definition quorum_of :: "int \<Rightarrow> int" where
  "quorum_of f = f + \<lceil>real_of_int f / 2\<rceil> + 1"

section \<open>The client in the replicas' process\<close>

text \<open>The replicas are pointers: here the indices under which \<open>deref\<close> finds them.\<close>

record MockClient =
  Servers :: "nat list"
  mc_ClientId :: uint64
  mc_SeqId :: uint64
  mc_f :: int
  mc_LeaderId :: int

fun MockClient_fetchLeader_loop ::
  "(nat \<Rightarrow> ('kv, 'a) StateMachine_scheme) \<Rightarrow> int \<Rightarrow> nat list \<Rightarrow> int \<Rightarrow> int" where
  "MockClient_fetchLeader_loop deref idx [] leaderId = leaderId"
| "MockClient_fetchLeader_loop deref idx (server # servers) leaderId =
     MockClient_fetchLeader_loop deref (idx + 1) servers
       (if StateMachine_IsLeader (deref server) then idx else leaderId)"

definition MockClient_fetchLeader ::
  "(nat \<Rightarrow> ('kv, 'a) StateMachine_scheme) \<Rightarrow> MockClient \<Rightarrow> int" where
  "MockClient_fetchLeader deref c = MockClient_fetchLeader_loop deref 0 (Servers c) (-1)"

definition NewClient ::
  "(nat \<Rightarrow> ('kv, 'a) StateMachine_scheme) \<Rightarrow> nat list \<Rightarrow> uint64 \<Rightarrow> MockClient option \<times> err" where
  "NewClient deref servers clientId =
     (let f = failures (length servers);
          c = \<lparr>Servers = servers, mc_ClientId = clientId, mc_SeqId = 0, mc_f = f, mc_LeaderId = 0\<rparr>;
          c = c\<lparr>mc_LeaderId := MockClient_fetchLeader deref c\<rparr>
      in if mc_LeaderId c = -1 then (None, Some (Errorf ''no leader'')) else (Some c, nil))"

definition MockClient_GetProposeId :: "MockClient \<Rightarrow> MockClient \<times> ProposeId" where
  "MockClient_GetProposeId c =
     (let newSeqId = mc_SeqId c + 1 in
      (c\<lparr>mc_SeqId := newSeqId\<rparr>, \<lparr>ClientId = mc_ClientId c, SeqId = newSeqId\<rparr>))"

definition MockClient_superQuorom :: "MockClient \<Rightarrow> int" where
  "MockClient_superQuorom c = quorum_of (mc_f c)"

fun MockClient_fastRound_loop ::
  "int \<Rightarrow> int \<Rightarrow> CurpReply \<Rightarrow> fast_event list \<Rightarrow> (CurpReply \<times> err) round" where
  "MockClient_fastRound_loop quorum acceptedCount result [] = Waiting"
| "MockClient_fastRound_loop quorum acceptedCount result (Tick # es) =
     Returned (result, Some (Errorf ''fast path time out''))"
| "MockClient_fastRound_loop quorum acceptedCount result (Arrives i None # es) = Crashed"
| "MockClient_fastRound_loop quorum acceptedCount result (Arrives i (Some fastResult) # es) =
     (if StatusCode fastResult = ACCEPTED then
        let result' = (if Content result \<noteq> [] then fastResult else result);
            acceptedCount' = acceptedCount + 1 in
        if acceptedCount' = quorum then Returned (result', nil)
        else MockClient_fastRound_loop quorum acceptedCount' result' es
      else Returned (fastResult, nil))"

definition MockClient_fastRound :: "MockClient \<Rightarrow> fast_event list \<Rightarrow> (CurpReply \<times> err) round" where
  "MockClient_fastRound c es = MockClient_fastRound_loop (MockClient_superQuorom c) 0 timeout_reply es"

text \<open>\<open>sync server id\<close> is what \<open>WaitSynced\<close> answers there; \<open>None\<close> while it has not returned.\<close>

definition MockClient_slowRound ::
  "MockClient \<Rightarrow> (nat \<Rightarrow> ProposeId \<Rightarrow> CurpReply option) \<Rightarrow> CurpClientCommand \<Rightarrow> (string \<times> err) round" where
  "MockClient_slowRound c sync cmd =
     (case at_int (Servers c) (mc_LeaderId c) of
        None \<Rightarrow> Crashed
      | Some leader \<Rightarrow>
          (case sync leader (pid cmd) of
             None \<Rightarrow> Waiting
           | Some r \<Rightarrow>
               if StatusCode r = CONFLICT
               then Returned ([], Some (Errorf ''command is still conflict after wait synced''))
               else Returned (Content r, nil)))"

definition MockClient_Propose ::
  "MockClient \<Rightarrow> (nat \<Rightarrow> ProposeId \<Rightarrow> CurpReply option) \<Rightarrow> fast_event list \<Rightarrow> CurpClientCommand \<Rightarrow>
   (string \<times> err) round" where
  "MockClient_Propose c sync es cmd =
     (case MockClient_fastRound c es of
        Waiting \<Rightarrow> Waiting
      | Crashed \<Rightarrow> Crashed
      | Returned (r, e) \<Rightarrow>
          if e \<noteq> nil then Returned ([], e)
          else if StatusCode r = ACCEPTED then Returned (Content r, nil)
          else MockClient_slowRound c sync cmd)"

definition MockClient_Put ::
  "MockClient \<Rightarrow> (nat \<Rightarrow> ProposeId \<Rightarrow> CurpReply option) \<Rightarrow> fast_event list \<Rightarrow> string \<Rightarrow> string \<Rightarrow>
   MockClient \<times> err round" where
  "MockClient_Put c sync es key val =
     (case MockClient_GetProposeId c of (c', proposeId) \<Rightarrow>
        let cmd = zero_command\<lparr>Op := PUT, Key := key, Value := val,
                    CmdClientId := ClientId proposeId, CmdSeqId := SeqId proposeId\<rparr> in
        (c', case MockClient_Propose c' sync es cmd of
               Waiting \<Rightarrow> Waiting | Crashed \<Rightarrow> Crashed | Returned (_, e) \<Rightarrow> Returned e))"

definition MockClient_Get ::
  "MockClient \<Rightarrow> (nat \<Rightarrow> ProposeId \<Rightarrow> CurpReply option) \<Rightarrow> fast_event list \<Rightarrow> string \<Rightarrow>
   MockClient \<times> (string \<times> err) round" where
  "MockClient_Get c sync es key =
     (case MockClient_GetProposeId c of (c', proposeId) \<Rightarrow>
        let cmd = zero_command\<lparr>Op := GET, Key := key,
                    CmdClientId := mc_ClientId c', CmdSeqId := SeqId proposeId\<rparr> in
        (c', MockClient_Propose c' sync es cmd))"

section \<open>The gRPC client\<close>

record static =
  fast :: int
  slow :: int

record Grpc_client =
  grpc_servers :: "string list"
  gc_ClientId :: uint64
  gc_SeqId :: uint64
  gc_f :: int
  gc_LeaderId :: int
  gc_static :: static

text \<open>
  The \<open>IsLeader\<close> RPC: the answer of each peer with the error of the call. A failed call
  ends the process.
\<close>

definition Grpc_isLeader :: "(nat \<Rightarrow> LeaderReply \<times> err) \<Rightarrow> nat \<Rightarrow> bool option" where
  "Grpc_isLeader rpc peerId =
     (case rpc peerId of (r, e) \<Rightarrow> if e \<noteq> nil then None else Some (IsLeaderFlag r = 1))"

fun Grpc_fetchLeader_loop :: "(nat \<Rightarrow> LeaderReply \<times> err) \<Rightarrow> nat \<Rightarrow> string list \<Rightarrow> int \<Rightarrow> int option" where
  "Grpc_fetchLeader_loop rpc idx [] leaderId = Some leaderId"
| "Grpc_fetchLeader_loop rpc idx (server # servers) leaderId =
     (case Grpc_isLeader rpc idx of
        None \<Rightarrow> None
      | Some l \<Rightarrow> Grpc_fetchLeader_loop rpc (idx + 1) servers (if l then int idx else leaderId))"

definition Grpc_fetchLeader :: "(nat \<Rightarrow> LeaderReply \<times> err) \<Rightarrow> Grpc_client \<Rightarrow> int option" where
  "Grpc_fetchLeader rpc c = Grpc_fetchLeader_loop rpc 0 (grpc_servers c) (-1)"

text \<open>Dialling is the gRPC library's: \<open>dial\<close> gives the error it returns for an address.\<close>

definition NewGrpcClient ::
  "(string \<Rightarrow> err) \<Rightarrow> (nat \<Rightarrow> LeaderReply \<times> err) \<Rightarrow> string list \<Rightarrow> uint64 \<Rightarrow>
   (Grpc_client option \<times> err) round" where
  "NewGrpcClient dial rpc servers clientId =
     (let f = failures (length servers);
          c = \<lparr>grpc_servers = servers, gc_ClientId = clientId, gc_SeqId = 0, gc_f = f,
               gc_LeaderId = 0, gc_static = \<lparr>fast = 0, slow = 0\<rparr>\<rparr> in
      if list_ex (\<lambda>a. dial a \<noteq> nil) servers then Crashed
      else case Grpc_fetchLeader rpc c of
        None \<Rightarrow> Crashed
      | Some l \<Rightarrow>
          if l = -1 then Returned (None, Some (Errorf ''no leader''))
          else Returned (Some (c\<lparr>gc_LeaderId := l\<rparr>), nil))"

definition Grpc_GetProposeId :: "Grpc_client \<Rightarrow> Grpc_client \<times> ProposeId" where
  "Grpc_GetProposeId c =
     (let newSeqId = gc_SeqId c + 1 in
      (c\<lparr>gc_SeqId := newSeqId\<rparr>, \<lparr>ClientId = gc_ClientId c, SeqId = newSeqId\<rparr>))"

definition Grpc_superQuorom :: "Grpc_client \<Rightarrow> int" where
  "Grpc_superQuorom c = quorum_of (gc_f c)"

fun Grpc_fastRound_loop ::
  "int \<Rightarrow> int \<Rightarrow> int \<Rightarrow> CurpReply option list \<Rightarrow> fast_event list \<Rightarrow> (CurpReply option \<times> err) round" where
  "Grpc_fastRound_loop quorum leader acceptedCount results [] = Waiting"
| "Grpc_fastRound_loop quorum leader acceptedCount results (Tick # es) =
     Returned (Some timeout_reply, Some (Errorf ''fast path time out''))"
| "Grpc_fastRound_loop quorum leader acceptedCount results (Arrives i None # es) = Crashed"
| "Grpc_fastRound_loop quorum leader acceptedCount results (Arrives i (Some r) # es) =
     (if StatusCode r = ACCEPTED then
        let acceptedCount' = acceptedCount + 1 in
        if length results \<le> i then Crashed
        else let results' = results[i := Some r] in
          if acceptedCount' = quorum then
            (case at_int results' leader of None \<Rightarrow> Crashed | Some x \<Rightarrow> Returned (x, nil))
          else Grpc_fastRound_loop quorum leader acceptedCount' results' es
      else Returned (Some r, nil))"

definition Grpc_fastRound :: "Grpc_client \<Rightarrow> fast_event list \<Rightarrow> (CurpReply option \<times> err) round" where
  "Grpc_fastRound c es =
     Grpc_fastRound_loop (Grpc_superQuorom c) (gc_LeaderId c) 0
       (replicate (length (grpc_servers c)) None) es"

text \<open>
  \<open>sync peer id\<close> is what the \<open>WaitSynced\<close> RPC gives: \<open>None\<close> while it has not returned,
  \<open>Some None\<close> for the nil reply of a failed call.
\<close>

definition Grpc_slowRound ::
  "Grpc_client \<Rightarrow> (nat \<Rightarrow> ProposeId \<Rightarrow> CurpReply option option) \<Rightarrow> CurpClientCommand \<Rightarrow>
   (string \<times> err) round" where
  "Grpc_slowRound c sync cmd =
     (let sync_cmd = \<lparr>ClientId = CmdClientId cmd, SeqId = CmdSeqId cmd\<rparr> in
      if \<not> (0 \<le> gc_LeaderId c \<and> gc_LeaderId c < int (length (grpc_servers c))) then Crashed
      else case sync (nat (gc_LeaderId c)) sync_cmd of
        None \<Rightarrow> Waiting
      | Some None \<Rightarrow> Crashed
      | Some (Some r) \<Rightarrow>
          if StatusCode r = CONFLICT
          then Returned ([], Some (Errorf ''command is still conflict after wait synced''))
          else Returned (Content r, nil))"

definition Grpc_Propose ::
  "Grpc_client \<Rightarrow> (nat \<Rightarrow> ProposeId \<Rightarrow> CurpReply option option) \<Rightarrow> fast_event list \<Rightarrow>
   CurpClientCommand \<Rightarrow> Grpc_client \<times> (string \<times> err) round" where
  "Grpc_Propose c sync es cmd =
     (case Grpc_fastRound c es of
        Waiting \<Rightarrow> (c, Waiting)
      | Crashed \<Rightarrow> (c, Crashed)
      | Returned (reply, e) \<Rightarrow>
          if e \<noteq> nil then (c, Returned ([], e))
          else case reply of
            None \<Rightarrow> (c, Crashed)
          | Some r \<Rightarrow>
              if StatusCode r = ACCEPTED
              then (c\<lparr>gc_static := (gc_static c)\<lparr>fast := fast (gc_static c) + 1\<rparr>\<rparr>, Returned (Content r, nil))
              else let c' = c\<lparr>gc_static := (gc_static c)\<lparr>slow := slow (gc_static c) + 1\<rparr>\<rparr> in
                (c', Grpc_slowRound c' sync cmd))"

text \<open>The commands the three operations build, under an identifier taken for the occasion.\<close>

definition Grpc_Put_command :: "Grpc_client \<Rightarrow> string \<Rightarrow> string \<Rightarrow> Grpc_client \<times> CurpClientCommand" where
  "Grpc_Put_command c key val =
     (case Grpc_GetProposeId c of (c1, proposeId) \<Rightarrow>
        (c1, zero_command\<lparr>Op := PUT, Key := key, Value := val,
               CmdClientId := ClientId proposeId, CmdSeqId := SeqId proposeId\<rparr>))"

definition Grpc_Get_command :: "Grpc_client \<Rightarrow> string \<Rightarrow> Grpc_client \<times> CurpClientCommand" where
  "Grpc_Get_command c key =
     (case Grpc_GetProposeId c of (c1, proposeId) \<Rightarrow>
        (c1, zero_command\<lparr>Op := GET, Key := key, CmdClientId := gc_ClientId c1, CmdSeqId := SeqId proposeId\<rparr>))"

definition Grpc_Del_command :: "Grpc_client \<Rightarrow> string \<Rightarrow> Grpc_client \<times> CurpClientCommand" where
  "Grpc_Del_command c key =
     (case Grpc_GetProposeId c of (c1, proposeId) \<Rightarrow>
        (c1, zero_command\<lparr>Op := DELETE, Key := key, CmdClientId := gc_ClientId c1, CmdSeqId := SeqId proposeId\<rparr>))"

definition Grpc_Put ::
  "Grpc_client \<Rightarrow> (nat \<Rightarrow> ProposeId \<Rightarrow> CurpReply option option) \<Rightarrow> fast_event list \<Rightarrow> string \<Rightarrow> string \<Rightarrow>
   Grpc_client \<times> err round" where
  "Grpc_Put c sync es key val =
     (case Grpc_Put_command c key val of (c1, cmd) \<Rightarrow>
        case Grpc_Propose c1 sync es cmd of
          (c2, Waiting) \<Rightarrow> (c2, Waiting) | (c2, Crashed) \<Rightarrow> (c2, Crashed)
        | (c2, Returned (_, e)) \<Rightarrow> (c2, Returned e))"

definition Grpc_Get ::
  "Grpc_client \<Rightarrow> (nat \<Rightarrow> ProposeId \<Rightarrow> CurpReply option option) \<Rightarrow> fast_event list \<Rightarrow> string \<Rightarrow>
   Grpc_client \<times> (string \<times> err) round" where
  "Grpc_Get c sync es key =
     (case Grpc_Get_command c key of (c1, cmd) \<Rightarrow> Grpc_Propose c1 sync es cmd)"

definition Grpc_Del ::
  "Grpc_client \<Rightarrow> (nat \<Rightarrow> ProposeId \<Rightarrow> CurpReply option option) \<Rightarrow> fast_event list \<Rightarrow> string \<Rightarrow>
   Grpc_client \<times> err round" where
  "Grpc_Del c sync es key =
     (case Grpc_Del_command c key of (c1, cmd) \<Rightarrow>
        case Grpc_Propose c1 sync es cmd of
          (c2, Waiting) \<Rightarrow> (c2, Waiting) | (c2, Crashed) \<Rightarrow> (c2, Crashed)
        | (c2, Returned (_, e)) \<Rightarrow> (c2, Returned e))"

section \<open>Quorums\<close>

text \<open>
  What the protocol needs of the size of a super quorum, for \<open>2 f + 1\<close> replicas of which
  \<open>f\<close> may fail.
\<close>

locale fast_quorum =
  fixes quorum :: "int \<Rightarrow> int"
  assumes covers: "0 \<le> f \<Longrightarrow> 3 * f + 2 \<le> 2 * quorum f"
    and fits: "0 \<le> f \<Longrightarrow> quorum f \<le> 2 * f + 1"
begin

lemma overlap:
  assumes "A \<subseteq> {..<n}" "B \<subseteq> {..<n}" "int n = 2 * f + 1" "0 \<le> f" "quorum f \<le> int (card A)"
  shows "2 * int (card B) - f \<le> 2 * int (card (A \<inter> B))"
proof -
  have fin: "finite A" "finite B" using assms finite_subset by blast+
  have "card (A \<union> B) \<le> n" using assms card_mono [of "{..<n}" "A \<union> B"] by simp
  with card_Un_Int [OF fin] covers [OF assms(4)] assms(3,5) show ?thesis by linarith
qed

lemma quorums_meet:
  assumes "A \<subseteq> {..<n}" "B \<subseteq> {..<n}" "int n = 2 * f + 1" "0 \<le> f"
    and "quorum f \<le> int (card A)" "quorum f \<le> int (card B)"
  shows "f + 1 \<le> int (card (A \<inter> B))"
  using overlap [OF assms(1-5)] covers [OF assms(4)] assms(4,6) by linarith

lemma majority_meets:
  assumes "A \<subseteq> {..<n}" "Q \<subseteq> {..<n}" "int n = 2 * f + 1" "0 \<le> f"
    and "quorum f \<le> int (card A)" "int (card Q) = f + 1"
  shows "int (card Q) < 2 * int (card (A \<inter> Q))"
  using overlap [OF assms(1-5)] assms(4,6) by linarith

end

lemma quorum_of_eq: "quorum_of f = f + (f + 1) div 2 + 1"
proof -
  have "\<lceil>real_of_int f / 2\<rceil> = (f + 1) div 2"
    by (rule ceiling_unique) linarith+
  then show ?thesis by (simp add: quorum_of_def)
qed

interpretation super: fast_quorum quorum_of
  by unfold_locales (auto simp: quorum_of_eq)

lemma failures_odd: "int n = 2 * f + 1 \<Longrightarrow> failures n = f"
  by (auto simp: failures_def)

lemma failures_nonneg: "0 \<le> failures n"
  by (auto simp: failures_def)

section \<open>Fast rounds\<close>

abbreviation acks :: "(nat \<times> CurpReply) list \<Rightarrow> fast_event list" where
  "acks ps \<equiv> map (\<lambda>(i, r). Arrives i (Some r)) ps"

fun arrivals :: "fast_event list \<Rightarrow> nat list" where
  "arrivals [] = []"
| "arrivals (Arrives i r # es) = i # arrivals es"
| "arrivals (Tick # es) = arrivals es"

lemma arrivals_append [simp]: "arrivals (es @ fs) = arrivals es @ arrivals fs"
  by (induction es rule: arrivals.induct) auto

lemma arrivals_acks [simp]: "arrivals (acks ps) = map fst ps"
  by (induction ps) auto

lemma arrivals_mem: "Arrives i r \<in> set es \<Longrightarrow> i \<in> set (arrivals es)"
  by (induction es rule: arrivals.induct) auto

definition all_accepted :: "nat \<Rightarrow> (nat \<times> CurpReply) list \<Rightarrow> bool" where
  "all_accepted n ps \<longleftrightarrow> (\<forall>(i, r)\<in>set ps. i < n \<and> StatusCode r = ACCEPTED)"

definition fill :: "CurpReply option list \<Rightarrow> (nat \<times> CurpReply) list \<Rightarrow> CurpReply option list" where
  "fill results ps = foldl (\<lambda>rs (i, r). rs[i := Some r]) results ps"

lemma fill_simps [simp]:
  "fill results [] = results" "fill results ((i, r) # ps) = fill (results[i := Some r]) ps"
  by (simp_all add: fill_def)

lemma length_fill [simp]: "length (fill results ps) = length results"
  by (induction ps arbitrary: results) auto

lemma fill_nth:
  assumes "k < length results" "fill results ps ! k = Some r"
  shows "results ! k = Some r \<or> (k, r) \<in> set ps"
  using assms
proof (induction ps arbitrary: results)
  case (Cons p ps)
  obtain i x where p: "p = (i, x)" by (cases p)
  with Cons.IH [of "results[i := Some x]"] Cons.prems
  have "results[i := Some x] ! k = Some r \<or> (k, r) \<in> set ps" by simp
  with p Cons.prems(1) show ?case by (cases "i = k") auto
qed simp

lemma fill_other: "k \<notin> fst ` set ps \<Longrightarrow> fill results ps ! k = results ! k"
  by (induction ps arbitrary: results) auto

lemma fill_hit:
  "distinct (map fst ps) \<Longrightarrow> (k, r) \<in> set ps \<Longrightarrow> k < length results \<Longrightarrow> fill results ps ! k = Some r"
proof (induction ps arbitrary: results)
  case (Cons p ps)
  then show ?case by (cases p) (auto simp: fill_other)
qed simp

text \<open>A quorum of accepting replies: the round ends with the leader's slot.\<close>

lemma Grpc_loop_quorum:
  assumes "all_accepted (length results) ps" "ps \<noteq> []" "int (length ps) = quorum - cnt"
  shows "Grpc_fastRound_loop quorum leader cnt results (acks ps @ es) =
           (case at_int (fill results ps) leader of None \<Rightarrow> Crashed | Some x \<Rightarrow> Returned (x, nil))"
  using assms
proof (induction ps arbitrary: cnt results)
  case (Cons p ps)
  obtain i r where "p = (i, r)" by (cases p)
  with Cons show ?case by (cases "ps = []") (auto simp: all_accepted_def Let_def)
qed simp

text \<open>All the ways a fast round can end, or go on: with a quorum, or otherwise.\<close>

definition quorum_end ::
  "CurpReply option list \<Rightarrow> int \<Rightarrow> int \<Rightarrow> fast_event list \<Rightarrow> (CurpReply option \<times> err) round \<Rightarrow> bool" where
  "quorum_end results leader k es R \<longleftrightarrow>
     (\<exists>ps rest. es = acks ps @ rest \<and> all_accepted (length results) ps \<and> int (length ps) = k \<and>
        R = (case at_int (fill results ps) leader of None \<Rightarrow> Crashed | Some x \<Rightarrow> Returned (x, nil)))"

definition other_end :: "nat \<Rightarrow> fast_event list \<Rightarrow> (CurpReply option \<times> err) round \<Rightarrow> bool" where
  "other_end n es R \<longleftrightarrow>
     R = Waiting \<or> (\<exists>r. R = Returned (Some r, nil) \<and> StatusCode r \<noteq> ACCEPTED) \<or>
     R = Returned (Some timeout_reply, Some (Errorf ''fast path time out'')) \<or>
     R = Crashed \<and> (\<exists>i a. Arrives i a \<in> set es \<and> (a = None \<or> n \<le> i))"

lemma quorum_end_Cons:
  assumes "quorum_end (results[i := Some r]) leader (k - 1) es R" "StatusCode r = ACCEPTED" "i < length results"
  shows "quorum_end results leader k (Arrives i (Some r) # es) R"
proof -
  from assms(1) obtain ps rest where ps: "es = acks ps @ rest" "all_accepted (length results) ps"
      "int (length ps) = k - 1"
      "R = (case at_int (fill results ((i, r) # ps)) leader of None \<Rightarrow> Crashed | Some x \<Rightarrow> Returned (x, nil))"
    by (auto simp: quorum_end_def)
  then show ?thesis using assms(2,3) unfolding quorum_end_def
    by (intro exI [of _ "(i, r) # ps"] exI [of _ rest]) (auto simp: all_accepted_def)
qed

lemma other_end_Cons: "other_end n es R \<Longrightarrow> other_end n (e # es) R"
  by (auto simp: other_end_def)

lemma Grpc_loop_outcomes:
  assumes "cnt < quorum"
  shows "quorum_end results leader (quorum - cnt) es (Grpc_fastRound_loop quorum leader cnt results es) \<or>
         other_end (length results) es (Grpc_fastRound_loop quorum leader cnt results es)"
  using assms
proof (induction quorum leader cnt results es rule: Grpc_fastRound_loop.induct)
  case (4 quorum leader cnt results i r es)
  consider "StatusCode r \<noteq> ACCEPTED \<or> length results \<le> i"
    | "StatusCode r = ACCEPTED" "i < length results" "cnt + 1 = quorum"
    | "StatusCode r = ACCEPTED" "i < length results" "cnt + 1 < quorum"
    using 4(2) by linarith
  then show ?case
  proof cases
    case 1
    then show ?thesis by (auto simp: other_end_def Let_def)
  next
    case 2
    then show ?thesis unfolding quorum_end_def
      by (intro disjI1 exI [of _ "[(i, r)]"] exI [of _ es]) (auto simp: all_accepted_def Let_def)
  next
    case 3
    then have "Grpc_fastRound_loop quorum leader cnt results (Arrives i (Some r) # es) =
        Grpc_fastRound_loop quorum leader (cnt + 1) (results[i := Some r]) es" by (simp add: Let_def)
    moreover from "4.IH" [OF 3(1) refl _ refl] 3 have
      "quorum_end (results[i := Some r]) leader (quorum - cnt - 1) es
         (Grpc_fastRound_loop quorum leader (cnt + 1) (results[i := Some r]) es) \<or>
       other_end (length results) es (Grpc_fastRound_loop quorum leader (cnt + 1) (results[i := Some r]) es)"
      by (simp add: diff_diff_eq)
    ultimately show ?thesis using 3 by (auto intro: quorum_end_Cons other_end_Cons)
  qed
qed (auto simp: other_end_def)

lemma Mock_loop_not_accepted:
  assumes "MockClient_fastRound_loop quorum cnt result es = Returned (r, e)"
    and "Content result = []" "StatusCode result \<noteq> ACCEPTED"
  shows "StatusCode r \<noteq> ACCEPTED"
  using assms
  by (induction quorum cnt result es rule: MockClient_fastRound_loop.induct)
    (auto simp: Let_def split: if_splits)

lemma Grpc_loop_ticks: "Tick \<in> set es \<Longrightarrow> Grpc_fastRound_loop quorum leader cnt results es \<noteq> Waiting"
  by (induction quorum leader cnt results es rule: Grpc_fastRound_loop.induct)
    (auto simp: Let_def split: option.splits)

lemma Grpc_fetchLeader_loop_Some:
  assumes "Grpc_fetchLeader_loop rpc idx servers l0 = Some l"
  shows "(l = l0 \<and> (\<forall>k<length servers. Grpc_isLeader rpc (idx + k) = Some False)) \<or>
         (\<exists>k<length servers. l = int (idx + k) \<and> Grpc_isLeader rpc (idx + k) = Some True \<and>
            (\<forall>j<length servers. k < j \<longrightarrow> Grpc_isLeader rpc (idx + j) = Some False))"
  using assms
proof (induction rpc idx servers l0 rule: Grpc_fetchLeader_loop.induct)
  case (2 rpc idx server servers l0)
  then obtain b where b: "Grpc_isLeader rpc idx = Some b"
      "Grpc_fetchLeader_loop rpc (idx + 1) servers (if b then int idx else l0) = Some l"
    by (auto split: option.splits)
  from 2(1) [OF b] consider
      "l = (if b then int idx else l0)" "\<forall>k<length servers. Grpc_isLeader rpc (idx + Suc k) = Some False"
    | k where "k < length servers" "l = int (idx + Suc k)" "Grpc_isLeader rpc (idx + Suc k) = Some True"
        "\<forall>j<length servers. k < j \<longrightarrow> Grpc_isLeader rpc (idx + Suc j) = Some False"
    by auto
  then show ?case
  proof cases
    case 1
    then show ?thesis
      using b by (cases b) (auto simp: less_Suc_eq_0_disj)
  next
    case 2
    then have "\<forall>j<length (server # servers). Suc k < j \<longrightarrow> Grpc_isLeader rpc (idx + j) = Some False"
      by (auto simp: less_Suc_eq_0_disj)
    with 2 show ?thesis by (intro disjI2 exI [of _ "Suc k"]) simp
  qed
qed simp

lemma GetProposeId_steps:
  "((fst \<circ> Grpc_GetProposeId) ^^ k) c = c\<lparr>gc_SeqId := gc_SeqId c + of_nat k\<rparr>"
  by (induction k) (auto simp: Grpc_GetProposeId_def Let_def algebra_simps)

lemma accepted_round:
  assumes "Grpc_fastRound c es = Returned (Some r, nil)" "StatusCode r = ACCEPTED" "0 \<le> gc_f c"
  shows "\<exists>ps rest. es = acks ps @ rest \<and> all_accepted (length (grpc_servers c)) ps \<and>
           int (length ps) = Grpc_superQuorom c \<and> (nat (gc_LeaderId c), r) \<in> set ps"
proof -
  let ?init = "replicate (length (grpc_servers c)) None"
  have "0 < Grpc_superQuorom c" using assms(3) by (simp add: Grpc_superQuorom_def quorum_of_eq)
  from Grpc_loop_outcomes [OF this, of ?init "gc_LeaderId c" es] assms(1,2)
  obtain ps rest where ps: "es = acks ps @ rest" "all_accepted (length (grpc_servers c)) ps"
      "int (length ps) = Grpc_superQuorom c" "at_int (fill ?init ps) (gc_LeaderId c) = Some (Some r)"
    by (auto simp: Grpc_fastRound_def quorum_end_def other_end_def split: option.splits)
  from ps(4) have "nat (gc_LeaderId c) < length ?init" "fill ?init ps ! nat (gc_LeaderId c) = Some r"
    by (auto simp: at_int_def split: if_splits)
  from fill_nth [OF this] this(1) have "(nat (gc_LeaderId c), r) \<in> set ps" by simp
  with ps(1-3) show ?thesis by blast
qed

lemma three_replicas_no_crash:
  assumes "length (grpc_servers c) = 3" "gc_f c = 1" "0 \<le> gc_LeaderId c" "gc_LeaderId c < 3"
    and "distinct (arrivals es)" "set (arrivals es) \<subseteq> {..<3}" "\<forall>i. Arrives i None \<notin> set es"
    and "sync (nat (gc_LeaderId c)) (pid cmd) \<noteq> Some None"
  shows "snd (Grpc_Propose c sync es cmd) \<noteq> Crashed"
proof -
  let ?init = "replicate 3 None"
  have slow: "Grpc_slowRound d sync cmd \<noteq> Crashed"
    if "gc_LeaderId d = gc_LeaderId c" "grpc_servers d = grpc_servers c" for d
    using assms(1,3,4,8) that
    by (auto simp: Grpc_slowRound_def Let_def CurpClientCommand_ProposeId_def split: option.splits)
  have q: "(0::int) < 3" "Grpc_superQuorom c = 3" using assms(2) by (simp_all add: Grpc_superQuorom_def quorum_of_eq)
  have "\<not> (\<exists>i a. Arrives i a \<in> set es \<and> (a = None \<or> 3 \<le> i))"
    using assms(6,7) arrivals_mem by fastforce
  moreover have "\<exists>r. at_int (fill ?init ps) (gc_LeaderId c) = Some (Some r)"
    if "es = acks ps @ rest" "length ps = 3" for ps rest
  proof -
    have d: "distinct (map fst ps)" "fst ` set ps \<subseteq> {..<3}" using assms(5,6) that(1) by auto
    then have "card (fst ` set ps) = 3" using that(2) by (metis distinct_card length_map set_map)
    with d(2) have "fst ` set ps = {..<3}" by (intro card_subset_eq) auto
    then have "nat (gc_LeaderId c) \<in> fst ` set ps" using assms(3,4) by (simp add: nat_less_iff)
    then obtain r where "(nat (gc_LeaderId c), r) \<in> set ps" by force
    with fill_hit [OF d(1) this, of ?init] assms(3,4) show ?thesis
      by (simp add: at_int_def nat_less_iff)
  qed
  ultimately have "Grpc_fastRound c es \<noteq> Crashed \<and> Grpc_fastRound c es \<noteq> Returned (None, nil)"
    using Grpc_loop_outcomes [OF q(1), of ?init "gc_LeaderId c" es]
    by (fastforce simp: Grpc_fastRound_def q(2) assms(1) quorum_end_def other_end_def split: option.splits)
  then show ?thesis
    using slow by (auto simp: Grpc_Propose_def Let_def split: round.splits option.splits)
qed

lemma propose_not_waiting:
  assumes "Tick \<in> set es" "\<And>k i. sync k i \<noteq> None"
  shows "snd (Grpc_Propose c sync es cmd) \<noteq> Waiting"
  using Grpc_loop_ticks [OF assms(1)]
    assms(2) [of "nat (gc_LeaderId c)" "\<lparr>ClientId = CmdClientId cmd, SeqId = CmdSeqId cmd\<rparr>"]
  by (auto simp: Grpc_Propose_def Grpc_fastRound_def Grpc_slowRound_def Let_def
      split: round.splits option.splits)

section \<open>Properties of the clients\<close>

text \<open>
  Three replicas with the leader at index 1: a client, and the replies to its first command.
\<close>

definition demo_client :: Grpc_client where
  "demo_client = \<lparr>grpc_servers = [''a'', ''b'', ''c''], gc_ClientId = 7, gc_SeqId = 0, gc_f = 1,
     gc_LeaderId = 1, gc_static = \<lparr>fast = 0, slow = 0\<rparr>\<rparr>"

definition demo_ack :: "string \<Rightarrow> CurpReply" where
  "demo_ack v = \<lparr>Content = v, StatusCode = ACCEPTED, ReplySeqId = 0\<rparr>"

definition demo_five :: Grpc_client where
  "demo_five = demo_client\<lparr>grpc_servers := [''a'', ''b'', ''c'', ''d'', ''e''], gc_f := 2, gc_LeaderId := 4\<rparr>"

lemma demo_quorum: "Grpc_superQuorom demo_client = 3" "Grpc_superQuorom demo_five = 4"
  by (simp_all add: Grpc_superQuorom_def quorum_of_eq demo_client_def demo_five_def)

text \<open>
  C21: a fast round of the gRPC client that ends with an accepted reply has seen, before
  anything else, accepting replies of a super quorum; the reply it returns is the one of
  the replica the client takes for the leader.
\<close>

theorem fast_round_accepted:
  assumes "Grpc_fastRound c es = Returned (Some r, nil)" "StatusCode r = ACCEPTED" "0 \<le> gc_f c"
  shows "\<exists>ps rest. es = acks ps @ rest \<and> all_accepted (length (grpc_servers c)) ps \<and>
           int (length ps) = Grpc_superQuorom c \<and> (nat (gc_LeaderId c), r) \<in> set ps"
  by (rule accepted_round [OF assms])

theorem fast_round_accepted_witness:
  "\<exists>ps rest. acks [(2, demo_ack []), (1, demo_ack ''v''), (0, demo_ack [])] = acks ps @ rest \<and>
     all_accepted (length (grpc_servers demo_client)) ps \<and> int (length ps) = Grpc_superQuorom demo_client \<and>
     (1, demo_ack ''v'') \<in> set ps"
  using fast_round_accepted [of demo_client
      "acks [(2, demo_ack []), (1, demo_ack ''v''), (0, demo_ack [])]" "demo_ack ''v''"]
  by (simp add: Grpc_fastRound_def demo_quorum demo_client_def demo_ack_def at_int_def Let_def
      Grpc_superQuorom_def quorum_of_eq)

text \<open>
  When a super quorum of different replicas accepts and the leader is one of them, the
  gRPC client answers with the leader's result, without an error, and counts a fast command.
\<close>

theorem fast_propose_completes:
  assumes "all_accepted (length (grpc_servers c)) ps" "distinct (map fst ps)"
    and "int (length ps) = Grpc_superQuorom c" "0 \<le> gc_f c"
    and "0 \<le> gc_LeaderId c" "(nat (gc_LeaderId c), r) \<in> set ps"
  shows "Grpc_Propose c sync (acks ps @ rest) cmd =
           (c\<lparr>gc_static := (gc_static c)\<lparr>fast := fast (gc_static c) + 1\<rparr>\<rparr>, Returned (Content r, nil))"
proof -
  let ?init = "replicate (length (grpc_servers c)) None"
  from assms(1,6) have lead: "nat (gc_LeaderId c) < length (grpc_servers c)" "StatusCode r = ACCEPTED"
    by (auto simp: all_accepted_def)
  have "ps \<noteq> []" using assms(6) by auto
  from Grpc_loop_quorum [of ?init ps, OF _ this] assms(1,3)
  have "Grpc_fastRound c (acks ps @ rest) =
      (case at_int (fill ?init ps) (gc_LeaderId c) of None \<Rightarrow> Crashed | Some x \<Rightarrow> Returned (x, nil))"
    by (simp add: Grpc_fastRound_def)
  moreover have "at_int (fill ?init ps) (gc_LeaderId c) = Some (Some r)"
    using lead(1) assms(5) fill_hit [OF assms(2,6), of ?init] by (auto simp: at_int_def)
  ultimately show ?thesis using lead(2) by (simp add: Grpc_Propose_def)
qed

theorem fast_propose_completes_witness:
  "snd (Grpc_Propose demo_client (\<lambda>_ _. None)
     (acks [(2, demo_ack []), (1, demo_ack ''v''), (0, demo_ack [])] @ []) zero_command) = Returned (''v'', nil)"
  by (subst fast_propose_completes [where r = "demo_ack ''v''"])
    (simp_all add: all_accepted_def demo_quorum, simp_all add: demo_client_def demo_ack_def)

text \<open>
  C39: with five replicas a super quorum can leave the leader out; the client then
  dereferences the nil slot of the leader and the process ends, although the command was
  accepted. In general this happens whenever a super quorum of accepting replies arrives
  before the leader's.
\<close>

theorem missing_leader_crashes:
  assumes "all_accepted (length (grpc_servers c)) ps" "int (length ps) = Grpc_superQuorom c" "0 \<le> gc_f c"
    and "0 \<le> gc_LeaderId c" "gc_LeaderId c < int (length (grpc_servers c))"
    and "nat (gc_LeaderId c) \<notin> fst ` set ps"
  shows "Grpc_Propose c sync (acks ps @ rest) cmd = (c, Crashed)"
proof -
  let ?init = "replicate (length (grpc_servers c)) None"
  have "ps \<noteq> []" using assms(2,3) by (auto simp: Grpc_superQuorom_def quorum_of_eq)
  from Grpc_loop_quorum [of ?init ps, OF _ this] assms(1,2)
  have "Grpc_fastRound c (acks ps @ rest) =
      (case at_int (fill ?init ps) (gc_LeaderId c) of None \<Rightarrow> Crashed | Some x \<Rightarrow> Returned (x, nil))"
    by (simp add: Grpc_fastRound_def)
  moreover have "at_int (fill ?init ps) (gc_LeaderId c) = Some None"
    using assms(4,5) fill_other [OF assms(6), of ?init] by (simp add: at_int_def nat_less_iff)
  ultimately show ?thesis by (simp add: Grpc_Propose_def)
qed

theorem missing_leader_crashes_witness:
  "Grpc_Propose demo_five (\<lambda>_ _. None)
     (acks [(0, demo_ack []), (1, demo_ack []), (2, demo_ack []), (3, demo_ack [])] @ []) zero_command =
   (demo_five, Crashed)"
  by (rule missing_leader_crashes) (simp_all add: all_accepted_def demo_quorum,
      simp_all add: demo_five_def demo_client_def demo_ack_def)

text \<open>
  With three replicas the missing-leader crash cannot happen, since the super quorum is
  all of them: while no RPC fails and every replica answers at most once, the client never
  crashes.
\<close>

theorem three_replicas_run:
  assumes "length (grpc_servers c) = 3" "gc_f c = 1" "0 \<le> gc_LeaderId c" "gc_LeaderId c < 3"
    and "distinct (arrivals es)" "set (arrivals es) \<subseteq> {..<3}" "\<forall>i. Arrives i None \<notin> set es"
    and "sync (nat (gc_LeaderId c)) (pid cmd) \<noteq> Some None"
  shows "snd (Grpc_Propose c sync es cmd) \<noteq> Crashed"
  using assms by (rule three_replicas_no_crash)

theorem three_replicas_run_witness:
  "snd (Grpc_Propose demo_client (\<lambda>_ _. None) (acks [(2, demo_ack []), (0, demo_ack [])] @ [Tick]) zero_command)
   \<noteq> Crashed"
  by (rule three_replicas_run) (auto simp: demo_client_def)

text \<open>
  The client of the replicas' own process never completes a command on the fast path.
  Its fast round starts from the timeout reply, whose content is empty, and replaces it only
  when its content is not empty; so the round never returns an accepted reply, and every
  command that ends without an error was answered by the slow round.
\<close>

theorem mock_client_always_slow:
  assumes "MockClient_Propose c sync es cmd = Returned (v, nil)"
  shows "MockClient_slowRound c sync cmd = Returned (v, nil)"
proof -
  obtain r e where r: "MockClient_fastRound c es = Returned (r, e)"
    using assms by (auto simp: MockClient_Propose_def split: round.splits)
  then have "StatusCode r \<noteq> ACCEPTED"
    unfolding MockClient_fastRound_def by (rule Mock_loop_not_accepted) (simp_all add: timeout_reply_def)
  with r assms show ?thesis by (auto simp: MockClient_Propose_def split: if_splits)
qed

theorem mock_client_always_slow_witness:
  "MockClient_slowRound \<lparr>Servers = [0], mc_ClientId = 1, mc_SeqId = 0, mc_f = 0, mc_LeaderId = 0\<rparr>
     (\<lambda>_ _. Some (demo_ack ''v'')) zero_command = Returned (''v'', nil)"
  by (rule mock_client_always_slow [where es = "[Arrives 0 (Some (demo_ack ''v''))]"])
    (simp add: MockClient_Propose_def MockClient_fastRound_def MockClient_superQuorom_def quorum_of_eq
      MockClient_slowRound_def at_int_def demo_ack_def timeout_reply_def)

text \<open>
  The identifiers one client gives to its commands are pairwise different for \<open>2^64\<close>
  commands, until the counter wraps; together with different client numbers they identify a
  command.
\<close>

theorem propose_ids_distinct:
  "inj_on (\<lambda>k. snd (Grpc_GetProposeId (((fst \<circ> Grpc_GetProposeId) ^^ k) c))) {..<2 ^ 64}"
proof (rule inj_onI)
  fix j k :: nat
  assume jk: "j \<in> {..<2 ^ 64}" "k \<in> {..<2 ^ 64}"
    and "snd (Grpc_GetProposeId (((fst \<circ> Grpc_GetProposeId) ^^ j) c)) =
         snd (Grpc_GetProposeId (((fst \<circ> Grpc_GetProposeId) ^^ k) c))"
  then have "(of_nat j :: uint64) = of_nat k"
    by (simp only: GetProposeId_steps) (simp add: Grpc_GetProposeId_def Let_def)
  then have "unat (of_nat j :: uint64) = unat (of_nat k :: uint64)" by simp
  with jk show "j = k" by (simp add: unat_of_nat)
qed

text \<open>
  A gRPC client that is constructed has as its leader the last replica that answered
  \<open>IsLeader\<close> with 1; there is no client, and the error \<open>no leader\<close>, exactly when every
  replica answered something else.
\<close>

theorem new_client_leader:
  assumes "NewGrpcClient dial rpc servers clientId = Returned (oc, e)"
  shows "case oc of
      Some c \<Rightarrow> e = nil \<and> gc_f c = failures (length servers) \<and>
        (\<exists>k<length servers. gc_LeaderId c = int k \<and> Grpc_isLeader rpc k = Some True \<and>
           (\<forall>j<length servers. k < j \<longrightarrow> Grpc_isLeader rpc j = Some False))
    | None \<Rightarrow> e = Some (Errorf ''no leader'') \<and> (\<forall>k<length servers. Grpc_isLeader rpc k = Some False)"
  using assms Grpc_fetchLeader_loop_Some [of rpc 0 servers "-1"]
  by (fastforce simp: NewGrpcClient_def Grpc_fetchLeader_def Let_def split: option.splits if_splits)

theorem new_client_leader_witness:
  "\<exists>c. NewGrpcClient (\<lambda>_. nil) (\<lambda>k. (\<lparr>IsLeaderFlag = if k = 1 then 1 else 0\<rparr>, nil)) [''a'', ''b''] 7 =
     Returned (Some c, nil) \<and> gc_LeaderId c = 1"
proof -
  let ?c = "\<lparr>grpc_servers = [''a'', ''b''], gc_ClientId = 7, gc_SeqId = 0, gc_f = 0, gc_LeaderId = 1,
      gc_static = \<lparr>fast = 0, slow = 0\<rparr>\<rparr>"
  have "NewGrpcClient (\<lambda>_. nil) (\<lambda>k. (\<lparr>IsLeaderFlag = if k = 1 then 1 else 0\<rparr>, nil)) [''a'', ''b''] 7 =
      Returned (Some ?c, nil)"
    by (simp add: NewGrpcClient_def Grpc_fetchLeader_def Grpc_isLeader_def failures_def)
  from new_client_leader [OF this] this show ?thesis by auto
qed

text \<open>
  Once the timeout has ticked and the leader has answered the synchronisation request,
  a proposal of the gRPC client has an outcome; and a proposal that timed out reports the
  timeout and changes nothing in the client.
\<close>

theorem propose_ends:
  assumes "Tick \<in> set es" "\<And>k i. sync k i \<noteq> None"
  shows "snd (Grpc_Propose c sync es cmd) \<noteq> Waiting \<and>
         Grpc_Propose c sync (Tick # es) cmd = (c, Returned ([], Some (Errorf ''fast path time out'')))"
  using propose_not_waiting [OF assms] by (simp add: Grpc_Propose_def Grpc_fastRound_def)

theorem propose_ends_witness:
  "snd (Grpc_Propose demo_client (\<lambda>_ _. Some None) [Arrives 0 (Some (demo_ack [])), Tick] zero_command) \<noteq> Waiting"
  using propose_ends [of "[Arrives 0 (Some (demo_ack [])), Tick]" "\<lambda>_ _. Some None"] by simp

end
