(* ===== verification/Cluster.thy ===== *)
theory Cluster
  imports Replica Client
begin

text \<open>
  Replicas and clients together: what an accepting reply of a replica vouches for, and what
  the super quorum of the gRPC client gets out of it.
\<close>

section \<open>What an accepting reply vouches for\<close>

text \<open>The command a handler of \<open>Propose\<close> is serving, and whether it is to be accepted.\<close>

fun proposal :: "goroutine \<Rightarrow> (CurpClientCommand \<times> bool) option" where
  "proposal (ProposeCalled c) = Some (c, False)"
| "proposal (ProposeChecked c isConflict) = Some (c, \<not> isConflict)"
| "proposal (ProposeWaits c isConflict) = Some (c, \<not> isConflict)"
| "proposal (ProposeReceives c isConflict) = Some (c, \<not> isConflict)"
| "proposal (FollowerReplied c r) = Some (c, StatusCode r = ACCEPTED)"
| "proposal (LeaderReplied c r) = Some (c, StatusCode r = ACCEPTED)"
| "proposal _ = None"

text \<open>
  A replica vouches for a command while its witness records the identifier, and after it
  took the command from the committed log.
\<close>

definition vouches :: "'kv node \<Rightarrow> CurpClientCommand \<Rightarrow> bool" where
  "vouches s c \<longleftrightarrow> pid c \<in> pid ` set (consumed s) \<or> pid c \<in> pid ` recorded_cmds (witness s)"

definition committing :: "'kv node \<Rightarrow> CurpClientCommand set" where
  "committing s = (case worker s of NotifiesAsr c \<Rightarrow> {c} | SendsAsr c \<Rightarrow> {c} | RemovesRecord c \<Rightarrow> {c} | _ \<Rightarrow> {})"

definition promise_inv :: "CurpClientCommand set \<Rightarrow> 'kv node \<Rightarrow> bool" where
  "promise_inv C s \<longleftrightarrow>
     witness_inv s \<and> recorded_cmds (witness s) \<subseteq> C \<and> committing s \<subseteq> set (consumed s) \<and>
     (\<forall>g\<in>set (goroutines s). \<forall>c a. proposal g = Some (c, a) \<longrightarrow> c \<in> C \<and> (a \<longrightarrow> vouches s c))"

text \<open>The steps of a replica whose clients send the commands of \<open>C\<close>.\<close>

definition client_step ::
  "CurpClientCommand set \<Rightarrow> 'kv KVStore \<Rightarrow> int \<Rightarrow> 'kv node \<Rightarrow> node_event \<Rightarrow> 'kv node \<Rightarrow> bool" where
  "client_step C K tid s e t \<longleftrightarrow> node_step K tid s e t \<and> (\<forall>c. e = CallPropose c \<longrightarrow> c \<in> C)"

lemma committing_step:
  assumes "node_step K tid s e t" "committing s \<subseteq> set (consumed s)"
  shows "committing t \<subseteq> set (consumed t)"
proof -
  consider "worker_fast K s = Some t" | "worker_slow K s = Some t" | "worker_continue s = Some t"
    | "worker t = worker s" "consumed t = consumed s"
    using worker_frame [OF assms(1)] exec_frame [OF assms(1)] assms(1) by (cases e) (auto simp: node_step_def)
  then show ?thesis
  proof cases
    case 1
    then show ?thesis
      by (auto simp: committing_def elim!: worker_fast_cases dest!: execute_frame [OF disjI1])
  next
    case 2
    then show ?thesis
      by (auto simp: committing_def elim!: worker_slow_cases dest!: execute_frame [OF disjI2])
  next
    case 3
    with assms(2) show ?thesis
      by (auto simp: committing_def worker_continue_def removeRecord_def
          split: worker_pc.splits outcome.splits if_splits)
  qed (use assms(2) in \<open>simp add: committing_def\<close>)
qed

text \<open>How a step moves the witness: a handler records its command, or the worker forgets
  the committed command it is at.\<close>

lemma goroutine_records:
  assumes "goroutine_step tid s g = Some (t, gs)"
  shows "witness t = witness s \<or>
    (\<exists>c. proposal g = Some (c, False) \<and> witness t = fst (InsertIfNotConflict (witness s) c))"
  using assms
  by (cases g)
    (auto simp: Propose_witness_def split: prod.splits option.splits dispatch.splits
      outcome.splits if_splits)

lemma witness_moves:
  assumes "node_step K tid s e t"
  shows "witness t = witness s \<or>
    (\<exists>g\<in>set (goroutines s). \<exists>c. proposal g = Some (c, False) \<and>
        witness t = fst (InsertIfNotConflict (witness s) c)) \<or>
    (\<exists>c\<in>committing s. witness t = Remove (witness s) (pid c))"
proof (cases e)
  case (Sched n)
  with assms obtain u gs where "goroutine_step tid s (goroutines s ! n) = Some (u, gs)"
      "witness t = witness u" "n < length (goroutines s)"
    by (auto simp: node_step_def split: option.splits if_splits)
  with goroutine_records show ?thesis by (metis nth_mem)
next
  case WorkerFast
  with assms show ?thesis
    by (auto simp: node_step_def elim!: worker_fast_cases dest!: execute_frame [OF disjI1])
next
  case WorkerSlow
  with assms show ?thesis
    by (auto simp: node_step_def elim!: worker_slow_cases dest!: execute_frame [OF disjI2])
next
  case WorkerContinue
  with assms show ?thesis
    by (auto simp: node_step_def worker_continue_def removeRecord_def committing_def
        split: worker_pc.splits outcome.splits if_splits)
qed (use assms in \<open>auto simp: node_step_def listenRaftState_def readCommits_frames
    split: option.splits if_splits\<close>)

lemma recorded_insert:
  assumes "witness_ok w"
  shows "recorded_cmds (fst (InsertIfNotConflict w c)) \<subseteq> insert c (recorded_cmds w)"
    and "pid ` recorded_cmds w \<subseteq> pid ` recorded_cmds (fst (InsertIfNotConflict w c))"
    and "\<not> snd (InsertIfNotConflict w c) \<Longrightarrow> c \<in> recorded_cmds (fst (InsertIfNotConflict w c))"
  using wit.record_refused [OF assms, of c] wit.record_accepted [OF assms, of c]
  by (cases "snd (InsertIfNotConflict w c)"; auto)+

lemma consumed_grows:
  assumes "node_step K tid s e t" shows "set (consumed s) \<subseteq> set (consumed t)"
proof (cases "e = WorkerFast \<or> e = WorkerSlow")
  case True
  with assms show ?thesis
    by (auto simp: node_step_def elim!: worker_fast_cases worker_slow_cases
        dest!: execute_frame [OF disjI1] execute_frame [OF disjI2])
qed (use assms exec_frame in fastforce)

lemma vouches_step:
  assumes "node_step K tid s e t" "promise_inv C s" "vouches s c"
  shows "vouches t c"
proof -
  from assms(2) have ok: "witness_ok (witness s)" and com: "committing s \<subseteq> set (consumed s)"
    by (simp_all add: promise_inv_def witness_inv_def)
  have "pid ` recorded_cmds (witness s) \<subseteq> pid ` recorded_cmds (witness t) \<union> pid ` set (consumed s)"
    using witness_moves [OF assms(1)]
  proof (elim disjE bexE exE conjE)
    fix d assume "d \<in> committing s" "witness t = Remove (witness s) (pid d)"
    with com wit.forget_recorded [OF ok, of "pid d"] show ?thesis by auto
  qed (use recorded_insert(2) [OF ok] in auto)
  with assms(3) consumed_grows [OF assms(1)] show ?thesis unfolding vouches_def by blast
qed

lemma recorded_step:
  assumes "node_step K tid s e t" "promise_inv C s"
  shows "recorded_cmds (witness t) \<subseteq> C"
proof -
  from assms(2) have ok: "witness_ok (witness s)" and sub: "recorded_cmds (witness s) \<subseteq> C"
    and gs: "\<And>g c a. g \<in> set (goroutines s) \<Longrightarrow> proposal g = Some (c, a) \<Longrightarrow> c \<in> C"
    by (auto simp: promise_inv_def witness_inv_def)
  from witness_moves [OF assms(1)] show ?thesis
  proof (elim disjE bexE exE conjE)
    fix g c assume "g \<in> set (goroutines s)" "proposal g = Some (c, False)"
      "witness t = fst (InsertIfNotConflict (witness s) c)"
    moreover from this(1,2) have "c \<in> C" by (rule gs)
    ultimately show ?thesis using recorded_insert(1) [OF ok, of c] sub by auto
  qed (use sub wit.forget_recorded [OF ok] in auto)
qed

lemma reply_status [simp]:
  "(StatusCode (Propose_reply r isConflict) = ACCEPTED) = (\<not> isConflict)"
  by (simp add: Propose_reply_def Let_def)

lemma locked_status:
  "Propose_locked tid s c isConflict = Answer r \<Longrightarrow> (StatusCode r = ACCEPTED) = (\<not> isConflict)"
  by (auto simp: Propose_locked_def Let_def split: option.splits if_splits)

lemma goroutine_proposal:
  assumes "goroutine_step tid s g = Some (t, gs)" "h \<in> set gs" "proposal h = Some (c, a)"
  shows "proposal g = Some (c, a) \<or>
    proposal g = Some (c, False) \<and> (a \<longrightarrow> \<not> snd (InsertIfNotConflict (witness s) c)) \<and>
    witness t = fst (InsertIfNotConflict (witness s) c)"
  using assms
  by (cases g)
    (auto simp: Propose_witness_def split: prod.splits option.splits dispatch.splits
      outcome.splits if_splits dest: locked_status)

lemma promise_goroutine:
  assumes "goroutine_step tid s g = Some (u, gs)" "g \<in> set (goroutines s)" "promise_inv C s"
    and "h \<in> set gs" "proposal h = Some (c, a)"
  shows "c \<in> C \<and> (a \<longrightarrow> vouches s c \<or> c \<in> recorded_cmds (witness u))"
proof -
  from assms(2,3) have g: "\<And>b. proposal g = Some (c, b) \<Longrightarrow> c \<in> C \<and> (b \<longrightarrow> vouches s c)"
    and ok: "witness_ok (witness s)" by (auto simp: promise_inv_def witness_inv_def)
  from goroutine_proposal [OF assms(1,4,5)] show ?thesis
    using g recorded_insert(3) [OF ok] by auto
qed

lemma goroutines_frame:
  assumes "node_step K tid s e t" "\<And>c. e \<noteq> CallPropose c" "\<And>i. e \<noteq> CallSync i" "\<And>n. e \<noteq> Sched n"
  shows "goroutines t = goroutines s"
proof (cases e)
  case WorkerFast
  with assms(1) show ?thesis
    by (auto simp: node_step_def elim!: worker_fast_cases dest!: execute_frame [OF disjI1])
next
  case WorkerSlow
  with assms(1) show ?thesis
    by (auto simp: node_step_def elim!: worker_slow_cases dest!: execute_frame [OF disjI2])
qed (use assms in \<open>auto simp: node_step_def listenRaftState_def worker_continue_frame
    readCommits_frames split: option.splits if_splits\<close>)

lemma promise_proposals:
  assumes "client_step C K tid s e t" "promise_inv C s" "g \<in> set (goroutines t)" "proposal g = Some (c, a)"
  shows "c \<in> C \<and> (a \<longrightarrow> vouches t c)"
proof -
  from assms(1) have st: "node_step K tid s e t" by (simp add: client_step_def)
  note keeps = vouches_step [OF st assms(2)]
  have old: ?thesis if "g \<in> set (goroutines s)"
    using assms(2,4) that keeps by (fastforce simp: promise_inv_def)
  show ?thesis
  proof (cases e)
    case (CallPropose d)
    with assms(1,3) have "g \<in> set (goroutines s) \<or> g = ProposeCalled d" "d \<in> C"
      by (auto simp: client_step_def node_step_def)
    with old assms(4) show ?thesis by auto
  next
    case (Sched n)
    with st obtain u gs where u: "n < length (goroutines s)" "goroutine_step tid s (goroutines s ! n) = Some (u, gs)"
        "t = u\<lparr>goroutines := replace_at n gs (goroutines s)\<rparr>"
      by (auto simp: node_step_def split: option.splits if_splits)
    show ?thesis
    proof (cases "g \<in> set gs")
      case True
      from promise_goroutine [OF u(2) nth_mem [OF u(1)] assms(2) this assms(4)] u(3) keeps [of c]
      show ?thesis by (auto simp: vouches_def)
    next
      case False
      with u(3) assms(3) set_replace_at [of n gs "goroutines s"] show ?thesis by (intro old) auto
    qed
  next
    case (CallSync i)
    with st assms(3) have "g \<in> set (goroutines s) \<or> g = SyncCalled i" by (auto simp: node_step_def)
    with old assms(4) show ?thesis by auto
  qed (use old goroutines_frame [OF st] assms(3) in simp_all)
qed

lemma promise_step:
  assumes "client_step C K tid s e t" "promise_inv C s"
  shows "promise_inv C t"
proof -
  have st: "node_step K tid s e t" using assms(1) by (simp add: client_step_def)
  have "witness_inv s" "committing s \<subseteq> set (consumed s)" using assms(2) by (simp_all add: promise_inv_def)
  then show ?thesis
    using witness_step [OF st] committing_step [OF st] recorded_step [OF st assms(2)]
      promise_proposals [OF assms]
    unfolding promise_inv_def [of C t] by blast
qed

lemma new_node_promise: "promise_inv C (new_node n kv)"
  using new_node_invs(4) wit.fresh_recorded
  by (simp add: promise_inv_def committing_def) (simp add: new_node_defs)

interpretation promises: invariant_of "starts kv" "client_step C K tid" "promise_inv C" for kv C K tid
  by unfold_locales (auto simp: new_node_promise dest: promise_step)

section \<open>Rounds over a cluster\<close>

text \<open>
  A cluster is its replicas, by index. A replica keeps its finished handlers, so a reply was
  sent when the replica holds it.
\<close>

definition answered :: "'kv node \<Rightarrow> CurpClientCommand \<Rightarrow> CurpReply \<Rightarrow> bool" where
  "answered s c r \<longleftrightarrow> FollowerReplied c r \<in> set (goroutines s) \<or> LeaderReplied c r \<in> set (goroutines s)"

definition replies_from :: "'kv node list \<Rightarrow> CurpClientCommand \<Rightarrow> fast_event list \<Rightarrow> bool" where
  "replies_from cluster cmd es \<longleftrightarrow>
     distinct (arrivals es) \<and>
     (\<forall>i r. Arrives i (Some r) \<in> set es \<longrightarrow> i < length cluster \<and> answered (cluster ! i) cmd r)"

definition serves :: "CurpClientCommand set \<Rightarrow> int \<Rightarrow> MemStore node list \<Rightarrow> bool" where
  "serves C tid cluster \<longleftrightarrow> (\<forall>s\<in>set cluster. reach mem_start (client_step C MemStore_KVStore tid) s)"

lemma reach_client_node:
  "reach init (client_step C K tid) s \<Longrightarrow> reach init (node_step K tid) s"
  by (induction rule: reach.induct) (auto intro: reach.intros simp: client_step_def)

lemma serves_promise: "serves C tid cluster \<Longrightarrow> i < length cluster \<Longrightarrow> promise_inv C (cluster ! i)"
  unfolding serves_def by (metis nth_mem promises.holds_reachable)

lemma accepted_answer:
  assumes "promise_inv C s" "answered s c r" "StatusCode r = ACCEPTED"
  shows "c \<in> C \<and> vouches s c"
proof -
  from assms(2,3) have "\<exists>g\<in>set (goroutines s). proposal g = Some (c, True)"
    by (force simp: answered_def)
  with assms(1) show ?thesis by (auto simp: promise_inv_def)
qed

lemma conflicting_vouched:
  assumes "promise_inv C s" "inj_on pid C" "c \<in> C" "d \<in> C" "vouches s c" "vouches s d"
    and "Conflict c d" "pid c \<noteq> pid d"
  shows "pid c \<in> pid ` set (consumed s) \<or> pid d \<in> pid ` set (consumed s)"
proof (rule ccontr)
  assume none: "\<not> ?thesis"
  have sub: "recorded_cmds (witness s) \<subseteq> C" and comp: "compatible (recorded_cmds (witness s))"
    using assms(1) by (simp_all add: promise_inv_def witness_inv_def)
  have "x \<in> recorded_cmds (witness s)" if "x \<in> C" "vouches s x" "pid x \<notin> pid ` set (consumed s)" for x
    using that sub assms(2) by (auto simp: vouches_def dest: inj_onD)
  with none assms(3-6) have "c \<in> recorded_cmds (witness s)" "d \<in> recorded_cmds (witness s)" by auto
  with comp assms(7,8) show False by (auto simp: compatible_def)
qed

text \<open>The peers behind an accepted fast round.\<close>

lemma accepted_peers:
  assumes "es = acks ps @ rest" "all_accepted n ps" "replies_from cluster cmd es"
    and "serves C tid cluster"
  shows "card (fst ` set ps) = length ps" "fst ` set ps \<subseteq> {..<length cluster}"
    "\<And>i. i \<in> fst ` set ps \<Longrightarrow> cmd \<in> C \<and> vouches (cluster ! i) cmd"
proof -
  have "distinct (map fst ps)" using assms(1,3) by (simp add: replies_from_def)
  then show "card (fst ` set ps) = length ps" by (metis distinct_card length_map set_map)
  have ans: "i < length cluster \<and> answered (cluster ! i) cmd r \<and> StatusCode r = ACCEPTED"
    if "(i, r) \<in> set ps" for i r
  proof -
    have "Arrives i (Some r) \<in> set es" using that assms(1) by force
    with that assms(2,3) show ?thesis by (auto simp: replies_from_def all_accepted_def)
  qed
  then show "fst ` set ps \<subseteq> {..<length cluster}" by force
  show "cmd \<in> C \<and> vouches (cluster ! i) cmd" if "i \<in> fst ` set ps" for i
    using that ans accepted_answer [OF serves_promise [OF assms(4)]] by force
qed

lemma fast_round_peers:
  assumes "Grpc_fastRound a es = Returned (Some r, nil)" "StatusCode r = ACCEPTED" "0 \<le> gc_f a"
    and "length (grpc_servers a) = length cluster" "replies_from cluster c es" "serves C tid cluster"
  shows "\<exists>A \<subseteq> {..<length cluster}. quorum_of (gc_f a) \<le> int (card A) \<and>
           (\<forall>i\<in>A. c \<in> C \<and> vouches (cluster ! i) c)"
proof -
  obtain ps rest where ps: "es = acks ps @ rest" "all_accepted (length (grpc_servers a)) ps"
      "int (length ps) = quorum_of (gc_f a)"
    using accepted_round [OF assms(1-3)] by (auto simp: Grpc_superQuorom_def)
  note peers = accepted_peers [OF ps(1,2) assms(5,6)]
  show ?thesis
    using peers ps(3) by (intro exI [of _ "fst ` set ps"]) auto
qed

lemma fast_round_leader:
  assumes "Grpc_fastRound a es = Returned (Some r, nil)" "StatusCode r = ACCEPTED" "0 \<le> gc_f a"
  shows "Arrives (nat (gc_LeaderId a)) (Some r) \<in> set es"
  using accepted_round [OF assms] by force

text \<open>The reply of a replica that did not act as leader is empty.\<close>

definition follower_replies_inv :: "'kv node \<Rightarrow> bool" where
  "follower_replies_inv s \<longleftrightarrow> (\<forall>c r. FollowerReplied c r \<in> set (goroutines s) \<longrightarrow> Content r = [])"

lemma follower_replies_step:
  assumes "node_step K tid s e t" "follower_replies_inv s" shows "follower_replies_inv t"
proof -
  have "Content r = []" if "goroutine_step tid s g = Some (u, gs)" "FollowerReplied c r \<in> set gs" for g u gs c r
    using that
    by (cases g) (auto simp: Propose_witness_def Propose_locked_def Let_def
        split: prod.splits option.splits dispatch.splits outcome.splits if_splits)
  with node_goroutines [OF assms(1)] assms(2) show ?thesis
    unfolding follower_replies_inv_def by blast
qed

interpretation follower_replies: invariant_of "starts kv" "node_step K tid" follower_replies_inv for kv K tid
  by unfold_locales
    (auto simp: follower_replies_inv_def new_node_defs dest: follower_replies_step [unfolded follower_replies_inv_def])

lemma run_client:
  "run (node_step K tid) s es t \<Longrightarrow> (\<And>c. CallPropose c \<in> set es \<Longrightarrow> c \<in> C) \<Longrightarrow>
   run (client_step C K tid) s es t"
  by (induction rule: run.induct) (auto intro: run.intros simp: client_step_def)

end
