(* ===== verification/Raft_Node.thy ===== *)
theory Raft_Node
  imports State_Machine
begin

text \<open>
  The raft node of \<open>curp/raft.go\<close>: what the event loop does with the batches the raft
  library hands it. The library (\<open>go.etcd.io/etcd\<close>) is outside: its \<open>Node\<close> is a state
  of type \<open>'n\<close> with the operations of the record \<open>raft_lib\<close>, the results of the calls that
  can fail are arguments, and every call the program makes for its effect is an element of
  the list \<open>effects\<close>, in the order of the calls. Where a \<open>select\<close> chooses, the choice is
  an argument.
\<close>

section \<open>Data\<close>

datatype EntryType = EntryNormal | EntryConfChange | EntryConfChangeV2

record Entry =
  ent_Term :: uint64
  ent_Index :: uint64
  ent_Type :: EntryType
  ent_Data :: string

datatype ConfChangeType = ConfChangeAddNode | ConfChangeRemoveNode | ConfChangeUpdateNode | ConfChangeAddLearnerNode

record ConfChange =
  cc_ID :: uint64
  cc_Type :: ConfChangeType
  cc_NodeID :: uint64
  cc_Context :: string

record 'c Snapshot =
  sn_Data :: string
  sn_ConfState :: 'c
  sn_Index :: uint64
  sn_Term :: uint64

record 'c WalSnapshot =
  ws_Index :: uint64
  ws_Term :: uint64
  ws_ConfState :: "'c option"

record ('c, 'm) Ready =
  rd_SoftState :: "StateType option"
  rd_Entries :: "Entry list"
  rd_Snapshot :: "'c Snapshot"
  rd_CommittedEntries :: "Entry list"
  rd_Messages :: "'m list"

text \<open>
  The calls. \<open>WalSave\<close> is the call \<open>wal.Save\<close> that writes entries to the write-ahead log; it stands
  commented out in the source, and the constructor is there to state that it is never made.
\<close>

datatype ('c, 'm) effect =
    WalSave "Entry list" | SaveSnap "'c Snapshot" | WalSaveSnapshot "'c WalSnapshot" | ReleaseLockTo uint64
  | ApplySnapshot "'c Snapshot" | AppendEntries "Entry list" | SendMessages "'m list"
  | CreateSnapshot uint64 'c "string option" | Compact uint64
  | CommitSent "string list option"
  | AddPeer uint64 "string list" | RemovePeer uint64
  | SendState StateType | Advance | TickNode
  | ProposeData string | ProposeConfChange ConfChange | CloseStopC
  | StopHTTP | CloseCommitC | SendError error | CloseErrorC | StopNode

record ('n, 'c) raft_lib =
  Unmarshal :: "string \<Rightarrow> ConfChange"
  ApplyConfChange :: "'n \<Rightarrow> ConfChange \<Rightarrow> 'n \<times> 'c"

record ('n, 'c, 'm) curpNode =
  rc_id :: int
  rc_peers :: "string list"
  rc_join :: bool
  waldir :: string
  snapdir :: string
  confState :: 'c
  snapshotIndex :: uint64
  appliedIndex :: uint64
  rc_node :: 'n
  snapCount :: uint64
  rc_raftState :: StateType
  effects :: "('c, 'm) effect list"

definition defaultSnapshotCount :: uint64 where "defaultSnapshotCount = 10000"

definition snapshotCatchUpEntriesN :: uint64 where "snapshotCatchUpEntriesN = 10000"

definition emit :: "('c, 'm) effect \<Rightarrow> ('n, 'c, 'm) curpNode \<Rightarrow> ('n, 'c, 'm) curpNode" where
  "emit e rc = rc\<lparr>effects := effects rc @ [e]\<rparr>"

lemma emit_fields [simp]:
  "effects (emit e rc) = effects rc @ [e]" "appliedIndex (emit e rc) = appliedIndex rc"
  "snapshotIndex (emit e rc) = snapshotIndex rc" "rc_id (emit e rc) = rc_id rc"
  "rc_raftState (emit e rc) = rc_raftState rc" "confState (emit e rc) = confState rc"
  "rc_node (emit e rc) = rc_node rc" "snapCount (emit e rc) = snapCount rc"
  by (simp_all add: emit_def)

section \<open>Publishing\<close>

text \<open>\<open>None\<close> is the \<open>log.Fatalf\<close>; the index arithmetic is that of \<open>uint64\<close>.\<close>

definition entriesToApply :: "('n, 'c, 'm) curpNode \<Rightarrow> Entry list \<Rightarrow> Entry list option" where
  "entriesToApply rc ents =
     (if length ents = 0 then Some ents
      else let firstIdx = ent_Index (ents ! 0) in
        if firstIdx > appliedIndex rc + 1 then None
        else if appliedIndex rc - firstIdx + 1 < of_nat (length ents)
        then Some (drop (unat (appliedIndex rc - firstIdx + 1)) ents)
        else Some [])"

text \<open>
  The loop over the entries. It returns the node, the data collected so far, and whether it
  ran to the end: a configuration change that removes this node leaves the function.
\<close>

fun publish_loop ::
  "('n, 'c) raft_lib \<Rightarrow> Entry list \<Rightarrow> string list \<Rightarrow> ('n, 'c, 'm) curpNode \<Rightarrow>
   ('n, 'c, 'm) curpNode \<times> string list \<times> bool" where
  "publish_loop L [] data rc = (rc, data, True)"
| "publish_loop L (ent # ents) data rc =
     (case ent_Type ent of
        EntryNormal \<Rightarrow>
          if length (ent_Data ent) = 0 then publish_loop L ents data rc
          else publish_loop L ents (data @ [ent_Data ent]) rc
      | EntryConfChange \<Rightarrow>
          let cc = Unmarshal L (ent_Data ent);
              (n, cs) = ApplyConfChange L (rc_node rc) cc;
              rc1 = rc\<lparr>rc_node := n, confState := cs\<rparr> in
          (case cc_Type cc of
             ConfChangeAddNode \<Rightarrow>
               if length (cc_Context cc) > 0
               then publish_loop L ents data (emit (AddPeer (cc_NodeID cc) [cc_Context cc]) rc1)
               else publish_loop L ents data rc1
           | ConfChangeRemoveNode \<Rightarrow>
               if cc_NodeID cc = word_of_int (rc_id rc1) then (rc1, data, False)
               else publish_loop L ents data (emit (RemovePeer (cc_NodeID cc)) rc1)
           | _ \<Rightarrow> publish_loop L ents data rc1)
      | EntryConfChangeV2 \<Rightarrow> publish_loop L ents data rc)"

text \<open>
  \<open>stopped\<close>: the \<open>select\<close> took the branch of the closed stop channel instead of sending the
  commit. The result says whether everything was published.
\<close>

definition publishEntries ::
  "('n, 'c) raft_lib \<Rightarrow> bool \<Rightarrow> ('n, 'c, 'm) curpNode \<Rightarrow> Entry list \<Rightarrow> ('n, 'c, 'm) curpNode \<times> bool" where
  "publishEntries L stopped rc ents =
     (if length ents = 0 then (rc, True)
      else case publish_loop L ents [] rc of
        (rc1, data, False) \<Rightarrow> (rc1, False)
      | (rc1, data, True) \<Rightarrow>
          if length data > 0 then
            if stopped then (rc1, False)
            else ((emit (CommitSent (Some data)) rc1)\<lparr>appliedIndex := ent_Index (ents ! (length ents - 1))\<rparr>, True)
          else (rc1\<lparr>appliedIndex := ent_Index (ents ! (length ents - 1))\<rparr>, True))"

section \<open>Snapshots\<close>

text \<open>\<open>raft.IsEmptySnap\<close>: a snapshot at index 0.\<close>

definition IsEmptySnap :: "'c Snapshot \<Rightarrow> bool" where
  "IsEmptySnap sp = (sn_Index sp = 0)"

text \<open>The three calls of \<open>saveSnap\<close> with the errors they return.\<close>

definition saveSnap ::
  "err \<times> err \<times> err \<Rightarrow> ('n, 'c, 'm) curpNode \<Rightarrow> 'c Snapshot \<Rightarrow> ('n, 'c, 'm) curpNode \<times> err" where
  "saveSnap errs rc snap =
     (case errs of (e1, e2, e3) \<Rightarrow>
        let walSnap = \<lparr>ws_Index = sn_Index snap, ws_Term = sn_Term snap, ws_ConfState = Some (sn_ConfState snap)\<rparr>;
            rc1 = emit (SaveSnap snap) rc in
        if e1 \<noteq> nil then (rc1, e1)
        else let rc2 = emit (WalSaveSnapshot walSnap) rc1 in
          if e2 \<noteq> nil then (rc2, e2)
          else (emit (ReleaseLockTo (sn_Index snap)) rc2, e3))"

definition publishSnapshot ::
  "('n, 'c, 'm) curpNode \<Rightarrow> 'c Snapshot \<Rightarrow> ('n, 'c, 'm) curpNode option" where
  "publishSnapshot rc snapshotToSave =
     (if IsEmptySnap snapshotToSave then Some rc
      else if sn_Index snapshotToSave \<le> appliedIndex rc then None
      else Some ((emit (CommitSent None) rc)\<lparr>confState := sn_ConfState snapshotToSave,
                   snapshotIndex := sn_Index snapshotToSave, appliedIndex := sn_Index snapshotToSave\<rparr>))"

text \<open>
  \<open>maybeTriggerSnapshot\<close>, which the event loop no longer calls. \<open>applyDoneC\<close> is the channel
  it waits on, \<open>None\<close> for a nil channel, otherwise whether the wait ended by the stop channel;
  \<open>getSnap\<close>, \<open>created\<close>, \<open>errs\<close> and \<open>compacted\<close> are the results of the calls. \<open>None\<close> is a panic.
\<close>

definition maybeTriggerSnapshot ::
  "bool option \<Rightarrow> string option \<times> err \<Rightarrow> 'c Snapshot \<times> err \<Rightarrow> err \<times> err \<times> err \<Rightarrow> err \<Rightarrow>
   ('n, 'c, 'm) curpNode \<Rightarrow> ('n, 'c, 'm) curpNode option" where
  "maybeTriggerSnapshot applyDoneC getSnap created errs compacted rc =
     (if appliedIndex rc - snapshotIndex rc \<le> snapCount rc then Some rc
      else if applyDoneC = Some True then Some rc
      else case getSnap of (data, e) \<Rightarrow>
        if e \<noteq> nil then None
        else let rc1 = emit (CreateSnapshot (appliedIndex rc) (confState rc) data) rc in
          (case created of (snap, e) \<Rightarrow>
             if e \<noteq> nil then None
             else case saveSnap errs rc1 snap of (rc2, e) \<Rightarrow>
               if e \<noteq> nil then None
               else let compactIndex = (if appliedIndex rc2 > snapshotCatchUpEntriesN
                                        then appliedIndex rc2 - snapshotCatchUpEntriesN else 1);
                        rc3 = emit (Compact compactIndex) rc2 in
                 if compacted \<noteq> nil then None
                 else Some (rc3\<lparr>snapshotIndex := appliedIndex rc3\<rparr>)))"

section \<open>The event loop\<close>

definition stopHTTP :: "('n, 'c, 'm) curpNode \<Rightarrow> ('n, 'c, 'm) curpNode" where
  "stopHTTP rc = emit StopHTTP rc"

definition stop :: "('n, 'c, 'm) curpNode \<Rightarrow> ('n, 'c, 'm) curpNode" where
  "stop rc = emit StopNode (emit CloseErrorC (emit CloseCommitC (stopHTTP rc)))"

definition writeError :: "('n, 'c, 'm) curpNode \<Rightarrow> error \<Rightarrow> ('n, 'c, 'm) curpNode" where
  "writeError rc e = emit StopNode (emit CloseErrorC (emit (SendError e) (emit CloseCommitC (stopHTTP rc))))"

text \<open>Where the loop stands after an event: it goes on, has returned, or ended the process.\<close>

datatype 's loop = Goes 's | Returns 's | Fatal

text \<open>The case of a \<open>Ready\<close> batch; the error of \<open>saveSnap\<close> is dropped by the source.\<close>

definition handleReady ::
  "('n, 'c) raft_lib \<Rightarrow> err \<times> err \<times> err \<Rightarrow> bool \<Rightarrow> ('n, 'c, 'm) curpNode \<Rightarrow> ('c, 'm) Ready \<Rightarrow>
   ('n, 'c, 'm) curpNode loop" where
  "handleReady L errs stopped rc rd =
     (case (if \<not> IsEmptySnap (rd_Snapshot rd)
            then publishSnapshot (emit (ApplySnapshot (rd_Snapshot rd)) (fst (saveSnap errs rc (rd_Snapshot rd))))
                   (rd_Snapshot rd)
            else Some rc) of
        None \<Rightarrow> Fatal
      | Some rc1 \<Rightarrow>
          let rc2 = emit (SendMessages (rd_Messages rd)) (emit (AppendEntries (rd_Entries rd)) rc1) in
          (case entriesToApply rc2 (rd_CommittedEntries rd) of
             None \<Rightarrow> Fatal
           | Some ents \<Rightarrow>
               (case publishEntries L stopped rc2 ents of
                  (rc3, False) \<Rightarrow> Returns (stop rc3)
                | (rc3, True) \<Rightarrow>
                    let rc4 = (case rd_SoftState rd of
                                 None \<Rightarrow> rc3
                               | Some newRaftState \<Rightarrow>
                                   if rc_raftState rc3 \<noteq> newRaftState
                                   then emit (SendState newRaftState) (rc3\<lparr>rc_raftState := newRaftState\<rparr>)
                                   else rc3) in
                    Goes (emit Advance rc4))))"

datatype ('c, 'm) raft_event =
  TickerFired | ReadyCame "err \<times> err \<times> err" bool "('c, 'm) Ready" | TransportError error | Stopped

fun serveChannels_case ::
  "('n, 'c) raft_lib \<Rightarrow> ('n, 'c, 'm) curpNode \<Rightarrow> ('c, 'm) raft_event \<Rightarrow> ('n, 'c, 'm) curpNode loop" where
  "serveChannels_case L rc TickerFired = Goes (emit TickNode rc)"
| "serveChannels_case L rc (ReadyCame errs stopped rd) = handleReady L errs stopped rc rd"
| "serveChannels_case L rc (TransportError e) = Returns (writeError rc e)"
| "serveChannels_case L rc Stopped = Returns (stop rc)"

fun serveChannels_loop ::
  "('n, 'c) raft_lib \<Rightarrow> ('n, 'c, 'm) curpNode \<Rightarrow> ('c, 'm) raft_event list \<Rightarrow> ('n, 'c, 'm) curpNode loop" where
  "serveChannels_loop L rc [] = Goes rc"
| "serveChannels_loop L rc (e # es) =
     (case serveChannels_case L rc e of
        Goes rc1 \<Rightarrow> serveChannels_loop L rc1 es
      | Returns rc1 \<Rightarrow> Returns rc1
      | Fatal \<Rightarrow> Fatal)"

text \<open>\<open>serveChannels\<close> from the snapshot the storage holds when it starts; an error there panics.\<close>

definition serveChannels ::
  "('n, 'c) raft_lib \<Rightarrow> 'c Snapshot \<times> err \<Rightarrow> ('n, 'c, 'm) curpNode \<Rightarrow> ('c, 'm) raft_event list \<Rightarrow>
   ('n, 'c, 'm) curpNode loop" where
  "serveChannels L snapshot rc es =
     (case snapshot of (snap, e) \<Rightarrow>
        if e \<noteq> nil then Fatal
        else serveChannels_loop L (rc\<lparr>confState := sn_ConfState snap, snapshotIndex := sn_Index snap,
                                     appliedIndex := sn_Index snap\<rparr>) es)"

text \<open>
  The goroutine that sends proposals over raft: what it receives, \<open>None\<close> for a channel that was
  closed, and what it does. It ends, closing the stop channel, when one of them is closed.
\<close>

datatype proposal_event = GotProposal "string option" | GotConfChange "ConfChange option"

fun proposals_loop :: "uint64 \<Rightarrow> proposal_event list \<Rightarrow> ('c, 'm) effect list" where
  "proposals_loop confChangeCount [] = []"
| "proposals_loop confChangeCount (GotProposal None # es) = [CloseStopC]"
| "proposals_loop confChangeCount (GotProposal (Some prop) # es) =
     ProposeData prop # proposals_loop confChangeCount es"
| "proposals_loop confChangeCount (GotConfChange None # es) = [CloseStopC]"
| "proposals_loop confChangeCount (GotConfChange (Some cc) # es) =
     ProposeConfChange (cc\<lparr>cc_ID := confChangeCount + 1\<rparr>) # proposals_loop (confChangeCount + 1) es"

section \<open>What is published\<close>

text \<open>
  A log whose entries have consecutive indices after \<open>b\<close>, the data of its ordinary entries,
  and what a list of effects sent to the commit channel.
\<close>

definition log_from :: "nat \<Rightarrow> Entry list \<Rightarrow> bool" where
  "log_from b ents \<longleftrightarrow> b + length ents < 2 ^ 64 - 1 \<and> (\<forall>i<length ents. unat (ent_Index (ents ! i)) = b + 1 + i)"

definition normal_data :: "Entry list \<Rightarrow> string list" where
  "normal_data ents = map ent_Data (filter (\<lambda>e. ent_Type e = EntryNormal \<and> ent_Data e \<noteq> []) ents)"

definition published :: "('c, 'm) effect list \<Rightarrow> string list" where
  "published es = concat (map (\<lambda>e. case e of CommitSent (Some data) \<Rightarrow> data | _ \<Rightarrow> []) es)"

lemma published_append [simp]: "published (es @ fs) = published es @ published fs"
  by (simp add: published_def)

lemma published_simps [simp]:
  "published (e # es) = (case e of CommitSent (Some data) \<Rightarrow> data | _ \<Rightarrow> []) @ published es" "published [] = []"
  by (simp_all add: published_def)

lemma normal_data_append [simp]: "normal_data (xs @ ys) = normal_data xs @ normal_data ys"
  by (simp add: normal_data_def)

lemma publish_loop_spec:
  assumes "publish_loop L ents data rc = (rc', data', fin)"
  shows "appliedIndex rc' = appliedIndex rc \<and> published (effects rc') = published (effects rc) \<and>
    (fin \<longrightarrow> data' = data @ normal_data ents)"
  using assms
proof (induction ents arbitrary: data rc)
  case (Cons ent ents)
  show ?case
  proof (cases "ent_Type ent")
    case EntryConfChange
    obtain n cs where a: "ApplyConfChange L (rc_node rc) (Unmarshal L (ent_Data ent)) = (n, cs)" by fastforce
    have skip: "normal_data (ent # ents) = normal_data ents"
      using EntryConfChange by (simp add: normal_data_def)
    show ?thesis
      using Cons.prems a skip
      by (auto simp: EntryConfChange Let_def split: ConfChangeType.splits if_splits dest!: Cons.IH)
  next
    case EntryNormal
    with Cons.prems Cons.IH show ?thesis
      by (cases "ent_Data ent = []") (fastforce simp: normal_data_def)+
  next
    case EntryConfChangeV2
    with Cons.prems Cons.IH show ?thesis by (fastforce simp: normal_data_def)
  qed
qed (simp add: normal_data_def)

lemma publishEntries_spec:
  assumes "publishEntries L stopped rc ents = (rc', True)"
  shows "published (effects rc') = published (effects rc) @ normal_data ents \<and>
         appliedIndex rc' = (if ents = [] then appliedIndex rc else ent_Index (last ents))"
proof (cases "ents = []")
  case False
  obtain rc1 data fin where l: "publish_loop L ents [] rc = (rc1, data, fin)" by (metis prod_cases3)
  from publish_loop_spec [OF l] False assms l show ?thesis
    by (auto simp: publishEntries_def last_conv_nth split: if_splits bool.splits)
qed (use assms in \<open>simp add: publishEntries_def normal_data_def\<close>)

lemma uint64_of_nat: "unat (x :: uint64) = n \<Longrightarrow> x = of_nat n"
  by (metis of_nat_unat ucast_id)

lemma entriesToApply_slice:
  assumes "log_from b log" "j \<le> n" "n \<le> length log" "unat (appliedIndex rc) = b + n"
  shows "entriesToApply rc (take k (drop j log)) = Some (drop (n - j) (take k (drop j log)))"
proof (cases "take k (drop j log) = []")
  case False
  let ?ents = "take k (drop j log)" and ?first = "ent_Index (log ! j)"
  have b: "b + length log < 2 ^ 64 - 1" using assms(1) by (simp add: log_from_def)
  from False have "j < length log" by auto
  then have first: "unat ?first = b + 1 + j" using assms(1) by (simp add: log_from_def)
  have eqs: "appliedIndex rc = of_nat (b + n)" "?first = of_nat (b + 1 + j)"
    using assms(4) first by (simp_all only: uint64_of_nat)
  obtain d where d: "n = j + d" using assms(2) le_iff_add by blast
  have gap: "appliedIndex rc - ?first + 1 = of_nat d" unfolding eqs d by simp
  have "unat (of_nat d :: uint64) = d" using b assms(3) d by (simp add: unat_of_nat)
  moreover have "unat (of_nat (length ?ents) :: uint64) = length ?ents" using b by (simp add: unat_of_nat)
  moreover have "\<not> appliedIndex rc + 1 < ?first"
  proof -
    have "unat (appliedIndex rc + 1) = b + n + 1" using b assms(3,4) by (simp add: unat_word_ariths)
    then show ?thesis using first d by (simp add: word_less_nat_alt)
  qed
  ultimately show ?thesis
    using False d by (auto simp: entriesToApply_def Let_def gap word_less_nat_alt)
qed (auto simp: entriesToApply_def)

lemma entriesToApply_fatal:
  assumes "ents \<noteq> []" "unat (appliedIndex rc) < 2 ^ 64 - 1"
  shows "entriesToApply rc ents = None \<longleftrightarrow> unat (appliedIndex rc) + 1 < unat (ent_Index (hd ents))"
  using assms by (auto simp: entriesToApply_def Let_def hd_conv_nth word_less_nat_alt unat_word_ariths)

text \<open>
  The node is in step with a log when what it has published is the data of the log up to its
  applied index.
\<close>

definition in_step :: "nat \<Rightarrow> Entry list \<Rightarrow> ('n, 'c, 'm) curpNode \<Rightarrow> bool" where
  "in_step b log rc \<longleftrightarrow>
     (\<exists>n\<le>length log. unat (appliedIndex rc) = b + n \<and> published (effects rc) = normal_data (take n log))"

text \<open>A batch without a snapshot whose committed entries are a stretch of the log.\<close>

fun delivers_slice :: "Entry list \<Rightarrow> ('c, 'm) raft_event \<Rightarrow> bool" where
  "delivers_slice log (ReadyCame errs stopped rd) \<longleftrightarrow>
     IsEmptySnap (rd_Snapshot rd) \<and> (\<exists>j k. rd_CommittedEntries rd = take k (drop j log))"
| "delivers_slice log _ \<longleftrightarrow> True"

lemma publish_slice:
  assumes "log_from b log" "n \<le> length log" "unat (appliedIndex rc) = b + n"
    and "published (effects rc) = normal_data (take n log)"
    and "publishEntries L stopped rc (take m (drop n log)) = (rc', True)"
  shows "in_step b log rc'"
proof -
  let ?ents = "take m (drop n log)" and ?n = "min (n + m) (length log)"
  note spec = publishEntries_spec [OF assms(5)]
  have "take n log @ ?ents = take ?n log" using take_add [of n m log] by (simp add: min_def)
  then have pub: "published (effects rc') = normal_data (take ?n log)"
    using spec assms(4) by (metis normal_data_append)
  have "unat (appliedIndex rc') = b + ?n"
  proof (cases "?ents = []")
    case True
    with spec assms(2,3) show ?thesis by auto
  next
    case False
    then have less: "n < ?n" and len: "length ?ents = ?n - n" using assms(2) by auto
    have "last ?ents = ?ents ! (?n - n - 1)" using last_conv_nth [OF False] by (simp only: len)
    also have "\<dots> = log ! (?n - 1)" using less assms(2) by (subst nth_take) auto
    finally show ?thesis using False spec assms(1) less by (auto simp: log_from_def)
  qed
  with pub show ?thesis unfolding in_step_def by (intro exI [of _ ?n]) simp
qed

lemma handleReady_step:
  assumes "handleReady L errs stopped rc rd = Goes rc'" "in_step b log rc" "log_from b log"
    and "delivers_slice log (ReadyCame errs stopped rd)"
  shows "in_step b log rc'"
proof -
  obtain n where n: "n \<le> length log" "unat (appliedIndex rc) = b + n"
      "published (effects rc) = normal_data (take n log)"
    using assms(2) by (auto simp: in_step_def)
  obtain j k where jk: "rd_CommittedEntries rd = take k (drop j log)" and empty: "IsEmptySnap (rd_Snapshot rd)"
    using assms(4) by auto
  let ?rc = "emit (SendMessages (rd_Messages rd)) (emit (AppendEntries (rd_Entries rd)) rc)"
  from assms(1) empty obtain ents rc3 where e: "entriesToApply ?rc (take k (drop j log)) = Some ents"
      "publishEntries L stopped ?rc ents = (rc3, True)"
      "appliedIndex rc' = appliedIndex rc3" "published (effects rc') = published (effects rc3)"
    by (auto simp: handleReady_def jk Let_def split: option.splits prod.splits bool.splits if_splits)
  have "\<exists>m. ents = take m (drop n log)"
  proof (cases "take k (drop j log) = []")
    case True
    with e(1) have "ents = take 0 (drop n log)" by (simp add: entriesToApply_def)
    then show ?thesis by blast
  next
    case False
    have "b + length log < 2 ^ 64 - 1" using assms(3) by (simp add: log_from_def)
    with entriesToApply_fatal [OF False, of ?rc] e(1) n(1,2)
    have "unat (ent_Index (hd (take k (drop j log)))) \<le> b + n + 1" by simp
    moreover have "j < length log" "hd (take k (drop j log)) = log ! j" using False by (auto simp: hd_drop_conv_nth)
    ultimately have "j \<le> n" using assms(3) by (simp add: log_from_def)
    with entriesToApply_slice [OF assms(3) _ n(1), of j ?rc k] n(2) e(1)
    have "ents = take (k - (n - j)) (drop n log)" by (simp add: drop_take)
    then show ?thesis by blast
  qed
  then obtain m where "ents = take m (drop n log)" by blast
  with publish_slice [OF assms(3) n(1), of ?rc] n e(2) have "in_step b log rc3" by simp
  then show ?thesis using e(3,4) by (simp add: in_step_def)
qed

lemma serveChannels_loop_in_step:
  assumes "serveChannels_loop L rc es = Goes rc'" "in_step b log rc" "log_from b log"
    and "\<forall>e\<in>set es. delivers_slice log e"
  shows "in_step b log rc'"
  using assms
proof (induction es arbitrary: rc)
  case (Cons e es)
  then obtain rc1 where c: "serveChannels_case L rc e = Goes rc1" "serveChannels_loop L rc1 es = Goes rc'"
    by (auto split: loop.splits)
  have "in_step b log rc1"
  proof (cases e)
    case (ReadyCame errs stopped rd)
    then have "handleReady L errs stopped rc rd = Goes rc1" "delivers_slice log (ReadyCame errs stopped rd)"
      using c(1) Cons.prems(4) by (simp_all del: delivers_slice.simps)
    then show ?thesis by (rule handleReady_step [OF _ Cons.prems(2,3)])
  qed (use c(1) Cons.prems in \<open>auto simp: in_step_def\<close>)
  with Cons.IH [OF c(2)] Cons.prems show ?case by simp
qed simp




lemma entriesToApply_emit [simp]: "entriesToApply (emit e rc) ents = entriesToApply rc ents"
  by (simp add: entriesToApply_def Let_def)


lemma proposals_close:
  "proposals_loop cnt es = filter (\<lambda>e. e \<noteq> CloseStopC) (proposals_loop cnt es) @
     (if GotProposal None \<in> set es \<or> GotConfChange None \<in> set es then [CloseStopC] else [])"
  by (induction cnt es rule: proposals_loop.induct) auto

section \<open>Properties of the raft node\<close>

text \<open>The library, a log of two puts around an empty entry, and the batch that delivers it.\<close>

definition demo_lib :: "(unit, unit) raft_lib" where
  "demo_lib = \<lparr>Unmarshal = (\<lambda>_. \<lparr>cc_ID = 0, cc_Type = ConfChangeAddNode, cc_NodeID = 2, cc_Context = []\<rparr>),
     ApplyConfChange = (\<lambda>n _. (n, ()))\<rparr>"

definition demo_log :: "Entry list" where
  "demo_log =
     [\<lparr>ent_Term = 1, ent_Index = 1, ent_Type = EntryNormal, ent_Data = ''p''\<rparr>,
      \<lparr>ent_Term = 1, ent_Index = 2, ent_Type = EntryNormal, ent_Data = []\<rparr>,
      \<lparr>ent_Term = 1, ent_Index = 3, ent_Type = EntryNormal, ent_Data = ''q''\<rparr>]"

definition demo_snap :: "unit Snapshot" where
  "demo_snap = \<lparr>sn_Data = [], sn_ConfState = (), sn_Index = 0, sn_Term = 0\<rparr>"

definition demo_batch :: "Entry list \<Rightarrow> (unit, unit) Ready" where
  "demo_batch ents = \<lparr>rd_SoftState = None, rd_Entries = [], rd_Snapshot = demo_snap,
     rd_CommittedEntries = ents, rd_Messages = []\<rparr>"

definition demo_node :: "(unit, unit, unit) curpNode" where
  "demo_node = \<lparr>rc_id = 1, rc_peers = [''a''], rc_join = False, waldir = [], snapdir = [], confState = (),
     snapshotIndex = 0, appliedIndex = 0, rc_node = (), snapCount = defaultSnapshotCount,
     rc_raftState = StateFollower, effects = []\<rparr>"

definition demo_raft_events :: "(unit, unit) raft_event list" where
  "demo_raft_events =
     [ReadyCame (nil, nil, nil) False (demo_batch (take 2 (drop 0 demo_log))), TickerFired,
      ReadyCame (nil, nil, nil) False (demo_batch (take 2 (drop 1 demo_log)))]"

lemma demo_log_from: "log_from 0 demo_log"
  by (auto simp: log_from_def demo_log_def less_Suc_eq)

lemma demo_delivers:
  "delivers_slice demo_log (ReadyCame errs stopped (demo_batch (take k (drop j demo_log))))"
  by (auto simp: demo_batch_def demo_snap_def IsEmptySnap_def)

lemmas raft_eval = demo_raft_events_def demo_batch_def demo_node_def demo_snap_def demo_log_def
  serveChannels_def handleReady_def IsEmptySnap_def entriesToApply_def publishEntries_def emit_def Let_def

text \<open>
  C4: the raft node publishes the log exactly once and in order. However the library cuts the
  committed entries into batches, and however often it delivers an entry again, what has
  been sent to the commit channel is the data of the ordinary, non-empty entries of the log up
  to the applied index, each once. Entries before the snapshot the node started from are
  not sent.
\<close>

theorem raft_publishes_log_once:
  assumes "log_from b log" "unat (sn_Index snap) = b" "published (effects rc) = []"
    and "\<forall>e\<in>set es. delivers_slice log e" "serveChannels L (snap, nil) rc es = Goes rc'"
  shows "\<exists>n\<le>length log. unat (appliedIndex rc') = b + n \<and>
           published (effects rc') = normal_data (take n log)"
proof -
  let ?rc = "rc\<lparr>confState := sn_ConfState snap, snapshotIndex := sn_Index snap, appliedIndex := sn_Index snap\<rparr>"
  have "in_step b log ?rc" unfolding in_step_def
    using assms(2,3) by (intro exI [of _ 0]) (simp add: normal_data_def)
  moreover have "serveChannels_loop L ?rc es = Goes rc'" using assms(5) by (simp add: serveChannels_def)
  ultimately show ?thesis
    using serveChannels_loop_in_step assms(1,4) unfolding in_step_def [symmetric] by blast
qed

theorem raft_publishes_log_once_witness:
  "\<exists>rc'. serveChannels demo_lib (demo_snap, nil) demo_node demo_raft_events = Goes rc' \<and>
     published (effects rc') = [''p'', ''q''] \<and>
     (\<exists>n\<le>length demo_log. unat (appliedIndex rc') = 0 + n \<and>
        published (effects rc') = normal_data (take n demo_log))"
proof -
  have "\<exists>rc'. serveChannels demo_lib (demo_snap, nil) demo_node demo_raft_events = Goes rc' \<and>
      published (effects rc') = [''p'', ''q'']"
    by (simp add: raft_eval)
  moreover have "\<forall>e\<in>set demo_raft_events. delivers_slice demo_log e"
    unfolding demo_raft_events_def
    by (simp only: list.set ball_simps demo_delivers delivers_slice.simps(2) simp_thms)
  ultimately show ?thesis
    using raft_publishes_log_once [OF demo_log_from, of demo_snap demo_node demo_raft_events demo_lib]
    by (auto simp: demo_node_def demo_snap_def)
qed



text \<open>
  A batch of committed entries ends the process exactly when it leaves a gap after the
  applied index; and a snapshot ends it exactly when it is not ahead of the applied index.
\<close>

theorem raft_gap_is_fatal:
  assumes "unat (appliedIndex rc) < 2 ^ 64 - 1"
  shows "(entriesToApply rc ents = None \<longleftrightarrow>
            ents \<noteq> [] \<and> unat (appliedIndex rc) + 1 < unat (ent_Index (hd ents))) \<and>
         (publishSnapshot rc snap = None \<longleftrightarrow> sn_Index snap \<noteq> 0 \<and> sn_Index snap \<le> appliedIndex rc)"
  using entriesToApply_fatal [OF _ assms, of ents]
  by (cases "ents = []") (auto simp: entriesToApply_def publishSnapshot_def IsEmptySnap_def)

theorem raft_gap_is_fatal_witness:
  "entriesToApply demo_node (drop 1 demo_log) = None"
  using raft_gap_is_fatal [of demo_node "drop 1 demo_log" demo_snap]
  by (simp add: demo_node_def demo_log_def)

text \<open>
  A snapshot is recorded in the write-ahead log only after its file was saved, and the
  log's lock is released only after both: \<open>saveSnap\<close> stops at the first call that fails.
\<close>

theorem snapshot_file_before_wal:
  "\<exists>w. ws_Index w = sn_Index snap \<and> ws_Term w = sn_Term snap \<and>
     saveSnap (e1, e2, e3) rc snap =
       (if e1 \<noteq> nil then (emit (SaveSnap snap) rc, e1)
        else if e2 \<noteq> nil then (emit (WalSaveSnapshot w) (emit (SaveSnap snap) rc), e2)
        else (emit (ReleaseLockTo (sn_Index snap)) (emit (WalSaveSnapshot w) (emit (SaveSnap snap) rc)), e3))"
  by (intro exI [of _ "\<lparr>ws_Index = sn_Index snap, ws_Term = sn_Term snap, ws_ConfState = Some (sn_ConfState snap)\<rparr>"])
    (simp add: saveSnap_def Let_def)

text \<open>
  A snapshot that is taken keeps a window of entries for slow followers: the log is
  compacted at an index that is at least 1, not after the applied index, and at most
  10000 entries before it; afterwards the snapshot index is the applied index.
\<close>

theorem snapshot_keeps_window:
  assumes "maybeTriggerSnapshot applyDoneC getSnap created errs compacted rc = Some rc'"
    and "snapshotIndex rc < appliedIndex rc" "snapCount rc < appliedIndex rc - snapshotIndex rc"
    and "applyDoneC \<noteq> Some True"
  shows "\<exists>i. last (effects rc') = Compact i \<and> 1 \<le> unat i \<and> unat i \<le> unat (appliedIndex rc) \<and>
           unat (appliedIndex rc) \<le> unat i + 10000 \<and> snapshotIndex rc' = appliedIndex rc"
proof -
  let ?i = "if appliedIndex rc > snapshotCatchUpEntriesN then appliedIndex rc - snapshotCatchUpEntriesN else 1"
  have pos: "0 < unat (appliedIndex rc)" using assms(2) by (auto simp: word_less_nat_alt)
  have keep: "saveSnap errs rc1 s = (rc2, e) \<Longrightarrow> appliedIndex rc2 = appliedIndex rc1" for rc1 rc2 :: "('a, 'b, 'c) curpNode" and s e
    by (auto simp: saveSnap_def Let_def split: prod.splits if_splits)
  have "last (effects rc') = Compact ?i \<and> snapshotIndex rc' = appliedIndex rc"
    using assms(1,3,4)
    by (auto simp: maybeTriggerSnapshot_def Let_def split: prod.splits if_splits dest!: keep)
  moreover have "1 \<le> unat ?i \<and> unat ?i \<le> unat (appliedIndex rc) \<and> unat (appliedIndex rc) \<le> unat ?i + 10000"
    using pos by (auto simp: snapshotCatchUpEntriesN_def word_less_nat_alt unat_sub_if')
  ultimately show ?thesis by blast
qed

theorem snapshot_keeps_window_witness:
  "\<exists>i. last (effects (the (maybeTriggerSnapshot None (None, nil) (demo_snap, nil) (nil, nil, nil) nil
           (demo_node\<lparr>appliedIndex := 20001\<rparr>)))) = Compact i \<and> 1 \<le> unat i \<and> unat i \<le> 20001 \<and> 20001 \<le> unat i + 10000"
proof -
  let ?rc = "demo_node\<lparr>appliedIndex := 20001\<rparr>"
  have "\<exists>rc'. maybeTriggerSnapshot None (None, nil) (demo_snap, nil) (nil, nil, nil) nil ?rc = Some rc'"
    by (simp add: maybeTriggerSnapshot_def saveSnap_def Let_def)
  then obtain rc' where rc': "maybeTriggerSnapshot None (None, nil) (demo_snap, nil) (nil, nil, nil) nil ?rc = Some rc'" ..
  from snapshot_keeps_window [OF rc'] have "\<exists>i. last (effects rc') = Compact i \<and> 1 \<le> unat i \<and>
      unat i \<le> 20001 \<and> 20001 \<le> unat i + 10000"
    by (simp add: demo_node_def defaultSnapshotCount_def) blast
  then show ?thesis by (simp add: rc')
qed

text \<open>
  The goroutine in front of the library proposes every message it receives, in order and
  unchanged, numbers the configuration changes 1, 2, 3 and so on, and closes the stop channel
  once, as soon as one of its channels is closed.
\<close>

theorem proposals_forwarded:
  "proposals_loop cnt (map (GotProposal \<circ> Some) ps @ es) = map ProposeData ps @ proposals_loop cnt es \<and>
   proposals_loop cnt (map (GotConfChange \<circ> Some) cs) =
     map (\<lambda>k. ProposeConfChange ((cs ! k)\<lparr>cc_ID := cnt + 1 + of_nat k\<rparr>)) [0..<length cs] \<and>
   (\<exists>xs. proposals_loop cnt es = xs @ (if GotProposal None \<in> set es \<or> GotConfChange None \<in> set es then [CloseStopC] else []) \<and>
      CloseStopC \<notin> set xs)"
proof (intro conjI)
  show "proposals_loop cnt (map (GotProposal \<circ> Some) ps @ es) = map ProposeData ps @ proposals_loop cnt es"
    by (induction ps) auto
  show "proposals_loop cnt (map (GotConfChange \<circ> Some) cs) =
     map (\<lambda>k. ProposeConfChange ((cs ! k)\<lparr>cc_ID := cnt + 1 + of_nat k\<rparr>)) [0..<length cs]"
  proof (induction cs arbitrary: cnt)
    case (Cons c cs)
    have "[0..<length (c # cs)] = 0 # map Suc [0..<length cs]"
      by (simp only: length_Cons upt_conv_Cons [OF zero_less_Suc] map_Suc_upt)
    with Cons show ?case by (simp add: algebra_simps)
  qed simp
  show "\<exists>xs. proposals_loop cnt es =
      xs @ (if GotProposal None \<in> set es \<or> GotConfChange None \<in> set es then [CloseStopC] else []) \<and> CloseStopC \<notin> set xs"
    using proposals_close [of cnt es] by (intro exI conjI, assumption) simp
qed

end
