(* ===== verification/Go_Strings.thy ===== *)
theory Go_Strings
  imports Prelude Complex_Main "HOL-Library.Log_Nat"
begin

text \<open>
  What the program uses of Go's \<open>strings\<close>, \<open>strconv\<close>, \<open>bufio\<close> and \<open>time\<close> packages. A string is
  its bytes. The functions that Go defines on Unicode (\<open>ToLower\<close>, \<open>Fields\<close>, \<open>Quote\<close>) are
  written for ASCII text, which is what the configuration files hold.
\<close>

section \<open>Package strings\<close>

definition byte_of :: "char \<Rightarrow> nat" where
  "byte_of c = of_char c"

definition to_lower :: "char \<Rightarrow> char" where
  "to_lower c = (if 65 \<le> byte_of c \<and> byte_of c \<le> 90 then char_of (byte_of c + 32) else c)"

definition ToLower :: "string \<Rightarrow> string" where
  "ToLower s = map to_lower s"

definition newline :: char where "newline = CHR 0x0A"
definition carriage_return :: char where "carriage_return = CHR 0x0D"

text \<open>The ASCII white space: tab, line feed, vertical tab, form feed, carriage return, blank.\<close>

definition is_space :: "char \<Rightarrow> bool" where
  "is_space c \<longleftrightarrow> c = CHR 0x20 \<or> (9 \<le> byte_of c \<and> byte_of c \<le> 13)"

text \<open>The second argument of the loop is the field being read, reversed.\<close>

fun Fields_loop :: "string \<Rightarrow> string \<Rightarrow> string list" where
  "Fields_loop [] w = (if w = [] then [] else [rev w])"
| "Fields_loop (c # cs) w =
     (if is_space c then (if w = [] then Fields_loop cs [] else rev w # Fields_loop cs [])
      else Fields_loop cs (c # w))"

definition Fields :: "string \<Rightarrow> string list" where
  "Fields s = Fields_loop s []"

text \<open>\<open>strings.Split\<close> with a separator of one byte.\<close>

fun Split :: "char \<Rightarrow> string \<Rightarrow> string list" where
  "Split d [] = [[]]"
| "Split d (c # cs) =
     (if c = d then [] # Split d cs
      else case Split d cs of [] \<Rightarrow> [[c]] | w # ws \<Rightarrow> (c # w) # ws)"

definition HasPrefix :: "string \<Rightarrow> string \<Rightarrow> bool" where
  "HasPrefix s p \<longleftrightarrow> take (length p) s = p"

text \<open>\<open>strconv.Quote\<close>.\<close>

definition hex_digit :: "nat \<Rightarrow> char" where
  "hex_digit n = (if n < 10 then char_of (48 + n) else char_of (87 + n))"

definition quote_char :: "char \<Rightarrow> string" where
  "quote_char c =
     (let n = byte_of c in
      if n = 34 \<or> n = 92 then [CHR 0x5C, c]
      else if n = 7 then [CHR 0x5C, CHR ''a''] else if n = 8 then [CHR 0x5C, CHR ''b'']
      else if n = 9 then [CHR 0x5C, CHR ''t''] else if n = 10 then [CHR 0x5C, CHR ''n'']
      else if n = 11 then [CHR 0x5C, CHR ''v''] else if n = 12 then [CHR 0x5C, CHR ''f'']
      else if n = 13 then [CHR 0x5C, CHR ''r'']
      else if n < 32 \<or> n \<ge> 127 then [CHR 0x5C, CHR ''x'', hex_digit (n div 16), hex_digit (n mod 16)]
      else [c])"

definition Quote :: "string \<Rightarrow> string" where
  "Quote s = CHR 0x22 # concat (map quote_char s) @ [CHR 0x22]"

section \<open>Package strconv\<close>

definition is_digit :: "char \<Rightarrow> bool" where
  "is_digit c \<longleftrightarrow> 48 \<le> byte_of c \<and> byte_of c \<le> 57"

definition digit_val :: "char \<Rightarrow> nat" where
  "digit_val c = byte_of c - 48"

definition digit_char :: "nat \<Rightarrow> char" where
  "digit_char n = char_of (48 + n)"

fun utoa :: "nat \<Rightarrow> string" where
  "utoa n = (if n < 10 then [digit_char n] else utoa (n div 10) @ [digit_char (n mod 10)])"

declare utoa.simps [simp del]

definition itoa :: "int \<Rightarrow> string" where
  "itoa i = (if i < 0 then CHR ''-'' # utoa (nat (- i)) else utoa (nat i))"

text \<open>\<open>NumError\<close> as the text it prints.\<close>

definition num_error :: "string \<Rightarrow> string \<Rightarrow> string \<Rightarrow> error" where
  "num_error fn num why = LibError (''strconv.'' @ fn @ '': parsing '' @ Quote num @ '': '' @ why)"

datatype num_result = Num nat | SyntaxError | RangeError

text \<open>
  \<open>ParseUint\<close> in base 10 at 64 bits: the digits are read from the left, and the first byte that
  is no digit or the first digit that overflows ends it.
\<close>

fun ParseUint_loop :: "nat \<Rightarrow> string \<Rightarrow> num_result" where
  "ParseUint_loop n [] = Num n"
| "ParseUint_loop n (c # cs) =
     (if \<not> is_digit c then SyntaxError
      else if n * 10 + digit_val c \<ge> 2 ^ 64 then RangeError
      else ParseUint_loop (n * 10 + digit_val c) cs)"

definition ParseUint :: "string \<Rightarrow> num_result" where
  "ParseUint s = (if s = [] then SyntaxError else ParseUint_loop 0 s)"

text \<open>
  \<open>Atoi\<close> at 64 bits: 0 with a syntax error, the nearest bound with a range error.
\<close>

definition Atoi :: "string \<Rightarrow> int \<times> err" where
  "Atoi s =
     (let neg = (s \<noteq> [] \<and> hd s = CHR ''-'');
          un = (if s \<noteq> [] \<and> (hd s = CHR ''-'' \<or> hd s = CHR ''+'') then tl s else s);
          range = Some (num_error ''Atoi'' s ''value out of range'') in
      case ParseUint un of
        SyntaxError \<Rightarrow> (0, Some (num_error ''Atoi'' s ''invalid syntax''))
      | RangeError \<Rightarrow> (if neg then - (2 ^ 63) else 2 ^ 63 - 1, range)
      | Num n \<Rightarrow>
          if \<not> neg \<and> n \<ge> 2 ^ 63 then (2 ^ 63 - 1, range)
          else if neg \<and> n > 2 ^ 63 then (- (2 ^ 63), range)
          else (if neg then - int n else int n, nil))"

definition ParseBool :: "string \<Rightarrow> bool \<times> err" where
  "ParseBool s =
     (if s \<in> {''1'', ''t'', ''T'', ''true'', ''TRUE'', ''True''} then (True, nil)
      else if s \<in> {''0'', ''f'', ''F'', ''false'', ''FALSE'', ''False''} then (False, nil)
      else (False, Some (num_error ''ParseBool'' s ''invalid syntax'')))"

definition is_int64 :: "int \<Rightarrow> bool" where
  "is_int64 i \<longleftrightarrow> - (2 ^ 63) \<le> i \<and> i < 2 ^ 63"

section \<open>Lines of a file\<close>

text \<open>
  \<open>bufio.Scanner\<close> with \<open>ScanLines\<close>: lines end at a line feed and lose one carriage return before
  it; the last line may lack its end and is dropped when empty. The buffer holds
  65536 bytes, so the scanner ends without a token at a line of 65536 bytes or more.
\<close>

definition drop_cr :: "string \<Rightarrow> string" where
  "drop_cr l = (if l \<noteq> [] \<and> last l = carriage_return then butlast l else l)"

definition raw_lines :: "string \<Rightarrow> string list" where
  "raw_lines s = (let ls = Split newline s in if last ls = [] then butlast ls else ls)"

definition MaxScanTokenSize :: nat where
  "MaxScanTokenSize = 64 * 1024"

definition scan_lines :: "string \<Rightarrow> string list" where
  "scan_lines s = map drop_cr (takeWhile (\<lambda>l. length l < MaxScanTokenSize) (raw_lines s))"

section \<open>Durations\<close>

text \<open>
  Positive \<open>float64\<close> values as rationals: rounding to 53 significant bits, ties to even. The
  values \<open>ParseDuration\<close> computes lie between \<open>10^-19\<close> and \<open>10^32\<close>, far inside the exponent
  range.
\<close>

definition round_even :: "rat \<Rightarrow> int" where
  "round_even q =
     (let n = \<lfloor>q\<rfloor>; d = q - of_int n in
      if d < 1 / 2 then n else if d > 1 / 2 then n + 1 else if even n then n else n + 1)"

definition pow2 :: "int \<Rightarrow> rat" where
  "pow2 e = (if e \<ge> 0 then 2 ^ nat e else 1 / 2 ^ nat (- e))"

text \<open>The exponent of the binary digit a positive rational starts with.\<close>

definition binade :: "rat \<Rightarrow> int" where
  "binade q =
     (case quotient_of q of (a, b) \<Rightarrow>
        let e = int (floorlog 2 (nat a)) - int (floorlog 2 (nat b)) in
        if pow2 e \<le> q then e else e - 1)"

definition float64 :: "rat \<Rightarrow> rat" where
  "float64 q =
     (if q \<le> 0 then 0
      else let u = pow2 (binade q - 52) in of_int (round_even (q / u)) * u)"

text \<open>The nanoseconds of a unit. The two spellings of the micro sign are not ASCII.\<close>

definition unitMap :: "string \<Rightarrow> nat option" where
  "unitMap u =
     (if u = ''ns'' then Some 1 else if u = ''us'' then Some 1000
      else if u = ''ms'' then Some 1000000 else if u = ''s'' then Some 1000000000
      else if u = ''m'' then Some 60000000000 else if u = ''h'' then Some 3600000000000 else None)"

text \<open>\<open>None\<close> is an overflow.\<close>

fun leadingInt :: "nat \<Rightarrow> string \<Rightarrow> (nat \<times> string) option" where
  "leadingInt x [] = Some (x, [])"
| "leadingInt x (c # cs) =
     (if \<not> is_digit c then Some (x, c # cs)
      else if x > 2 ^ 63 div 10 then None
      else if x * 10 + digit_val c > 2 ^ 63 then None
      else leadingInt (x * 10 + digit_val c) cs)"

text \<open>The digits after the point, the power of ten they are over, and the rest.\<close>

fun leadingFraction :: "nat \<Rightarrow> nat \<Rightarrow> bool \<Rightarrow> string \<Rightarrow> nat \<times> nat \<times> string" where
  "leadingFraction x scale overflow [] = (x, scale, [])"
| "leadingFraction x scale overflow (c # cs) =
     (if \<not> is_digit c then (x, scale, c # cs)
      else if overflow then leadingFraction x scale True cs
      else if x > (2 ^ 63 - 1) div 10 then leadingFraction x scale True cs
      else if x * 10 + digit_val c > 2 ^ 63 then leadingFraction x scale True cs
      else leadingFraction (x * 10 + digit_val c) (scale * 10) False cs)"

definition unit_byte :: "char \<Rightarrow> bool" where
  "unit_byte c \<longleftrightarrow> \<not> (c = CHR ''.'' \<or> is_digit c)"

definition invalid_duration :: "string \<Rightarrow> error" where
  "invalid_duration orig = LibError (''time: invalid duration '' @ Quote orig)"

text \<open>The optional fraction: its digits, their scale, the rest, and whether there was a digit.\<close>

definition duration_fraction :: "string \<Rightarrow> nat \<times> nat \<times> string \<times> bool" where
  "duration_fraction s =
     (if s \<noteq> [] \<and> hd s = CHR ''.''
      then (case leadingFraction 0 1 False (tl s) of (f, scale, r) \<Rightarrow> (f, scale, r, length (tl s) \<noteq> length r))
      else (0, 1, s, False))"

text \<open>
  One round of the loop of \<open>ParseDuration\<close>: number, unit, and the sum so far. The result is the new
  sum and the rest of the text, or the error.
\<close>

definition ParseDuration_round :: "string \<Rightarrow> nat \<Rightarrow> string \<Rightarrow> nat \<times> string + error" where
  "ParseDuration_round orig d s =
     (if \<not> (hd s = CHR ''.'' \<or> is_digit (hd s)) then Inr (invalid_duration orig)
      else case leadingInt 0 s of
        None \<Rightarrow> Inr (invalid_duration orig)
      | Some (v, s1) \<Rightarrow>
          let pre = (length s \<noteq> length s1);
              (f, scale, s2, post) = duration_fraction s1 in
          if \<not> pre \<and> \<not> post then Inr (invalid_duration orig)
          else let u = takeWhile unit_byte s2; s3 = dropWhile unit_byte s2 in
            if u = [] then Inr (LibError (''time: missing unit in duration '' @ Quote orig))
            else case unitMap u of
              None \<Rightarrow> Inr (LibError (''time: unknown unit '' @ Quote u @ '' in duration '' @ Quote orig))
            | Some unit \<Rightarrow>
                if v > 2 ^ 63 div unit then Inr (invalid_duration orig)
                else let v1 = v * unit;
                         v2 = (if f > 0
                               then v1 + nat \<lfloor>float64 (float64 (of_nat f) * float64 (of_nat unit / of_nat scale))\<rfloor>
                               else v1) in
                  if v2 > 2 ^ 63 then Inr (invalid_duration orig)
                  else let d1 = (d + v2) mod 2 ^ 64 in
                    if d1 > 2 ^ 63 then Inr (invalid_duration orig) else Inl (d1, s3))"

lemma leadingInt_rest: "leadingInt x s = Some (v, r) \<Longrightarrow> length r \<le> length s"
  by (induction x s rule: leadingInt.induct) (auto split: if_splits)

lemma leadingFraction_rest: "leadingFraction x sc ov s = (f, sc', r) \<Longrightarrow> length r \<le> length s"
  by (induction x sc ov s rule: leadingFraction.induct) (auto split: if_splits)

lemma dropWhile_shrinks: "takeWhile P s \<noteq> [] \<Longrightarrow> length (dropWhile P s) < length s"
  by (cases s) (auto simp: length_dropWhile_le less_Suc_eq_le split: if_splits)

lemma ParseDuration_round_shrinks:
  assumes "ParseDuration_round orig d s = Inl (d', r)"
  shows "length r < length s"
proof -
  obtain v s1 where i: "leadingInt 0 s = Some (v, s1)"
    using assms by (auto simp: ParseDuration_round_def split: if_splits option.splits)
  obtain f scale s2 post where x: "duration_fraction s1 = (f, scale, s2, post)"
    by (cases "duration_fraction s1" rule: prod_cases4) blast
  have "length s2 \<le> length s1"
    using x by (auto simp: duration_fraction_def dest!: leadingFraction_rest split: if_splits prod.splits)
  moreover have "takeWhile unit_byte s2 \<noteq> []" "r = dropWhile unit_byte s2"
    using assms i x by (auto simp: ParseDuration_round_def Let_def split: if_splits option.splits)
  ultimately show ?thesis
    using dropWhile_shrinks [of unit_byte s2] leadingInt_rest [OF i] by simp
qed

function ParseDuration_loop :: "string \<Rightarrow> nat \<Rightarrow> string \<Rightarrow> nat + error" where
  "ParseDuration_loop orig d s =
     (if s = [] then Inl d
      else case ParseDuration_round orig d s of
        Inr e \<Rightarrow> Inr e
      | Inl (d', s') \<Rightarrow> ParseDuration_loop orig d' s')"
  by pat_completeness auto

termination
  by (relation "measure (\<lambda>(orig, d, s). length s)") (auto dest: ParseDuration_round_shrinks)

declare ParseDuration_loop.simps [simp del]

text \<open>The nanoseconds; \<open>Duration\<close> is an \<open>int64\<close>, so \<open>-Duration(d)\<close> of \<open>2^63\<close> is its smallest value.\<close>

definition ParseDuration :: "string \<Rightarrow> int \<times> err" where
  "ParseDuration orig =
     (let signed = (orig \<noteq> [] \<and> (hd orig = CHR ''-'' \<or> hd orig = CHR ''+''));
          neg = (signed \<and> hd orig = CHR ''-'');
          s = (if signed then tl orig else orig) in
      if s = ''0'' then (0, nil)
      else if s = [] then (0, Some (invalid_duration orig))
      else case ParseDuration_loop orig 0 s of
        Inr e \<Rightarrow> (0, Some e)
      | Inl d \<Rightarrow>
          if neg then (- int d, nil)
          else if d > 2 ^ 63 - 1 then (0, Some (invalid_duration orig))
          else (int d, nil))"

section \<open>Facts about them\<close>

lemma digit_char_simps [simp]:
  assumes "n < 10"
  shows "is_digit (digit_char n)" "digit_val (digit_char n) = n"
  using assms by (simp_all add: is_digit_def digit_val_def digit_char_def byte_of_def)

text \<open>A decimal numeral reads back as its number, and as its prefix followed by more digits.\<close>

fun read_digits :: "nat \<Rightarrow> string \<Rightarrow> nat" where
  "read_digits n [] = n"
| "read_digits n (c # cs) = read_digits (n * 10 + digit_val c) cs"

lemma read_digits_append: "read_digits n (xs @ ys) = read_digits (read_digits n xs) ys"
  by (induction n xs rule: read_digits.induct) auto

lemma utoa_digits: "\<forall>c\<in>set (utoa n). is_digit c"
  by (induction n rule: utoa.induct) (subst utoa.simps, auto split: if_splits)

lemma utoa_nonempty [simp]: "utoa n \<noteq> []"
  by (subst utoa.simps) auto

lemma read_utoa: "read_digits 0 (utoa n) = n"
  by (induction n rule: utoa.induct) (subst utoa.simps, simp add: read_digits_append)

lemma read_digits_mono: "n \<le> read_digits n cs"
  by (induction n cs rule: read_digits.induct) (auto intro: order_trans [rotated])

lemma ParseUint_loop_digits:
  "\<forall>c\<in>set cs. is_digit c \<Longrightarrow> read_digits n cs < 2 ^ 64 \<Longrightarrow> ParseUint_loop n cs = Num (read_digits n cs)"
proof (induction n cs rule: ParseUint_loop.induct)
  case (2 n c cs)
  with read_digits_mono [of "n * 10 + digit_val c" cs] show ?case by simp
qed simp

lemma ParseUint_utoa: "n < 2 ^ 64 \<Longrightarrow> ParseUint (utoa n) = Num n"
  using ParseUint_loop_digits [OF utoa_digits, of 0 n] by (simp add: ParseUint_def read_utoa)

lemma leadingInt_digits:
  "\<forall>c\<in>set cs. is_digit c \<Longrightarrow> read_digits n cs \<le> 2 ^ 63 \<Longrightarrow> r = [] \<or> \<not> is_digit (hd r) \<Longrightarrow>
   leadingInt n (cs @ r) = Some (read_digits n cs, r)"
proof (induction cs arbitrary: n)
  case Nil
  then show ?case by (cases r) auto
next
  case (Cons c cs)
  with read_digits_mono [of "n * 10 + digit_val c" cs] show ?case by simp
qed

lemma digit_not_sign:
  "is_digit c \<Longrightarrow> c \<noteq> CHR ''-'' \<and> c \<noteq> CHR ''+'' \<and> c \<noteq> CHR ''.'' \<and> \<not> is_space c \<and> c \<noteq> CHR '':'' \<and>
   c \<noteq> CHR ''/'' \<and> to_lower c = c"
  by (auto simp: is_digit_def is_space_def to_lower_def byte_of_def)

lemma utoa_hd: "is_digit (hd (utoa n))"
  using utoa_digits utoa_nonempty hd_in_set by blast

text \<open>\<open>Atoi\<close> inverts \<open>Itoa\<close>, and its value always fits.\<close>

lemma Atoi_itoa: "is_int64 i \<Longrightarrow> Atoi (itoa i) = (i, nil)"
  using digit_not_sign [OF utoa_hd, of "nat i"]
  by (auto simp: Atoi_def itoa_def is_int64_def ParseUint_utoa Let_def)

lemma Atoi_int64: "is_int64 (fst (Atoi s))"
  by (auto simp: Atoi_def is_int64_def Let_def split: num_result.splits)

lemma ParseDuration_loop_bound:
  "d \<le> 2 ^ 63 \<Longrightarrow> ParseDuration_loop orig d s = Inl d' \<Longrightarrow> d' \<le> 2 ^ 63"
proof (induction orig d s rule: ParseDuration_loop.induct)
  case (1 orig d s)
  have "d1 \<le> 2 ^ 63" if "ParseDuration_round orig d s = Inl (d1, r)" for d1 r
    using that by (auto simp: ParseDuration_round_def Let_def not_less split: if_splits option.splits prod.splits)
  then show ?case
    using 1 ParseDuration_loop.simps [of orig d s] by (auto split: if_splits sum.splits prod.splits)
qed

lemma ParseDuration_int64: "is_int64 (fst (ParseDuration s))"
  using ParseDuration_loop_bound [of 0 s]
  by (fastforce simp: ParseDuration_def is_int64_def Let_def split: sum.splits)

lemma ParseDuration_loop_ns:
  assumes "n \<le> 2 ^ 63"
  shows "ParseDuration_loop orig 0 (utoa n @ ''ns'') = Inl n"
proof -
  let ?s = "utoa n @ ''ns''"
  have "leadingInt 0 ?s = Some (n, ''ns'')"
    using leadingInt_digits [OF utoa_digits, of 0 n "''ns''"] assms
    by (simp add: read_utoa is_digit_def byte_of_def)
  moreover have "length ?s \<noteq> length ''ns''" "is_digit (hd ?s)" using utoa_hd by simp_all
  ultimately have "ParseDuration_round orig 0 ?s = Inl (n, [])"
    using assms by (simp add: ParseDuration_round_def duration_fraction_def unit_byte_def
        is_digit_def byte_of_def unitMap_def Let_def)
  then show ?thesis by (simp add: ParseDuration_loop.simps)
qed

lemma duration_nanoseconds:
  assumes "is_int64 i"
  shows "ParseDuration (itoa i @ ''ns'') = (i, nil)"
proof -
  have "nat i \<le> 2 ^ 63" "nat (- i) \<le> 2 ^ 63" "0 \<le> i \<Longrightarrow> nat i < 2 ^ 63"
    using assms by (auto simp: is_int64_def nat_le_iff nat_less_iff)
  with digit_not_sign [OF utoa_hd, of "nat i"] show ?thesis
    by (cases "0 \<le> i") (auto simp: ParseDuration_def itoa_def Let_def ParseDuration_loop_ns)
qed

text \<open>Words without white space are the fields of a text that joins them with blanks.\<close>

definition is_word :: "string \<Rightarrow> bool" where
  "is_word w \<longleftrightarrow> w \<noteq> [] \<and> (\<forall>c\<in>set w. \<not> is_space c)"

lemma Fields_loop_word:
  "\<forall>c\<in>set w. \<not> is_space c \<Longrightarrow> Fields_loop (w @ r) acc = Fields_loop r (rev w @ acc)"
  by (induction w arbitrary: acc) auto

lemma Fields_word: "is_word w \<Longrightarrow> Fields w = [w]"
  using Fields_loop_word [of w "[]" "[]"] by (simp add: Fields_def is_word_def)

lemma Fields_word_blank: "is_word w \<Longrightarrow> Fields (w @ CHR 0x20 # r) = w # Fields r"
  using Fields_loop_word [of w "CHR 0x20 # r" "[]"]
  by (auto simp: Fields_def is_word_def is_space_def)

lemma itoa_word: "is_word (itoa i)"
  using utoa_digits digit_not_sign by (auto simp: is_word_def itoa_def is_space_def byte_of_def)

lemma ToLower_append: "ToLower (xs @ ys) = ToLower xs @ ToLower ys"
  by (simp add: ToLower_def)

lemma ToLower_itoa: "ToLower (itoa i) = itoa i"
  using utoa_digits digit_not_sign by (auto simp: ToLower_def itoa_def to_lower_def byte_of_def intro!: map_idI)

lemma utoa_length: "n < 10 ^ Suc k \<Longrightarrow> length (utoa n) \<le> Suc k"
proof (induction k arbitrary: n)
  case (Suc k)
  then have "n div 10 < 10 ^ Suc k" by (simp add: less_mult_imp_div_less mult.commute)
  with Suc.IH show ?case by (subst utoa.simps) auto
qed (simp add: utoa.simps)

lemma itoa_length: "is_int64 i \<Longrightarrow> length (itoa i) \<le> 20"
  using utoa_length [of "nat i" 18] utoa_length [of "nat (- i)" 18]
  by (auto simp: is_int64_def itoa_def nat_less_iff)

text \<open>Lines written one after the other are the lines a scanner finds.\<close>

definition unlines :: "string list \<Rightarrow> string" where
  "unlines ls = concat (map (\<lambda>l. l @ [newline]) ls)"

definition is_line :: "string \<Rightarrow> bool" where
  "is_line l \<longleftrightarrow> length l < MaxScanTokenSize \<and> newline \<notin> set l \<and> carriage_return \<notin> set l"

lemma Split_not_empty [simp]: "Split d s \<noteq> []"
  by (induction s) (auto split: list.splits)

lemma Split_word: "d \<notin> set w \<Longrightarrow> Split d (w @ d # r) = w # Split d r"
  by (induction w) auto

lemma Split_single: "d \<notin> set w \<Longrightarrow> Split d w = [w]"
  by (induction w) auto

lemma raw_lines_unlines: "\<forall>l\<in>set ls. newline \<notin> set l \<Longrightarrow> raw_lines (unlines ls) = ls"
proof -
  assume "\<forall>l\<in>set ls. newline \<notin> set l"
  then have "Split newline (unlines ls) = ls @ [[]]"
    by (induction ls) (auto simp: unlines_def Split_word)
  then show ?thesis by (simp add: raw_lines_def)
qed

lemma scan_lines_unlines: "\<forall>l\<in>set ls. is_line l \<Longrightarrow> scan_lines (unlines ls) = ls"
proof -
  assume a: "\<forall>l\<in>set ls. is_line l"
  then have "raw_lines (unlines ls) = ls" by (auto intro: raw_lines_unlines simp: is_line_def)
  moreover have "takeWhile (\<lambda>l. length l < MaxScanTokenSize) ls = ls"
    using a by (auto simp: takeWhile_eq_all_conv is_line_def)
  moreover have "map drop_cr ls = ls"
    using a last_in_set by (fastforce simp: drop_cr_def is_line_def intro!: map_idI)
  ultimately show ?thesis unfolding scan_lines_def by metis
qed

end
