(* ===== verification/Raft_Start.thy ===== *)
theory Raft_Start
  imports Raft_Node Go_Strings
begin

text \<open>
  How a raft node starts (\<open>newRaftNode\<close>, \<open>startRaft\<close> and what they call in \<open>curp/raft.go\<close>), serves
  its peers and is called back by the transport. The file system, the write-ahead log and the
  snapshot directory are outside: what their calls return is the record \<open>disk\<close>, and the calls that
  change something are recorded in order. \<open>None\<close> is a \<open>log.Fatalf\<close>.
\<close>

section \<open>Reading the disk\<close>

record ('c, 'h) disk =
  snapdir_exists :: bool
  mkdir_snapdir :: err
  wal_Exist :: bool
  wal_ValidSnapshotEntries :: "'c WalSnapshot list \<times> err"
  LoadNewestAvailable :: "'c WalSnapshot list \<Rightarrow> 'c Snapshot option \<times> err"
  mkdir_waldir :: err
  wal_Create :: err
  wal_Open :: "'c WalSnapshot \<Rightarrow> err"
  wal_ReadAll :: "'h \<times> Entry list \<times> err"

record raft_Config =
  rcfg_ID :: uint64
  ElectionTick :: int
  HeartbeatTick :: int
  MaxSizePerMsg :: uint64
  MaxInflightMsgs :: int
  MaxUncommittedEntriesSize :: uint64

datatype ('c, 'h) start_call =
    MkdirSnap string | MkdirWal string | CreateWal string | CloseWal | OpenWal "'c WalSnapshot"
  | StoreSnapshot "'c Snapshot" | SetHardState 'h | StoreEntries "Entry list"
  | SnapshotterReady | RestartNode raft_Config | StartNode raft_Config "uint64 list"
  | TransportStart | TransportAddPeer uint64 "string list" | GoServeRaft | GoServeChannels

text \<open>The snapshot pointer: \<open>None\<close> is nil; \<open>zero\<close> is the zero value of the configuration state.\<close>

definition zero_Snapshot :: "'c \<Rightarrow> 'c Snapshot" where
  "zero_Snapshot zero = \<lparr>sn_Data = [], sn_ConfState = zero, sn_Index = 0, sn_Term = 0\<rparr>"

definition curpNode_loadSnapshot :: "'c \<Rightarrow> ('c, 'h) disk \<Rightarrow> 'c Snapshot option option" where
  "curpNode_loadSnapshot zero D =
     (if wal_Exist D then
        (case wal_ValidSnapshotEntries D of (walSnaps, e) \<Rightarrow>
           if e \<noteq> nil then None
           else case LoadNewestAvailable D walSnaps of (snapshot, e) \<Rightarrow>
             if e \<noteq> nil \<and> e \<noteq> Some ErrNoSnapshot then None else Some snapshot)
      else Some (Some (zero_Snapshot zero)))"

definition openWAL ::
  "('c, 'h) disk \<Rightarrow> ('n, 'c, 'm) curpNode \<Rightarrow> 'c Snapshot option \<Rightarrow> ('c, 'h) start_call list option" where
  "openWAL D rc snapshot =
     (let made = (if wal_Exist D then Some []
                  else if mkdir_waldir D \<noteq> nil then None
                  else if wal_Create D \<noteq> nil then None
                  else Some [MkdirWal (waldir rc), CreateWal (waldir rc), CloseWal]);
          walsnap = (case snapshot of
                       None \<Rightarrow> \<lparr>ws_Index = 0, ws_Term = 0, ws_ConfState = None\<rparr>
                     | Some sp \<Rightarrow> \<lparr>ws_Index = sn_Index sp, ws_Term = sn_Term sp, ws_ConfState = None\<rparr>) in
      case made of
        None \<Rightarrow> None
      | Some calls \<Rightarrow> if wal_Open D walsnap \<noteq> nil then None else Some (calls @ [OpenWal walsnap]))"

text \<open>The calls on the memory storage; the errors they return are dropped.\<close>

definition replayWAL ::
  "'c \<Rightarrow> ('c, 'h) disk \<Rightarrow> ('n, 'c, 'm) curpNode \<Rightarrow> ('c, 'h) start_call list option" where
  "replayWAL zero D rc =
     (case curpNode_loadSnapshot zero D of
        None \<Rightarrow> None
      | Some snapshot \<Rightarrow>
          (case openWAL D rc snapshot of
             None \<Rightarrow> None
           | Some calls \<Rightarrow>
               (case wal_ReadAll D of (st, ents, e) \<Rightarrow>
                  if e \<noteq> nil then None
                  else Some (calls @ (case snapshot of None \<Rightarrow> [] | Some sp \<Rightarrow> [StoreSnapshot sp]) @
                             [SetHardState st, StoreEntries ents]))))"

section \<open>Starting\<close>

text \<open>
  \<open>newRaftNode\<close>: the node before \<open>startRaft\<close> runs. The fields that \<open>startRaft\<close> and the event loop
  set hold their zero values; the node of the library is \<open>nothing\<close> until it is started.
\<close>

definition newRaftNode :: "'c \<Rightarrow> 'n \<Rightarrow> int \<Rightarrow> string list \<Rightarrow> bool \<Rightarrow> ('n, 'c, 'm) curpNode" where
  "newRaftNode zero nothing nodeId peers join =
     \<lparr>rc_id = nodeId, rc_peers = peers, rc_join = join, waldir = ''raftexample-'' @ itoa nodeId,
      snapdir = ''raftexample-'' @ itoa nodeId @ ''-snap'', confState = zero, snapshotIndex = 0,
      appliedIndex = 0, rc_node = nothing, snapCount = defaultSnapshotCount, rc_raftState = StateFollower,
      effects = []\<rparr>"

text \<open>The storage field of the configuration is the memory storage of \<open>replayWAL\<close>.\<close>

definition node_Config :: "int \<Rightarrow> raft_Config" where
  "node_Config nodeId = \<lparr>rcfg_ID = word_of_int nodeId, ElectionTick = 10, HeartbeatTick = 1,
     MaxSizePerMsg = 1024 * 1024, MaxInflightMsgs = 256, MaxUncommittedEntriesSize = 2 ^ 30\<rparr>"

fun add_peers :: "int \<Rightarrow> nat \<Rightarrow> string list \<Rightarrow> ('c, 'h) start_call list" where
  "add_peers nodeId i [] = []"
| "add_peers nodeId i (p # ps) =
     (if int i + 1 \<noteq> nodeId then [TransportAddPeer (of_nat (i + 1)) [p]] else []) @ add_peers nodeId (i + 1) ps"

definition startRaft :: "'c \<Rightarrow> ('c, 'h) disk \<Rightarrow> ('n, 'c, 'm) curpNode \<Rightarrow> ('c, 'h) start_call list option" where
  "startRaft zero D rc =
     (let made = (if snapdir_exists D then Some []
                  else if mkdir_snapdir D \<noteq> nil then None else Some [MkdirSnap (snapdir rc)]);
          oldwal = wal_Exist D in
      case made of
        None \<Rightarrow> None
      | Some calls \<Rightarrow>
          (case replayWAL zero D rc of
             None \<Rightarrow> None
           | Some replayed \<Rightarrow>
               let rpeers = map (\<lambda>i. of_nat (i + 1)) [0..<length (rc_peers rc)];
                   start = (if oldwal \<or> rc_join rc then RestartNode (node_Config (rc_id rc))
                            else StartNode (node_Config (rc_id rc)) rpeers) in
               Some (calls @ replayed @ [SnapshotterReady, start, TransportStart] @
                     add_peers (rc_id rc) 0 (rc_peers rc) @ [GoServeRaft, GoServeChannels])))"

section \<open>Serving the peers\<close>

text \<open>
  The listener of the HTTP server; \<open>listen\<close> is what \<open>net.Listen\<close> gives. \<open>Accept\<close> waits for a connection, an error or the stop channel; an
  accepted connection gets keep-alive packets every three minutes.
\<close>

definition newStoppableListener :: "(string \<Rightarrow> 'l + error) \<Rightarrow> string \<Rightarrow> 'l option \<times> err" where
  "newStoppableListener listen addr = (case listen addr of Inr e \<Rightarrow> (None, Some e) | Inl lis \<Rightarrow> (Some lis, nil))"

datatype 'conn accept_event = StopClosed | AcceptError error | AcceptedTCP 'conn

record 'conn keep_alive =
  ka_conn :: 'conn
  ka_enabled :: bool
  ka_period :: int

fun Accept :: "'conn accept_event \<Rightarrow> 'conn keep_alive option \<times> err" where
  "Accept StopClosed = (None, Some (Errorf ''server stopped''))"
| "Accept (AcceptError e) = (None, Some e)"
| "Accept (AcceptedTCP tc) = (Some \<lparr>ka_conn = tc, ka_enabled = True, ka_period = 3 * 60 * 1000000000\<rparr>, nil)"

text \<open>
  \<open>serveRaft\<close>: the outcome of parsing the node's own URL and of listening on its host are
  arguments, and \<open>stopped\<close> says whether \<open>httpstopc\<close> was closed when the HTTP server returned.
  \<open>None\<close> is the index panic or a \<open>log.Fatalf\<close>; otherwise \<open>httpdonec\<close> is closed.
\<close>

definition serveRaft ::
  "(string \<Rightarrow> string + error) \<Rightarrow> (string \<Rightarrow> 'l + error) \<Rightarrow> bool \<Rightarrow> ('n, 'c, 'm) curpNode \<Rightarrow> unit option" where
  "serveRaft parse listen stopped rc =
     (if \<not> (0 \<le> rc_id rc - 1 \<and> rc_id rc - 1 < int (length (rc_peers rc))) then None
      else case parse (rc_peers rc ! nat (rc_id rc - 1)) of
        Inr e \<Rightarrow> None
      | Inl host \<Rightarrow>
          (case newStoppableListener listen host of (lis, e) \<Rightarrow>
             if e \<noteq> nil then None
             else if stopped then Some () else None))"

text \<open>What the transport calls back: everything is handed to the node of the library.\<close>

datatype 'm node_call = Step 'm | NodeReportUnreachable uint64 | NodeReportSnapshot uint64 bool

definition Process :: "('n \<Rightarrow> 'm node_call \<Rightarrow> 'n \<times> err) \<Rightarrow> ('n, 'c, 'm) curpNode \<Rightarrow> 'm \<Rightarrow> ('n, 'c, 'm) curpNode \<times> err" where
  "Process node rc m = (case node (rc_node rc) (Step m) of (n, e) \<Rightarrow> (rc\<lparr>rc_node := n\<rparr>, e))"

definition IsIDRemoved :: "('n, 'c, 'm) curpNode \<Rightarrow> uint64 \<Rightarrow> bool" where
  "IsIDRemoved rc i = False"

definition ReportUnreachable :: "('n \<Rightarrow> 'm node_call \<Rightarrow> 'n \<times> err) \<Rightarrow> ('n, 'c, 'm) curpNode \<Rightarrow> uint64 \<Rightarrow> ('n, 'c, 'm) curpNode" where
  "ReportUnreachable node rc i = rc\<lparr>rc_node := fst (node (rc_node rc) (NodeReportUnreachable i))\<rparr>"

definition ReportSnapshot ::
  "('n \<Rightarrow> 'm node_call \<Rightarrow> 'n \<times> err) \<Rightarrow> ('n, 'c, 'm) curpNode \<Rightarrow> uint64 \<Rightarrow> bool \<Rightarrow> ('n, 'c, 'm) curpNode" where
  "ReportSnapshot node rc i failed = rc\<lparr>rc_node := fst (node (rc_node rc) (NodeReportSnapshot i failed))\<rparr>"

section \<open>What survives a restart\<close>

text \<open>
  The write-ahead log as its library documents it: saved entries and snapshot marks accumulate,
  and \<open>ReadAll\<close> returns the entries.
\<close>

record 'c wal =
  wal_marks :: "'c WalSnapshot list"
  wal_entries :: "Entry list"

fun wal_write :: "('c, 'm) effect \<Rightarrow> 'c wal \<Rightarrow> 'c wal" where
  "wal_write (WalSave ents) w = w\<lparr>wal_entries := wal_entries w @ ents\<rparr>"
| "wal_write (WalSaveSnapshot m) w = w\<lparr>wal_marks := wal_marks w @ [m]\<rparr>"
| "wal_write _ w = w"

definition wal_after :: "('c, 'm) effect list \<Rightarrow> 'c wal \<Rightarrow> 'c wal" where
  "wal_after es w = fold wal_write es w"

lemma wal_after_append [simp]: "wal_after (es @ fs) w = wal_after fs (wal_after es w)"
  by (simp add: wal_after_def)

lemma wal_after_Cons: "wal_after (e # es) w = wal_after es (wal_write e w)" "wal_after [] w = w"
  by (simp_all add: wal_after_def)

text \<open>Every event of the loop only adds effects, none of which saves entries.\<close>

definition extends_unsaved :: "('n, 'c, 'm) curpNode \<Rightarrow> ('n, 'c, 'm) curpNode \<Rightarrow> bool" where
  "extends_unsaved rc rc' \<longleftrightarrow> (\<exists>fs. effects rc' = effects rc @ fs \<and> (\<forall>ents. WalSave ents \<notin> set fs))"

lemma extends_refl [simp]: "extends_unsaved rc rc"
  by (simp add: extends_unsaved_def)

lemma extends_trans [trans]: "extends_unsaved a b \<Longrightarrow> extends_unsaved b c \<Longrightarrow> extends_unsaved a c"
  unfolding extends_unsaved_def by fastforce

lemma extends_emit: "(\<forall>ents. e \<noteq> WalSave ents) \<Longrightarrow> extends_unsaved rc (emit e rc)"
  by (auto simp: extends_unsaved_def)

lemma extends_same: "effects rc' = effects rc \<Longrightarrow> extends_unsaved rc rc'"
  by (simp add: extends_unsaved_def)

lemma publish_loop_unsaved: "publish_loop L ents data rc = (rc', data', fin) \<Longrightarrow> extends_unsaved rc rc'"
proof (induction ents arbitrary: data rc)
  case (Cons ent ents)
  have conf: "extends_unsaved rc (rc\<lparr>rc_node := n, confState := cs\<rparr>)" for n cs by (rule extends_same) simp
  have peer: "extends_unsaved rc (emit (AddPeer k us) (rc\<lparr>rc_node := n, confState := cs\<rparr>))"
    "extends_unsaved rc (emit (RemovePeer k) (rc\<lparr>rc_node := n, confState := cs\<rparr>))" for k us n cs
    by (auto simp: extends_unsaved_def)
  show ?case
    using Cons.prems conf
    by (auto simp: Let_def split: EntryType.splits ConfChangeType.splits if_splits prod.splits
        dest!: Cons.IH intro: extends_trans [OF conf] extends_trans [OF peer(1)] extends_trans [OF peer(2)])
qed simp

lemma publishEntries_unsaved: "publishEntries L stopped rc ents = (rc', fin) \<Longrightarrow> extends_unsaved rc rc'"
proof -
  assume p: "publishEntries L stopped rc ents = (rc', fin)"
  obtain rc1 data b where l: "publish_loop L ents [] rc = (rc1, data, b)" by (metis prod_cases3)
  from publish_loop_unsaved [OF l] p l show ?thesis
    by (auto simp: publishEntries_def extends_unsaved_def split: if_splits bool.splits)
qed

lemma saveSnap_unsaved: "extends_unsaved rc (fst (saveSnap errs rc sp))"
  by (auto simp: saveSnap_def extends_unsaved_def Let_def split: prod.splits)

lemma publishSnapshot_unsaved: "publishSnapshot rc sp = Some rc' \<Longrightarrow> extends_unsaved rc rc'"
  by (auto simp: publishSnapshot_def extends_unsaved_def split: if_splits)

lemma stop_unsaved: "extends_unsaved rc (stop rc)" "extends_unsaved rc (writeError rc e)"
  by (auto simp: stop_def writeError_def stopHTTP_def extends_unsaved_def)

lemma handleReady_unsaved:
  assumes "handleReady L errs stopped rc rd = R" "R = Goes rc' \<or> R = Returns rc'"
  shows "extends_unsaved rc rc'"
proof -
  obtain rc1 where rc1: "(if \<not> IsEmptySnap (rd_Snapshot rd)
      then publishSnapshot (emit (ApplySnapshot (rd_Snapshot rd)) (fst (saveSnap errs rc (rd_Snapshot rd)))) (rd_Snapshot rd)
      else Some rc) = Some rc1"
    using assms by (auto simp: handleReady_def split: option.splits)
  let ?sn = "emit (ApplySnapshot (rd_Snapshot rd)) (fst (saveSnap errs rc (rd_Snapshot rd)))"
  have "extends_unsaved rc ?sn" by (rule extends_trans [OF saveSnap_unsaved extends_emit]) simp
  then have "extends_unsaved rc rc1"
    using rc1 publishSnapshot_unsaved [of ?sn "rd_Snapshot rd" rc1] by (auto split: if_splits intro: extends_trans)
  also let ?rc2 = "emit (SendMessages (rd_Messages rd)) (emit (AppendEntries (rd_Entries rd)) rc1)"
  have "extends_unsaved rc1 ?rc2" by (auto simp: extends_unsaved_def)
  also obtain ents rc3 fin where e: "entriesToApply ?rc2 (rd_CommittedEntries rd) = Some ents"
      "publishEntries L stopped ?rc2 ents = (rc3, fin)"
    using assms rc1 by (auto simp: handleReady_def Let_def split: option.splits prod.splits)
  from publishEntries_unsaved [OF e(2)] have "extends_unsaved ?rc2 rc3" .
  also have "extends_unsaved rc3 rc'"
    using assms rc1 e stop_unsaved(1) [of rc3]
    by (cases fin) (auto simp: handleReady_def Let_def extends_unsaved_def split: option.splits if_splits)
  finally show ?thesis .
qed

lemma serveChannels_case_unsaved:
  assumes "serveChannels_case L rc e = R" "R = Goes rc' \<or> R = Returns rc'"
  shows "extends_unsaved rc rc'"
proof (cases e)
  case (ReadyCame errs stopped rd)
  with assms show ?thesis using handleReady_unsaved [of L errs stopped rc rd R rc'] by simp
qed (use assms stop_unsaved in \<open>auto intro!: extends_emit\<close>)

lemma serveChannels_loop_unsaved:
  assumes "serveChannels_loop L rc es = R" "R = Goes rc' \<or> R = Returns rc'"
  shows "extends_unsaved rc rc'"
  using assms
proof (induction es arbitrary: rc)
  case (Cons e es)
  show ?case
  proof (cases "serveChannels_case L rc e")
    case (Goes rc1)
    with Cons.prems Cons.IH [of rc1] serveChannels_case_unsaved [of L rc e _ rc1] show ?thesis
      by (auto intro: extends_trans)
  next
    case (Returns rc1)
    with Cons.prems serveChannels_case_unsaved [of L rc e _ rc1] show ?thesis by auto
  qed (use Cons.prems in auto)
qed auto

lemma wal_after_unsaved: "\<forall>ents. WalSave ents \<notin> set fs \<Longrightarrow> wal_entries (wal_after fs w) = wal_entries w"
proof (induction fs arbitrary: w)
  case (Cons e fs)
  then have "wal_entries (wal_write e w) = wal_entries w" by (cases e) auto
  with Cons show ?case by (simp add: wal_after_Cons)
qed (simp add: wal_after_Cons)

lemma serveChannels_unsaved:
  assumes "serveChannels L snapshot rc es = R" "R = Goes rc' \<or> R = Returns rc'"
  shows "extends_unsaved rc rc'"
proof -
  obtain sp e where sp: "snapshot = (sp, e)" by fastforce
  with assms have "serveChannels_loop L (rc\<lparr>confState := sn_ConfState sp, snapshotIndex := sn_Index sp,
      appliedIndex := sn_Index sp\<rparr>) es = R"
    by (auto simp: serveChannels_def split: if_splits)
  from serveChannels_loop_unsaved [OF this assms(2)] show ?thesis by (simp add: extends_unsaved_def)
qed

lemma replayed_entries:
  assumes "replayWAL zero D rc = Some calls" "StoreEntries ents \<in> set calls"
  shows "ents = fst (snd (wal_ReadAll D))"
  using assms
  by (auto simp: replayWAL_def openWAL_def Let_def split: option.splits prod.splits if_splits)

text \<open>
  C25: the event loop never writes entries to the write-ahead log. Whatever a node has committed and
  published, when it is started again its storage gets exactly the entries the log held before
  the run: on a log that was created empty, none.
\<close>

theorem restart_forgets:
  assumes "serveChannels L snapshot rc es = Goes rc' \<or> serveChannels L snapshot rc es = Returns rc'"
    and "effects rc = []" "fst (snd (wal_ReadAll D)) = wal_entries (wal_after (effects rc') w)"
    and "replayWAL zero D rc2 = Some calls" "StoreEntries ents \<in> set calls"
  shows "ents = wal_entries w"
proof -
  from assms(1) have "extends_unsaved rc rc'" using serveChannels_unsaved by blast
  then have "\<forall>ents. WalSave ents \<notin> set (effects rc')" using assms(2) by (simp add: extends_unsaved_def)
  from wal_after_unsaved [OF this, of w] assms(3) replayed_entries [OF assms(4,5)] show ?thesis by simp
qed

definition demo_disk :: "bool \<Rightarrow> Entry list \<Rightarrow> (unit, unit) disk" where
  "demo_disk old ents = \<lparr>snapdir_exists = old, mkdir_snapdir = nil, wal_Exist = old,
     wal_ValidSnapshotEntries = ([], nil), LoadNewestAvailable = (\<lambda>_. (None, Some ErrNoSnapshot)),
     mkdir_waldir = nil, wal_Create = nil, wal_Open = (\<lambda>_. nil), wal_ReadAll = ((), ents, nil)\<rparr>"

theorem restart_forgets_witness:
  "\<exists>rc'. serveChannels demo_lib (demo_snap, nil) demo_node demo_raft_events = Goes rc' \<and>
     published (effects rc') = [''p'', ''q''] \<and>
     replayWAL () (demo_disk True (wal_entries (wal_after (effects rc') \<lparr>wal_marks = [], wal_entries = []\<rparr>))) demo_node =
       Some [OpenWal \<lparr>ws_Index = 0, ws_Term = 0, ws_ConfState = None\<rparr>, SetHardState (), StoreEntries []]"
proof -
  obtain rc' where run: "serveChannels demo_lib (demo_snap, nil) demo_node demo_raft_events = Goes rc'"
    and pub: "published (effects rc') = [''p'', ''q'']"
    by (simp add: raft_eval)
  let ?w = "\<lparr>wal_marks = [], wal_entries = []\<rparr> :: unit wal"
  let ?D = "demo_disk True (wal_entries (wal_after (effects rc') ?w))"
  have replay: "replayWAL () ?D demo_node = Some [OpenWal \<lparr>ws_Index = 0, ws_Term = 0, ws_ConfState = None\<rparr>,
      SetHardState (), StoreEntries (wal_entries (wal_after (effects rc') ?w))]"
    by (simp add: replayWAL_def curpNode_loadSnapshot_def openWAL_def demo_disk_def)
  have "wal_entries (wal_after (effects rc') ?w) = wal_entries ?w"
    by (rule restart_forgets [OF disjI1 [OF run] _ _ replay]) (simp_all add: demo_node_def demo_disk_def)
  with run pub replay show ?thesis by auto
qed

lemma add_peers_all:
  "set (add_peers nodeId i ps) = (\<lambda>k. TransportAddPeer (of_nat (i + k + 1)) [ps ! k]) ` {k. k < length ps \<and> int (i + k) + 1 \<noteq> nodeId}"
proof (induction ps arbitrary: i)
  case (Cons p ps)
  have "{k. k < length (p # ps) \<and> int (i + k) + 1 \<noteq> nodeId} =
      (if int i + 1 \<noteq> nodeId then {0} else {}) \<union> Suc ` {k. k < length ps \<and> int (Suc i + k) + 1 \<noteq> nodeId}"
    by (auto simp: image_iff less_Suc_eq_0_disj)
  with Cons.IH [of "i + 1"] show ?case by (auto simp: image_Un image_image)
qed simp

lemma startRaft_calls:
  assumes "startRaft zero D rc = Some calls"
  shows "(RestartNode cfg \<in> set calls \<longleftrightarrow> cfg = node_Config (rc_id rc) \<and> (wal_Exist D \<or> rc_join rc)) \<and>
    (StartNode cfg ids \<in> set calls \<longleftrightarrow> cfg = node_Config (rc_id rc) \<and> \<not> wal_Exist D \<and> \<not> rc_join rc \<and>
       ids = map (\<lambda>i. of_nat (i + 1)) [0..<length (rc_peers rc)]) \<and>
    (TransportAddPeer k us \<in> set calls \<longleftrightarrow>
       (\<exists>i<length (rc_peers rc). k = of_nat (i + 1) \<and> us = [rc_peers rc ! i] \<and> int i + 1 \<noteq> rc_id rc))"
proof -
  obtain pre replayed where c: "pre = [] \<or> pre = [MkdirSnap (snapdir rc)]" "replayWAL zero D rc = Some replayed"
    "calls = pre @ replayed @ [SnapshotterReady, if wal_Exist D \<or> rc_join rc then RestartNode (node_Config (rc_id rc))
        else StartNode (node_Config (rc_id rc)) (map (\<lambda>i. of_nat (i + 1)) [0..<length (rc_peers rc)]), TransportStart] @
        add_peers (rc_id rc) 0 (rc_peers rc) @ [GoServeRaft, GoServeChannels]"
    using assms by (auto simp: startRaft_def Let_def split: option.splits if_splits)
  have "\<forall>x\<in>set replayed. (\<forall>g. x \<noteq> RestartNode g) \<and> (\<forall>g is. x \<noteq> StartNode g is) \<and> (\<forall>k us. x \<noteq> TransportAddPeer k us)"
    using c(2) by (auto simp: replayWAL_def openWAL_def Let_def split: option.splits prod.splits if_splits)
  with c(1,3) show ?thesis by (auto simp: add_peers_all)
qed

text \<open>
  A node that starts is restarted from its storage exactly when a write-ahead log existed or it
  joins; otherwise it starts a cluster of the members \<open>1..n\<close>. It reports the snapshotter after the
  replay and connects to every peer but itself.
\<close>

theorem raft_start_mode:
  assumes "startRaft zero D rc = Some calls"
  shows "(RestartNode cfg \<in> set calls \<longleftrightarrow> cfg = node_Config (rc_id rc) \<and> (wal_Exist D \<or> rc_join rc)) \<and>
    (StartNode cfg ids \<in> set calls \<longleftrightarrow> cfg = node_Config (rc_id rc) \<and> \<not> wal_Exist D \<and> \<not> rc_join rc \<and>
       ids = map (\<lambda>i. of_nat (i + 1)) [0..<length (rc_peers rc)]) \<and>
    (TransportAddPeer k us \<in> set calls \<longleftrightarrow>
       (\<exists>i<length (rc_peers rc). k = of_nat (i + 1) \<and> us = [rc_peers rc ! i] \<and> int i + 1 \<noteq> rc_id rc))"
  by (rule startRaft_calls [OF assms])

theorem raft_start_mode_witness:
  "\<exists>calls. startRaft () (demo_disk False []) (newRaftNode () () 2 [''a'', ''b''] False :: (unit, unit, unit) curpNode) = Some calls \<and>
     StartNode (node_Config 2) [1, 2] \<in> set calls \<and> TransportAddPeer 1 [''a''] \<in> set calls"
proof -
  let ?rc = "newRaftNode () () 2 [''a'', ''b''] False :: (unit, unit, unit) curpNode"
  obtain calls where c: "startRaft () (demo_disk False []) ?rc = Some calls"
    by (simp add: startRaft_def replayWAL_def curpNode_loadSnapshot_def openWAL_def demo_disk_def Let_def)
  from raft_start_mode [OF c, of "node_Config 2" "[1, 2]" 1 "[''a'']"] c show ?thesis
    by (auto simp: newRaftNode_def demo_disk_def upt_rec)
qed

end
