(* ===== verification/Disk_Stores.thy ===== *)
theory Disk_Stores
  imports KV_Store Replica Go_Strings
begin

text \<open>
  The two stores on third-party databases: \<open>kv/blot_kv.go\<close> over bolt and \<open>kv/badger_kv.go\<close>
  over badger. The databases are parameters: records of the calls the program makes. A
  transaction function is an argument of \<open>Update\<close> or \<open>View\<close>, which run it; the variable it
  captures is the last component of its result. What the databases document is stated as the
  predicates \<open>bolt_documented\<close> and \<open>badger_documented\<close>. Under them the badger store meets the contract
  \<open>kv_store\<close>, and the bolt store \<open>kv_map\<close>: bolt does not vouch for the old values it reports.
\<close>

section \<open>Bolt\<close>

text \<open>
  \<open>bolt_keys\<close> are the keys a cursor visits, in order, and \<open>bolt_View_lists\<close> is \<open>View\<close> for a function
  that fills two slices and may panic (\<open>None\<close>). \<open>bolt_Bucket\<close> says whether a bucket exists; the
  bucket of a store does, since \<open>NewBoltStore\<close> made it and nothing removes it, and the operations
  of the store read and write it without asking. The second argument of \<open>bolt_Open\<close> is the time
  to wait for the file lock, 0 for no limit. A missing key reads as \<open>None\<close>, the nil
  slice. \<open>bolt_View\<close> has no state to return. \<open>bolt_reread\<close> is what the bytes of a slice that \<open>Get\<close>
  returned in a transaction read as when the transaction has ended. Bolt promises nothing about it (it
  may even fault, which has no value here), and no law below mentions it.
\<close>

record ('d, 't) bolt =
  bolt_Open :: "string \<Rightarrow> int \<Rightarrow> 'd + error"
  bolt_Close :: "'d \<Rightarrow> 'd"
  bolt_Update :: "'d \<Rightarrow> ('t \<Rightarrow> 't \<times> err \<times> string option) \<Rightarrow> 'd \<times> err \<times> string option"
  bolt_View :: "'d \<Rightarrow> ('t \<Rightarrow> err \<times> string option) \<Rightarrow> err \<times> string option"
  bolt_CreateBucketIfNotExists :: "'t \<Rightarrow> string \<Rightarrow> 't \<times> err"
  bolt_get :: "'t \<Rightarrow> string \<Rightarrow> string \<Rightarrow> string option"
  bolt_reread :: "'d \<Rightarrow> string \<Rightarrow> string"
  bolt_put :: "'t \<Rightarrow> string \<Rightarrow> string \<Rightarrow> string \<Rightarrow> 't \<times> err"
  bolt_delete :: "'t \<Rightarrow> string \<Rightarrow> string \<Rightarrow> 't \<times> err"
  bolt_View_lists :: "'d \<Rightarrow> ('t \<Rightarrow> (err \<times> string list \<times> string list) option) \<Rightarrow> (err \<times> string list \<times> string list) option"
  bolt_Bucket :: "'t \<Rightarrow> string \<Rightarrow> bool"
  bolt_keys :: "'t \<Rightarrow> string \<Rightarrow> string list"
  bolt_Begin :: "'d \<Rightarrow> bool \<Rightarrow> 'd \<times> 't option \<times> err"
  bolt_Commit :: "'d \<Rightarrow> 't \<Rightarrow> 'd \<times> err"
  bolt_Rollback :: "'d \<Rightarrow> 't \<Rightarrow> 'd \<times> err"

definition ErrBucketNotFound :: error where
  "ErrBucketNotFound = LibError ''bucket not found''"

record 'd BoltStore =
  bolt_path :: string
  bolt_db :: 'd
  bucketName :: string

definition NewBoltStore :: "('d, 't) bolt \<Rightarrow> string \<Rightarrow> string \<Rightarrow> 'd BoltStore option \<times> err" where
  "NewBoltStore B dbPath bucket =
     (case bolt_Open B dbPath 0 of
        Inr e \<Rightarrow> (None, Some e)
      | Inl db \<Rightarrow>
          (case bolt_Update B db (\<lambda>tx. case bolt_CreateBucketIfNotExists B tx bucket of (tx', e) \<Rightarrow> (tx', e, None)) of
             (db', e, _) \<Rightarrow>
               if e \<noteq> nil then (None, e)
               else (Some \<lparr>bolt_path = dbPath, bolt_db = db', bucketName = bucket\<rparr>, nil)))"

definition BoltStore_Close :: "('d, 't) bolt \<Rightarrow> 'd BoltStore \<Rightarrow> 'd BoltStore" where
  "BoltStore_Close B s = s\<lparr>bolt_db := bolt_Close B (bolt_db s)\<rparr>"

text \<open>Removing the file is outside the model.\<close>

definition BoltStore_Destroy :: "('d, 't) bolt \<Rightarrow> 'd BoltStore \<Rightarrow> 'd BoltStore" where
  "BoltStore_Destroy B s = s\<lparr>bolt_db := bolt_Close B (bolt_db s)\<rparr>"

definition BoltStore_Put :: "('d, 't) bolt \<Rightarrow> 'd BoltStore \<Rightarrow> string \<Rightarrow> string \<Rightarrow> 'd BoltStore \<times> err" where
  "BoltStore_Put B s key val =
     (case bolt_Update B (bolt_db s)
             (\<lambda>tx. case bolt_put B tx (bucketName s) key val of (tx', e) \<Rightarrow> (tx', e, None)) of
        (db, e, _) \<Rightarrow> (s\<lparr>bolt_db := db\<rparr>, e))"

definition BoltStore_Get :: "('d, 't) bolt \<Rightarrow> 'd BoltStore \<Rightarrow> string \<Rightarrow> string \<times> err" where
  "BoltStore_Get B s key =
     (case bolt_View B (bolt_db s)
             (\<lambda>tx. case bolt_get B tx (bucketName s) key of
                     None \<Rightarrow> (Some ErrBucketNotFound, None)
                   | Some v \<Rightarrow> (nil, Some v)) of
        (e, val) \<Rightarrow> (old_string val, e))"

definition BoltStore_Delete :: "('d, 't) bolt \<Rightarrow> 'd BoltStore \<Rightarrow> string \<Rightarrow> 'd BoltStore \<times> err" where
  "BoltStore_Delete B s key =
     (case bolt_Update B (bolt_db s)
             (\<lambda>tx. case bolt_delete B tx (bucketName s) key of (tx', e) \<Rightarrow> (tx', e, None)) of
        (db, e, _) \<Rightarrow> (s\<lparr>bolt_db := db\<rparr>, e))"

text \<open>
  The old value is the slice that \<open>Get\<close> returned in the transaction. It is tested for nil and read
  when the transaction has ended.
\<close>

definition BoltStore_PutWithOldValue ::
  "('d, 't) bolt \<Rightarrow> 'd BoltStore \<Rightarrow> string \<Rightarrow> string \<Rightarrow> 'd BoltStore \<times> string \<times> err" where
  "BoltStore_PutWithOldValue B s key val =
     (case bolt_Update B (bolt_db s)
             (\<lambda>tx. let old_value = bolt_get B tx (bucketName s) key in
                   case bolt_put B tx (bucketName s) key val of (tx', e) \<Rightarrow> (tx', e, old_value)) of
        (db, e, old_value) \<Rightarrow>
          (case old_value of
             None \<Rightarrow> (s\<lparr>bolt_db := db\<rparr>, [], e)
           | Some v \<Rightarrow> (s\<lparr>bolt_db := db\<rparr>, bolt_reread B db v, e)))"

definition BoltStore_RollbackPutWithOldValue ::
  "('d, 't) bolt \<Rightarrow> 'd BoltStore \<Rightarrow> string \<Rightarrow> string \<Rightarrow> 'd BoltStore \<times> err" where
  "BoltStore_RollbackPutWithOldValue B s key old_value =
     (if length old_value = 0 then BoltStore_Delete B s key else BoltStore_Put B s key old_value)"

definition BoltStore_RollbackDeleteWithOldValue ::
  "('d, 't) bolt \<Rightarrow> 'd BoltStore \<Rightarrow> string \<Rightarrow> string \<Rightarrow> 'd BoltStore \<times> err" where
  "BoltStore_RollbackDeleteWithOldValue B s key old_value = BoltStore_Put B s key old_value"

definition BoltStore_DeleteWithOldValue ::
  "('d, 't) bolt \<Rightarrow> 'd BoltStore \<Rightarrow> string \<Rightarrow> 'd BoltStore \<times> string \<times> err" where
  "BoltStore_DeleteWithOldValue B s key =
     (case bolt_Update B (bolt_db s)
             (\<lambda>tx. let val = bolt_get B tx (bucketName s) key in
                   case bolt_delete B tx (bucketName s) key of (tx', e) \<Rightarrow> (tx', e, val)) of
        (db, e, val) \<Rightarrow> (s\<lparr>bolt_db := db\<rparr>, old_string (map_option (bolt_reread B db) val), e))"

definition BoltStore_KVStore :: "('d, 't) bolt \<Rightarrow> 'd BoltStore KVStore" where
  "BoltStore_KVStore B =
     \<lparr>kv_Get = BoltStore_Get B, kv_Put = BoltStore_Put B, kv_Delete = BoltStore_Delete B,
      kv_PutWithOldValue = BoltStore_PutWithOldValue B,
      kv_RollbackPutWithOldValue = BoltStore_RollbackPutWithOldValue B,
      kv_RollbackDeleteWithOldValue = BoltStore_RollbackDeleteWithOldValue B,
      kv_DeleteWithOldValue = BoltStore_DeleteWithOldValue B,
      kv_Destroy = BoltStore_Destroy B\<rparr>"

text \<open>
  \<open>Equal\<close>. The first loop collects the keys and values of one store and stops at a key without
  value, whose error is dropped. The second walks the keys of the other store, in a bucket with
  the name of the first: the last index with the key counts, and an index without a value panics.
\<close>

fun BoltStore_Equal_collect ::
  "(string \<Rightarrow> string option) \<Rightarrow> string list \<Rightarrow> string list \<Rightarrow> string list \<Rightarrow> err \<times> string list \<times> string list" where
  "BoltStore_Equal_collect get [] ks vs = (nil, ks, vs)"
| "BoltStore_Equal_collect get (key # rest) ks vs =
     (case get key of
        None \<Rightarrow> (Some ErrBucketNotFound, ks @ [key], vs)
      | Some v \<Rightarrow> BoltStore_Equal_collect get rest (ks @ [key]) (vs @ [v]))"

fun BoltStore_Equal_index :: "string list \<Rightarrow> string \<Rightarrow> nat \<Rightarrow> nat option \<Rightarrow> nat option" where
  "BoltStore_Equal_index [] key i index = index"
| "BoltStore_Equal_index (k # ks) key i index =
     BoltStore_Equal_index ks key (i + 1) (if k = key then Some i else index)"

fun BoltStore_Equal_compare ::
  "(string \<Rightarrow> string option) \<Rightarrow> string list \<Rightarrow> string list \<Rightarrow> string list \<Rightarrow> err option" where
  "BoltStore_Equal_compare get ks vs [] = Some nil"
| "BoltStore_Equal_compare get ks vs (key # rest) =
     (let val = old_string (get key) in
      case BoltStore_Equal_index ks key 0 None of
        None \<Rightarrow> Some (Some (Errorf (''find key '' @ key @ '' no exist'')))
      | Some i \<Rightarrow>
          if i \<ge> length vs then None
          else if vs ! i \<noteq> val
          then Some (Some (Errorf (''find value at '' @ key @ '' not equal, expect '' @ val @ '', get '' @ vs ! i)))
          else BoltStore_Equal_compare get ks vs rest)"

definition BoltStore_Equal :: "('d, 't) bolt \<Rightarrow> 'd BoltStore \<Rightarrow> 'd BoltStore \<Rightarrow> err option" where
  "BoltStore_Equal B s t =
     (case bolt_View_lists B (bolt_db s)
             (\<lambda>tx. if \<not> bolt_Bucket B tx (bucketName s) then None
                   else Some (BoltStore_Equal_collect (bolt_get B tx (bucketName s)) (bolt_keys B tx (bucketName s)) [] [])) of
        None \<Rightarrow> None
      | Some (_, ks, vs) \<Rightarrow>
          map_option fst (bolt_View_lists B (bolt_db t)
             (\<lambda>tx. if \<not> bolt_Bucket B tx (bucketName s) then None
                   else map_option (\<lambda>e. (e, ks, vs))
                     (BoltStore_Equal_compare (bolt_get B tx (bucketName s)) ks vs (bolt_keys B tx (bucketName s))))))"

text \<open>A transaction in the caller's hands; the database is the state its calls change.\<close>

definition BoltStore_Begin :: "('d, 't) bolt \<Rightarrow> 'd BoltStore \<Rightarrow> 'd BoltStore \<times> 't option \<times> err" where
  "BoltStore_Begin B s = (case bolt_Begin B (bolt_db s) True of (db, tx, e) \<Rightarrow> (s\<lparr>bolt_db := db\<rparr>, tx, e))"

definition BoltStore_Commit :: "('d, 't) bolt \<Rightarrow> 'd BoltStore \<Rightarrow> 't \<Rightarrow> 'd BoltStore \<times> err" where
  "BoltStore_Commit B s tx = (case bolt_Commit B (bolt_db s) tx of (db, e) \<Rightarrow> (s\<lparr>bolt_db := db\<rparr>, e))"

definition BoltStore_Rollback :: "('d, 't) bolt \<Rightarrow> 'd BoltStore \<Rightarrow> 't \<Rightarrow> 'd BoltStore \<times> err" where
  "BoltStore_Rollback B s tx = (case bolt_Rollback B (bolt_db s) tx of (db, e) \<Rightarrow> (s\<lparr>bolt_db := db\<rparr>, e))"

text \<open>
  \<open>kv/blotdb.go\<close>, of which only the constructor is code. \<open>None\<close> is the \<open>log.Fatal\<close>.
\<close>

record 'd BlotDb_KVStore =
  blot_dbPath :: string
  blot_db :: 'd

definition NewBlotdb :: "('d, 't) bolt \<Rightarrow> string \<Rightarrow> 'd BlotDb_KVStore option" where
  "NewBlotdb B dbPath =
     (case bolt_Open B dbPath 1000000000 of
        Inr e \<Rightarrow> None
      | Inl db \<Rightarrow> Some \<lparr>blot_dbPath = dbPath, blot_db = db\<rparr>)"

text \<open>
  \<open>newState\<close>, the constructor of the state machine over a bolt store. The error of
  \<open>NewBoltStore\<close> is dropped; the machine then holds a nil store.
\<close>

definition newState ::
  "('d, 't) bolt \<Rightarrow> int \<Rightarrow> (string option \<times> err) option \<Rightarrow> 'd BoltStore option StateMachine option" where
  "newState B nodeId snapshotter =
     (case NewBoltStore B (''curp-'' @ itoa nodeId) ''test'' of (kv, _) \<Rightarrow> reloadSnapshot (initial_state nodeId kv) snapshotter)"

section \<open>Badger\<close>

text \<open>
  \<open>badger_Get\<close> gives the item or an error; \<open>badger_ValueCopy\<close> the bytes of an item.
\<close>

record ('d, 't, 'i) badger =
  badger_Open :: "string \<Rightarrow> 'd \<times> err"
  badger_Close :: "'d \<Rightarrow> 'd"
  badger_Update :: "'d \<Rightarrow> ('t \<Rightarrow> 't \<times> err \<times> (string \<times> err)) \<Rightarrow> 'd \<times> err \<times> (string \<times> err)"
  badger_View :: "'d \<Rightarrow> ('t \<Rightarrow> err \<times> string) \<Rightarrow> err \<times> string"
  badger_Get :: "'t \<Rightarrow> string \<Rightarrow> 'i + error"
  badger_ValueCopy :: "'i \<Rightarrow> string \<times> err"
  badger_Set :: "'t \<Rightarrow> string \<Rightarrow> string \<Rightarrow> 't \<times> err"
  badger_Delete :: "'t \<Rightarrow> string \<Rightarrow> 't \<times> err"

record 'd BadgerStore =
  badger_path :: string
  badger_db :: 'd

definition NewBadgerStore :: "('d, 't, 'i) badger \<Rightarrow> string \<Rightarrow> 'd BadgerStore \<times> err" where
  "NewBadgerStore B dbPath = (case badger_Open B dbPath of (db, e) \<Rightarrow> (\<lparr>badger_path = dbPath, badger_db = db\<rparr>, e))"

definition BadgerStore_Close :: "('d, 't, 'i) badger \<Rightarrow> 'd BadgerStore \<Rightarrow> 'd BadgerStore" where
  "BadgerStore_Close B s = s\<lparr>badger_db := badger_Close B (badger_db s)\<rparr>"

definition BadgerStore_Destroy :: "('d, 't, 'i) badger \<Rightarrow> 'd BadgerStore \<Rightarrow> 'd BadgerStore" where
  "BadgerStore_Destroy B s = s\<lparr>badger_db := badger_Close B (badger_db s)\<rparr>"

definition BadgerStore_Put ::
  "('d, 't, 'i) badger \<Rightarrow> 'd BadgerStore \<Rightarrow> string \<Rightarrow> string \<Rightarrow> 'd BadgerStore \<times> err" where
  "BadgerStore_Put B s key val =
     (case badger_Update B (badger_db s) (\<lambda>txn. case badger_Set B txn key val of (txn', e) \<Rightarrow> (txn', e, ([], nil))) of
        (db, e, _) \<Rightarrow> (s\<lparr>badger_db := db\<rparr>, e))"

definition BadgerStore_Get :: "('d, 't, 'i) badger \<Rightarrow> 'd BadgerStore \<Rightarrow> string \<Rightarrow> string \<times> err" where
  "BadgerStore_Get B s key =
     (case badger_View B (badger_db s)
             (\<lambda>txn. case badger_Get B txn key of
                      Inr e \<Rightarrow> (Some e, [])
                    | Inl item \<Rightarrow> (case badger_ValueCopy B item of (valCopy, e) \<Rightarrow> (e, valCopy))) of
        (e, valCopy) \<Rightarrow> (valCopy, e))"

definition BadgerStore_Delete :: "('d, 't, 'i) badger \<Rightarrow> 'd BadgerStore \<Rightarrow> string \<Rightarrow> 'd BadgerStore \<times> err" where
  "BadgerStore_Delete B s key =
     (case badger_Update B (badger_db s) (\<lambda>txn. case badger_Delete B txn key of (txn', e) \<Rightarrow> (txn', e, ([], nil))) of
        (db, e, _) \<Rightarrow> (s\<lparr>badger_db := db\<rparr>, e))"

definition BadgerStore_PutWithOldValue ::
  "('d, 't, 'i) badger \<Rightarrow> 'd BadgerStore \<Rightarrow> string \<Rightarrow> string \<Rightarrow> 'd BadgerStore \<times> string \<times> err" where
  "BadgerStore_PutWithOldValue B s key val =
     (case badger_Update B (badger_db s)
             (\<lambda>txn. let old = (case badger_Get B txn key of
                                 Inr e \<Rightarrow> ([], Some e)
                               | Inl item \<Rightarrow> badger_ValueCopy B item) in
                    case badger_Set B txn key val of (txn', e) \<Rightarrow> (txn', e, old)) of
        (db, e, (old_value, readErr)) \<Rightarrow>
          if readErr \<noteq> nil then (s\<lparr>badger_db := db\<rparr>, [], readErr)
          else (s\<lparr>badger_db := db\<rparr>, old_value, e))"

definition BadgerStore_RollbackPutWithOldValue ::
  "('d, 't, 'i) badger \<Rightarrow> 'd BadgerStore \<Rightarrow> string \<Rightarrow> string \<Rightarrow> 'd BadgerStore \<times> err" where
  "BadgerStore_RollbackPutWithOldValue B s key old_value =
     (if length old_value = 0 then BadgerStore_Delete B s key else BadgerStore_Put B s key old_value)"

definition BadgerStore_RollbackDeleteWithOldValue ::
  "('d, 't, 'i) badger \<Rightarrow> 'd BadgerStore \<Rightarrow> string \<Rightarrow> string \<Rightarrow> 'd BadgerStore \<times> err" where
  "BadgerStore_RollbackDeleteWithOldValue B s key old_value = BadgerStore_Put B s key old_value"

definition BadgerStore_DeleteWithOldValue ::
  "('d, 't, 'i) badger \<Rightarrow> 'd BadgerStore \<Rightarrow> string \<Rightarrow> 'd BadgerStore \<times> string \<times> err" where
  "BadgerStore_DeleteWithOldValue B s key =
     (case badger_Update B (badger_db s)
             (\<lambda>txn. case badger_Get B txn key of
                      Inr e \<Rightarrow> (txn, Some e, ([], nil))
                    | Inl item \<Rightarrow>
                        (case badger_ValueCopy B item of (val, e) \<Rightarrow>
                           if e \<noteq> nil then (txn, e, (val, nil))
                           else case badger_Delete B txn key of (txn', e') \<Rightarrow> (txn', e', (val, nil)))) of
        (db, e, (val, _)) \<Rightarrow> (s\<lparr>badger_db := db\<rparr>, val, e))"

definition BadgerStore_KVStore :: "('d, 't, 'i) badger \<Rightarrow> 'd BadgerStore KVStore" where
  "BadgerStore_KVStore B =
     \<lparr>kv_Get = BadgerStore_Get B, kv_Put = BadgerStore_Put B, kv_Delete = BadgerStore_Delete B,
      kv_PutWithOldValue = BadgerStore_PutWithOldValue B,
      kv_RollbackPutWithOldValue = BadgerStore_RollbackPutWithOldValue B,
      kv_RollbackDeleteWithOldValue = BadgerStore_RollbackDeleteWithOldValue B,
      kv_DeleteWithOldValue = BadgerStore_DeleteWithOldValue B,
      kv_Destroy = BadgerStore_Destroy B\<rparr>"

section \<open>What the databases document\<close>

text \<open>
  Bolt: on an open database \<open>Update\<close> runs the function in a transaction that shows the
  database's contents; an error of the function rolls back and is returned, otherwise the
  transaction is committed, which may fail and then leaves the contents alone. \<open>View\<close> returns
  what the function returns. \<open>Get\<close> reads; \<open>Put\<close> and \<open>Delete\<close> change one key or fail.
\<close>

definition bolt_documented ::
  "('d, 't) bolt \<Rightarrow> ('d \<Rightarrow> string \<Rightarrow> store) \<Rightarrow> ('t \<Rightarrow> string \<Rightarrow> store) \<Rightarrow> ('d \<Rightarrow> bool) \<Rightarrow> bool" where
  "bolt_documented B contents sees is_open \<longleftrightarrow>
     (\<forall>db f db' e' r'. is_open db \<and> bolt_Update B db f = (db', e', r') \<longrightarrow>
        is_open db' \<and>
        (\<exists>tx tx' e. sees tx = contents db \<and> f tx = (tx', e, r') \<and>
           (if e' = nil then e = nil \<and> contents db' = sees tx'
            else contents db' = contents db \<and> (e \<noteq> nil \<longrightarrow> e' = e)))) \<and>
     (\<forall>db f. is_open db \<longrightarrow> (\<exists>tx. sees tx = contents db \<and> bolt_View B db f = f tx)) \<and>
     (\<forall>tx b k. bolt_get B tx b k = sees tx b k) \<and>
     (\<forall>tx b k v tx'. bolt_put B tx b k v = (tx', nil) \<longrightarrow> sees tx' = (sees tx)(b := (sees tx b)(k \<mapsto> v))) \<and>
     (\<forall>tx b k tx'. bolt_delete B tx b k = (tx', nil) \<longrightarrow> sees tx' = (sees tx)(b := (sees tx b)(k := None)))"

text \<open>
  Badger: the same of its transactions; \<open>Get\<close> gives an error exactly for a missing key, and the
  copy of a found item's value succeeds.
\<close>

definition badger_documented ::
  "('d, 't, 'i) badger \<Rightarrow> ('d \<Rightarrow> store) \<Rightarrow> ('t \<Rightarrow> store) \<Rightarrow> ('d \<Rightarrow> bool) \<Rightarrow> bool" where
  "badger_documented B contents sees is_open \<longleftrightarrow>
     (\<forall>db f db' e' r'. is_open db \<and> badger_Update B db f = (db', e', r') \<longrightarrow>
        is_open db' \<and>
        (\<exists>tx tx' e. sees tx = contents db \<and> f tx = (tx', e, r') \<and>
           (if e' = nil then e = nil \<and> contents db' = sees tx'
            else contents db' = contents db \<and> (e \<noteq> nil \<longrightarrow> e' = e)))) \<and>
     (\<forall>db f. is_open db \<longrightarrow> (\<exists>tx. sees tx = contents db \<and> badger_View B db f = f tx)) \<and>
     (\<forall>tx k. case badger_Get B tx k of
        Inr e \<Rightarrow> sees tx k = None
      | Inl item \<Rightarrow> \<exists>v. sees tx k = Some v \<and> badger_ValueCopy B item = (v, nil)) \<and>
     (\<forall>tx k v tx'. badger_Set B tx k v = (tx', nil) \<longrightarrow> sees tx' = (sees tx)(k \<mapsto> v)) \<and>
     (\<forall>tx k tx'. badger_Delete B tx k = (tx', nil) \<longrightarrow> sees tx' = (sees tx)(k := None))"

definition bolt_view :: "('d \<Rightarrow> string \<Rightarrow> store) \<Rightarrow> 'd BoltStore \<Rightarrow> store" where
  "bolt_view contents s = contents (bolt_db s) (bucketName s)"

text \<open>One law each, in the form the proofs use.\<close>

lemma bolt_Update_law:
  assumes "bolt_documented B contents sees is_open" "is_open db" "bolt_Update B db f = (db', e', r')"
  shows "is_open db' \<and> (\<exists>tx. sees tx = contents db \<and> r' = snd (snd (f tx)) \<and>
    (e' = nil \<longrightarrow> fst (snd (f tx)) = nil \<and> contents db' = sees (fst (f tx))) \<and>
    (e' \<noteq> nil \<longrightarrow> contents db' = contents db))"
  using assms(1) [unfolded bolt_documented_def, THEN conjunct1, rule_format, of db f db' e' r'] assms(2,3)
  by (auto split: if_splits)

lemma bolt_View_law:
  assumes "bolt_documented B contents sees is_open" "is_open db"
  obtains tx where "sees tx = contents db" "bolt_View B db f = f tx"
  using assms unfolding bolt_documented_def by metis

lemma bolt_tx_laws:
  assumes "bolt_documented B contents sees is_open"
  shows "bolt_get B tx b k = sees tx b k"
    and "snd (bolt_put B tx b k v) = nil \<Longrightarrow>
      sees (fst (bolt_put B tx b k v)) = (sees tx)(b := (sees tx b)(k \<mapsto> v))"
    and "snd (bolt_delete B tx b k) = nil \<Longrightarrow>
      sees (fst (bolt_delete B tx b k)) = (sees tx)(b := (sees tx b)(k := None))"
  using assms unfolding bolt_documented_def by (blast, metis prod.collapse, metis prod.collapse)

lemma bolt_put_view:
  assumes doc: "bolt_documented B contents sees is_open"
    and "is_open (bolt_db s)" "BoltStore_Put B s k v = (t, e)"
  shows "is_open (bolt_db t) \<and> bolt_view contents t =
    (if e = nil then (bolt_view contents s)(k \<mapsto> v) else bolt_view contents s)"
proof -
  obtain db r where u: "bolt_Update B (bolt_db s)
      (\<lambda>tx. case bolt_put B tx (bucketName s) k v of (tx', e) \<Rightarrow> (tx', e, None)) = (db, e, r)" "t = s\<lparr>bolt_db := db\<rparr>"
    using assms(3) by (auto simp: BoltStore_Put_def split: prod.splits)
  from bolt_Update_law [OF doc assms(2) u(1)] obtain tx where
    "is_open db" "sees tx = contents (bolt_db s)"
    "e = nil \<longrightarrow> snd (bolt_put B tx (bucketName s) k v) = nil \<and> contents db = sees (fst (bolt_put B tx (bucketName s) k v))"
    "e \<noteq> nil \<longrightarrow> contents db = contents (bolt_db s)"
    by (auto simp: case_prod_unfold)
  with u(2) bolt_tx_laws(2) [OF doc] show ?thesis by (auto simp: bolt_view_def split: if_splits)
qed

lemma bolt_delete_view:
  assumes doc: "bolt_documented B contents sees is_open"
    and "is_open (bolt_db s)" "BoltStore_Delete B s k = (t, e)"
  shows "is_open (bolt_db t) \<and> bolt_view contents t =
    (if e = nil then (bolt_view contents s)(k := None) else bolt_view contents s)"
proof -
  obtain db r where u: "bolt_Update B (bolt_db s)
      (\<lambda>tx. case bolt_delete B tx (bucketName s) k of (tx', e) \<Rightarrow> (tx', e, None)) = (db, e, r)" "t = s\<lparr>bolt_db := db\<rparr>"
    using assms(3) by (auto simp: BoltStore_Delete_def split: prod.splits)
  from bolt_Update_law [OF doc assms(2) u(1)] obtain tx where
    "is_open db" "sees tx = contents (bolt_db s)"
    "e = nil \<longrightarrow> snd (bolt_delete B tx (bucketName s) k) = nil \<and> contents db = sees (fst (bolt_delete B tx (bucketName s) k))"
    "e \<noteq> nil \<longrightarrow> contents db = contents (bolt_db s)"
    by (auto simp: case_prod_unfold)
  with u(2) bolt_tx_laws(3) [OF doc] show ?thesis by (auto simp: bolt_view_def split: if_splits)
qed

lemma bolt_old_views:
  assumes doc: "bolt_documented B contents sees is_open" and op: "is_open (bolt_db s)"
  shows "BoltStore_PutWithOldValue B s k v = (t, old, e) \<Longrightarrow> is_open (bolt_db t) \<and>
      (bolt_view contents t = (bolt_view contents s)(k \<mapsto> v) \<or>
       bolt_view contents t = bolt_view contents s \<and> e \<noteq> nil) \<and>
      old = old_string (map_option (bolt_reread B (bolt_db t)) (bolt_view contents s k))"
    and "BoltStore_DeleteWithOldValue B s k = (t, old, e) \<Longrightarrow> is_open (bolt_db t) \<and>
      (bolt_view contents t = (bolt_view contents s)(k := None) \<or>
       bolt_view contents t = bolt_view contents s \<and> e \<noteq> nil) \<and>
      old = old_string (map_option (bolt_reread B (bolt_db t)) (bolt_view contents s k))"
proof -
  assume "BoltStore_PutWithOldValue B s k v = (t, old, e)"
  then obtain db r where u: "bolt_Update B (bolt_db s)
      (\<lambda>tx. let old_value = bolt_get B tx (bucketName s) k in
            case bolt_put B tx (bucketName s) k v of (tx', e) \<Rightarrow> (tx', e, old_value)) = (db, e, r)"
      "t = s\<lparr>bolt_db := db\<rparr>" "old = old_string (map_option (bolt_reread B db) r)"
    by (auto simp: BoltStore_PutWithOldValue_def old_string_def split: prod.splits option.splits)
  from bolt_Update_law [OF doc op u(1)] obtain tx where
    "is_open db" "sees tx = contents (bolt_db s)" "r = bolt_get B tx (bucketName s) k"
    "e = nil \<longrightarrow> snd (bolt_put B tx (bucketName s) k v) = nil \<and> contents db = sees (fst (bolt_put B tx (bucketName s) k v))"
    "e \<noteq> nil \<longrightarrow> contents db = contents (bolt_db s)"
    by (auto simp: Let_def case_prod_unfold)
  with u(2,3) bolt_tx_laws(1) [OF doc, of tx] bolt_tx_laws(2) [OF doc, of tx "bucketName s" k v] show "is_open (bolt_db t) \<and>
      (bolt_view contents t = (bolt_view contents s)(k \<mapsto> v) \<or>
       bolt_view contents t = bolt_view contents s \<and> e \<noteq> nil) \<and>
      old = old_string (map_option (bolt_reread B (bolt_db t)) (bolt_view contents s k))"
    by (cases "e = nil") (auto simp: bolt_view_def fun_eq_iff)
next
  assume "BoltStore_DeleteWithOldValue B s k = (t, old, e)"
  then obtain db r where u: "bolt_Update B (bolt_db s)
      (\<lambda>tx. let val = bolt_get B tx (bucketName s) k in
            case bolt_delete B tx (bucketName s) k of (tx', e) \<Rightarrow> (tx', e, val)) = (db, e, r)"
      "t = s\<lparr>bolt_db := db\<rparr>" "old = old_string (map_option (bolt_reread B db) r)"
    by (auto simp: BoltStore_DeleteWithOldValue_def split: prod.splits)
  from bolt_Update_law [OF doc op u(1)] obtain tx where
    "is_open db" "sees tx = contents (bolt_db s)" "r = bolt_get B tx (bucketName s) k"
    "e = nil \<longrightarrow> snd (bolt_delete B tx (bucketName s) k) = nil \<and> contents db = sees (fst (bolt_delete B tx (bucketName s) k))"
    "e \<noteq> nil \<longrightarrow> contents db = contents (bolt_db s)"
    by (auto simp: Let_def case_prod_unfold)
  with u(2,3) bolt_tx_laws(1) [OF doc, of tx] bolt_tx_laws(3) [OF doc, of tx "bucketName s" k] show "is_open (bolt_db t) \<and>
      (bolt_view contents t = (bolt_view contents s)(k := None) \<or>
       bolt_view contents t = bolt_view contents s \<and> e \<noteq> nil) \<and>
      old = old_string (map_option (bolt_reread B (bolt_db t)) (bolt_view contents s k))"
    by (cases "e = nil") (auto simp: bolt_view_def fun_eq_iff)
qed

lemma bolt_get_view:
  assumes "bolt_documented B contents sees is_open" "is_open (bolt_db s)"
  shows "BoltStore_Get B s k =
    (case bolt_view contents s k of None \<Rightarrow> ([], Some ErrBucketNotFound) | Some v \<Rightarrow> (v, nil))"
proof -
  obtain tx where "sees tx = contents (bolt_db s)"
    "bolt_View B (bolt_db s) (\<lambda>tx. case bolt_get B tx (bucketName s) k of
        None \<Rightarrow> (Some ErrBucketNotFound, None) | Some v \<Rightarrow> (nil, Some v)) =
     (case bolt_get B tx (bucketName s) k of None \<Rightarrow> (Some ErrBucketNotFound, None) | Some v \<Rightarrow> (nil, Some v))"
    by (rule bolt_View_law [OF assms])
  with bolt_tx_laws(1) [OF assms(1)] show ?thesis
    by (auto simp: BoltStore_Get_def bolt_view_def old_string_def split: option.splits)
qed

lemmas bolt_views = bolt_get_view bolt_put_view bolt_delete_view bolt_old_views

text \<open>The same for badger.\<close>

lemma badger_Update_law:
  assumes "badger_documented B contents sees is_open" "is_open db" "badger_Update B db f = (db', e', r')"
  shows "is_open db' \<and> (\<exists>tx. sees tx = contents db \<and> r' = snd (snd (f tx)) \<and>
    (e' = nil \<longrightarrow> fst (snd (f tx)) = nil \<and> contents db' = sees (fst (f tx))) \<and>
    (e' \<noteq> nil \<longrightarrow> contents db' = contents db))"
  using assms(1) [unfolded badger_documented_def, THEN conjunct1, rule_format, of db f db' e' r'] assms(2,3)
  by (auto split: if_splits)

lemma badger_View_law:
  assumes "badger_documented B contents sees is_open" "is_open db"
  obtains tx where "sees tx = contents db" "badger_View B db f = f tx"
  using assms unfolding badger_documented_def by metis

lemma badger_tx_laws:
  assumes "badger_documented B contents sees is_open"
  shows "badger_Get B tx k = Inr e \<Longrightarrow> sees tx k = None"
    and "badger_Get B tx k = Inl item \<Longrightarrow> \<exists>v. sees tx k = Some v \<and> badger_ValueCopy B item = (v, nil)"
    and "snd (badger_Set B tx k v) = nil \<Longrightarrow> sees (fst (badger_Set B tx k v)) = (sees tx)(k \<mapsto> v)"
    and "snd (badger_Delete B tx k) = nil \<Longrightarrow> sees (fst (badger_Delete B tx k)) = (sees tx)(k := None)"
proof -
  from assms have get: "\<forall>tx k. case badger_Get B tx k of
        Inr e \<Rightarrow> sees tx k = None
      | Inl item \<Rightarrow> \<exists>v. sees tx k = Some v \<and> badger_ValueCopy B item = (v, nil)"
    unfolding badger_documented_def by blast
  show "badger_Get B tx k = Inr e \<Longrightarrow> sees tx k = None"
    and "badger_Get B tx k = Inl item \<Longrightarrow> \<exists>v. sees tx k = Some v \<and> badger_ValueCopy B item = (v, nil)"
    using get [rule_format, of tx k] by simp_all
  show "snd (badger_Set B tx k v) = nil \<Longrightarrow> sees (fst (badger_Set B tx k v)) = (sees tx)(k \<mapsto> v)"
    and "snd (badger_Delete B tx k) = nil \<Longrightarrow> sees (fst (badger_Delete B tx k)) = (sees tx)(k := None)"
    using assms unfolding badger_documented_def by (metis prod.collapse, metis prod.collapse)
qed

definition badger_view :: "('d \<Rightarrow> store) \<Rightarrow> 'd BadgerStore \<Rightarrow> store" where
  "badger_view contents s = contents (badger_db s)"

lemma badger_get_view:
  assumes "badger_documented B contents sees is_open" "is_open (badger_db s)"
  shows "case badger_view contents s k of
      None \<Rightarrow> fst (BadgerStore_Get B s k) = [] \<and> snd (BadgerStore_Get B s k) \<noteq> nil
    | Some v \<Rightarrow> BadgerStore_Get B s k = (v, nil)"
proof -
  let ?f = "\<lambda>txn. case badger_Get B txn k of Inr e \<Rightarrow> (Some e, [])
      | Inl item \<Rightarrow> (case badger_ValueCopy B item of (valCopy, e) \<Rightarrow> (e, valCopy))"
  obtain tx where "sees tx = contents (badger_db s)" "badger_View B (badger_db s) ?f = ?f tx"
    by (rule badger_View_law [OF assms])
  then show ?thesis
    using badger_tx_laws(1,2) [OF assms(1), of tx k]
    by (cases "badger_Get B tx k") (auto simp: BadgerStore_Get_def badger_view_def)
qed

lemma badger_put_view:
  assumes doc: "badger_documented B contents sees is_open"
    and "is_open (badger_db s)" "BadgerStore_Put B s k v = (t, e)"
  shows "is_open (badger_db t) \<and> badger_view contents t =
    (if e = nil then (badger_view contents s)(k \<mapsto> v) else badger_view contents s)"
proof -
  obtain db r where u: "badger_Update B (badger_db s)
      (\<lambda>txn. case badger_Set B txn k v of (txn', e) \<Rightarrow> (txn', e, ([], nil))) = (db, e, r)" "t = s\<lparr>badger_db := db\<rparr>"
    using assms(3) by (auto simp: BadgerStore_Put_def split: prod.splits)
  from badger_Update_law [OF doc assms(2) u(1)] obtain tx where
    "is_open db" "sees tx = contents (badger_db s)"
    "e = nil \<longrightarrow> snd (badger_Set B tx k v) = nil \<and> contents db = sees (fst (badger_Set B tx k v))"
    "e \<noteq> nil \<longrightarrow> contents db = contents (badger_db s)"
    by (auto simp: case_prod_unfold)
  with u(2) badger_tx_laws(3) [OF doc] show ?thesis by (auto simp: badger_view_def split: if_splits)
qed

lemma badger_delete_view:
  assumes doc: "badger_documented B contents sees is_open"
    and "is_open (badger_db s)" "BadgerStore_Delete B s k = (t, e)"
  shows "is_open (badger_db t) \<and> badger_view contents t =
    (if e = nil then (badger_view contents s)(k := None) else badger_view contents s)"
proof -
  obtain db r where u: "badger_Update B (badger_db s)
      (\<lambda>txn. case badger_Delete B txn k of (txn', e) \<Rightarrow> (txn', e, ([], nil))) = (db, e, r)" "t = s\<lparr>badger_db := db\<rparr>"
    using assms(3) by (auto simp: BadgerStore_Delete_def split: prod.splits)
  from badger_Update_law [OF doc assms(2) u(1)] obtain tx where
    "is_open db" "sees tx = contents (badger_db s)"
    "e = nil \<longrightarrow> snd (badger_Delete B tx k) = nil \<and> contents db = sees (fst (badger_Delete B tx k))"
    "e \<noteq> nil \<longrightarrow> contents db = contents (badger_db s)"
    by (auto simp: case_prod_unfold)
  with u(2) badger_tx_laws(4) [OF doc] show ?thesis by (auto simp: badger_view_def split: if_splits)
qed

lemma badger_put_old_view:
  assumes doc: "badger_documented B contents sees is_open" and op: "is_open (badger_db s)"
    and "BadgerStore_PutWithOldValue B s k v = (t, old, e)"
  shows "is_open (badger_db t) \<and>
      (badger_view contents t = (badger_view contents s)(k \<mapsto> v) \<and> old = old_string (badger_view contents s k) \<or>
       badger_view contents t = badger_view contents s \<and> e \<noteq> nil)"
proof -
  let ?old = "\<lambda>txn. case badger_Get B txn k of Inr e \<Rightarrow> ([], Some e) | Inl item \<Rightarrow> badger_ValueCopy B item"
  let ?f = "\<lambda>txn. let old = ?old txn in case badger_Set B txn k v of (txn', e) \<Rightarrow> (txn', e, old)"
  obtain db e1 r where u: "badger_Update B (badger_db s) ?f = (db, e1, r)"
    by (cases "badger_Update B (badger_db s) ?f") blast
  with assms(3) have t: "t = s\<lparr>badger_db := db\<rparr>"
      "snd r \<noteq> nil \<Longrightarrow> old = [] \<and> e = snd r" "snd r = nil \<Longrightarrow> old = fst r \<and> e = e1"
    by (auto simp: BadgerStore_PutWithOldValue_def split: prod.splits if_splits)
  from badger_Update_law [OF doc op u] obtain tx where tx:
    "is_open db" "sees tx = contents (badger_db s)" "r = ?old tx"
    "e1 = nil \<longrightarrow> snd (badger_Set B tx k v) = nil \<and> contents db = sees (fst (badger_Set B tx k v))"
    "e1 \<noteq> nil \<longrightarrow> contents db = contents (badger_db s)"
    by (auto simp: Let_def case_prod_unfold)
  have "snd r \<noteq> nil \<and> contents (badger_db s) k = None \<or>
      snd r = nil \<and> contents (badger_db s) k = Some (fst r)"
    using badger_tx_laws(1,2) [OF doc, of tx k] tx(2,3) by (cases "badger_Get B tx k") auto
  with t tx(1,2,4,5) badger_tx_laws(3) [OF doc, of tx k v] show ?thesis
    by (cases "e1 = nil") (auto simp: badger_view_def old_string_def)
qed

lemma badger_delete_old_view:
  assumes doc: "badger_documented B contents sees is_open" and op: "is_open (badger_db s)"
    and "BadgerStore_DeleteWithOldValue B s k = (t, old, e)"
  shows "is_open (badger_db t) \<and>
      (badger_view contents t = (badger_view contents s)(k := None) \<and> old = old_string (badger_view contents s k) \<or>
       badger_view contents t = badger_view contents s \<and> e \<noteq> nil)"
proof -
  let ?f = "\<lambda>txn. case badger_Get B txn k of
      Inr e \<Rightarrow> (txn, Some e, ([], nil))
    | Inl item \<Rightarrow> (case badger_ValueCopy B item of (val, e) \<Rightarrow>
         if e \<noteq> nil then (txn, e, (val, nil))
         else case badger_Delete B txn k of (txn', e') \<Rightarrow> (txn', e', (val, nil)))"
  obtain db r where u: "badger_Update B (badger_db s) ?f = (db, e, r)" "t = s\<lparr>badger_db := db\<rparr>" "old = fst r"
    using assms(3) by (auto simp: BadgerStore_DeleteWithOldValue_def split: prod.splits)
  from badger_Update_law [OF doc op u(1)] obtain tx where tx:
    "is_open db" "sees tx = contents (badger_db s)" "r = snd (snd (?f tx))"
    "e = nil \<longrightarrow> fst (snd (?f tx)) = nil \<and> contents db = sees (fst (?f tx))"
    "e \<noteq> nil \<longrightarrow> contents db = contents (badger_db s)" by blast
  show ?thesis
  proof (cases "badger_Get B tx k")
    case (Inl item)
    with badger_tx_laws(2) [OF doc this] tx u(2,3) badger_tx_laws(4) [OF doc, of tx k] show ?thesis
      by (cases "e = nil") (auto simp: badger_view_def old_string_def case_prod_unfold)
  next
    case (Inr e2)
    with tx u(2) show ?thesis by (cases "e = nil") (auto simp: badger_view_def)
  qed
qed

lemma bolt_kv_map:
  fixes B :: "('d, 't) bolt"
  assumes "bolt_documented B contents sees is_open"
  shows "kv_map (BoltStore_KVStore B) (bolt_view contents) (\<lambda>s. is_open (bolt_db s))"
proof
  fix s t :: "'d BoltStore" and k v old e
  assume op: "is_open (bolt_db s)"
  note views = bolt_views [OF assms op]
  show "bolt_view contents s k = Some v \<Longrightarrow> kv_Get (BoltStore_KVStore B) s k = (v, nil)"
    "bolt_view contents s k = None \<Longrightarrow>
       fst (kv_Get (BoltStore_KVStore B) s k) = [] \<and> snd (kv_Get (BoltStore_KVStore B) s k) \<noteq> nil"
    by (simp_all add: BoltStore_KVStore_def views(1))
  show "kv_Put (BoltStore_KVStore B) s k v = (t, e) \<Longrightarrow> is_open (bolt_db t) \<and>
      bolt_view contents t = (if e = nil then (bolt_view contents s)(k \<mapsto> v) else bolt_view contents s)"
    by (simp only: BoltStore_KVStore_def KVStore.simps views(2))
  show "kv_Delete (BoltStore_KVStore B) s k = (t, e) \<Longrightarrow> is_open (bolt_db t) \<and>
      bolt_view contents t = (if e = nil then (bolt_view contents s)(k := None) else bolt_view contents s)"
    by (simp only: BoltStore_KVStore_def KVStore.simps views(3))
  show "kv_PutWithOldValue (BoltStore_KVStore B) s k v = (t, old, e) \<Longrightarrow> is_open (bolt_db t) \<and>
      (bolt_view contents t = (bolt_view contents s)(k \<mapsto> v) \<or> bolt_view contents t = bolt_view contents s \<and> e \<noteq> nil)"
    using views(4) [of k v t old e] by (simp add: BoltStore_KVStore_def)
  show "kv_DeleteWithOldValue (BoltStore_KVStore B) s k = (t, old, e) \<Longrightarrow> is_open (bolt_db t) \<and>
      (bolt_view contents t = (bolt_view contents s)(k := None) \<or> bolt_view contents t = bolt_view contents s \<and> e \<noteq> nil)"
    using views(5) [of k t old e] by (simp add: BoltStore_KVStore_def)
  show "kv_RollbackPutWithOldValue (BoltStore_KVStore B) s k old = (t, e) \<Longrightarrow> is_open (bolt_db t) \<and>
      bolt_view contents t = (if e = nil then (bolt_view contents s)(k := if old = [] then None else Some old)
                              else bolt_view contents s)"
    using views(2) [of k old t e] views(3) [of k t e]
    by (cases "old = []") (simp_all add: BoltStore_KVStore_def BoltStore_RollbackPutWithOldValue_def)
  show "kv_RollbackDeleteWithOldValue (BoltStore_KVStore B) s k old = (t, e) \<Longrightarrow> is_open (bolt_db t) \<and>
      bolt_view contents t = (if e = nil then (bolt_view contents s)(k \<mapsto> old) else bolt_view contents s)"
    by (simp only: BoltStore_KVStore_def KVStore.simps BoltStore_RollbackDeleteWithOldValue_def views(2))
qed

section \<open>Properties of the stores on disk\<close>

text \<open>A database that keeps its buckets in memory, as an instance of the documented laws.\<close>

definition map_bolt :: "(string \<Rightarrow> store, string \<Rightarrow> store) bolt" where
  "map_bolt = \<lparr>bolt_Open = (\<lambda>_ _. Inl (\<lambda>_. Map.empty)), bolt_Close = (\<lambda>db. db),
     bolt_Update = (\<lambda>db f. case f db of (tx, e, r) \<Rightarrow> (if e = nil then tx else db, e, r)),
     bolt_View = (\<lambda>db f. f db), bolt_CreateBucketIfNotExists = (\<lambda>tx b. (tx, nil)),
     bolt_get = (\<lambda>tx b k. tx b k), bolt_reread = (\<lambda>db v. replicate (length v) (CHR 0x00)),
     bolt_put = (\<lambda>tx b k v. if k = [] then (tx, Some (LibError ''key required'')) else (tx(b := (tx b)(k \<mapsto> v)), nil)),
     bolt_delete = (\<lambda>tx b k. (tx(b := (tx b)(k := None)), nil)), bolt_View_lists = (\<lambda>db f. f db),
     bolt_Bucket = (\<lambda>_ _. True), bolt_keys = (\<lambda>_ _. []),
     bolt_Begin = (\<lambda>db w. (db, Some db, nil)), bolt_Commit = (\<lambda>db tx. (tx, nil)), bolt_Rollback = (\<lambda>db tx. (db, nil))\<rparr>"

text \<open>
  C26: over a database that behaves as bolt documents, the contents of a bolt store are a map: a get
  returns what is stored and an error for a missing key, every put, delete, rollback and old-value
  operation changes exactly its key, and an operation that fails changes nothing. The old value that
  \<open>PutWithOldValue\<close> and \<open>DeleteWithOldValue\<close> report is the stored one read again after the transaction
  has ended, about which bolt promises nothing; the whole contract \<open>kv_store\<close>, with the stored value
  as the old value, is met if those bytes are still the same then.
\<close>

theorem bolt_store_meets_contract:
  fixes B :: "('d, 't) bolt"
  assumes "bolt_documented B contents sees is_open"
  shows "kv_map (BoltStore_KVStore B) (bolt_view contents) (\<lambda>s. is_open (bolt_db s)) \<and>
    (is_open (bolt_db s) \<longrightarrow>
      (\<forall>t old e. BoltStore_PutWithOldValue B s k v = (t, old, e) \<or> BoltStore_DeleteWithOldValue B s k = (t, old, e) \<longrightarrow>
         old = old_string (map_option (bolt_reread B (bolt_db t)) (bolt_view contents s k)))) \<and>
    ((\<forall>db x. bolt_reread B db x = x) \<longrightarrow>
      kv_store (BoltStore_KVStore B) (bolt_view contents) (\<lambda>s. is_open (bolt_db s)))"
proof (intro conjI impI allI)
  show m: "kv_map (BoltStore_KVStore B) (bolt_view contents) (\<lambda>s. is_open (bolt_db s))" by (rule bolt_kv_map [OF assms])
  show "old = old_string (map_option (bolt_reread B (bolt_db t)) (bolt_view contents s k))"
    if "is_open (bolt_db s)" "BoltStore_PutWithOldValue B s k v = (t, old, e) \<or> BoltStore_DeleteWithOldValue B s k = (t, old, e)"
    for t old e using that bolt_old_views [OF assms that(1)] by blast
  show "kv_store (BoltStore_KVStore B) (bolt_view contents) (\<lambda>s. is_open (bolt_db s))" if same: "\<forall>db x. bolt_reread B db x = x"
  proof (intro kv_store.intro kv_store_axioms.intro m)
    fix s t :: "'d BoltStore" and k v old e
    assume op: "is_open (bolt_db s)"
    have "map_option (bolt_reread B db) x = x" for db x using same by (cases x) simp_all
    then show "kv_PutWithOldValue (BoltStore_KVStore B) s k v = (t, old, e) \<Longrightarrow>
        old = old_string (bolt_view contents s k) \<or> bolt_view contents t = bolt_view contents s \<and> e \<noteq> nil"
      "kv_DeleteWithOldValue (BoltStore_KVStore B) s k = (t, old, e) \<Longrightarrow>
        old = old_string (bolt_view contents s k) \<or> bolt_view contents t = bolt_view contents s \<and> e \<noteq> nil"
      using bolt_old_views [OF assms op, of k] by (simp_all add: BoltStore_KVStore_def)
  qed
qed

theorem bolt_store_meets_contract_witness:
  "kv_map (BoltStore_KVStore map_bolt) (bolt_view (\<lambda>db. db)) (\<lambda>s. True) \<and>
   kv_store (BoltStore_KVStore (map_bolt\<lparr>bolt_reread := \<lambda>_ x. x\<rparr>)) (bolt_view (\<lambda>db. db)) (\<lambda>s. True)"
proof -
  have doc: "bolt_documented (map_bolt\<lparr>bolt_reread := f\<rparr>) (\<lambda>db. db) (\<lambda>tx. tx) (\<lambda>_. True)" for f
    by (auto simp: bolt_documented_def map_bolt_def split: prod.splits if_splits)
  from bolt_store_meets_contract [OF doc [of "bolt_reread map_bolt"]] bolt_store_meets_contract [OF doc [of "\<lambda>_ x. x"]]
  show ?thesis by simp
qed

text \<open>A replica on an empty bolt store that leads and is sent a put of the empty key, which bolt refuses.\<close>

definition empty_key_put :: CurpClientCommand where
  "empty_key_put = \<lparr>Op = PUT, CmdClientId = 1, CmdSeqId = 1, Key = [], Value = ''1'', Sync = 0\<rparr>"

definition empty_bolt :: "(string \<Rightarrow> store) BoltStore" where
  "empty_bolt = \<lparr>bolt_path = ''curp-1'', bolt_db = (\<lambda>_. Map.empty), bucketName = ''test''\<rparr>"

definition empty_key_events :: "node_event list" where
  "empty_key_events = [StateChange StateLeader, CallPropose empty_key_put, Sched 0, Sched 0, Sched 1]"

text \<open>
  C34: an error of the store is dropped. On a replica over a bolt store, in any reachable state, take a put
  that the worker is about to execute on the fast path, whose identifier is new, and that the database
  refuses, because the key is empty or too long or the commit of the transaction fails. The worker and
  the waiting request can then go on to answer the client with an empty content, accepted unless the
  witness found a conflict, which is the reply to a put that succeeded; the store holds what it held.
\<close>

theorem failed_put_acknowledged:
  assumes "bolt_documented B contents sees is_open" "is_open (bolt_db (sm_KVStore s))"
    and "reach (starts kv) (node_step (BoltStore_KVStore B) tid) s" "\<not> crashed s" "worker s = Selects"
    and "chan_recv (fastPath s) = Some (cmd, ch)" "\<not> mhas (commandSet s) (pid cmd)" "\<not> er_ready (commandBoard s) (pid cmd)"
    and "Op cmd = PUT" "snd (BoltStore_Put B (sm_KVStore s) (Key cmd) (Value cmd)) \<noteq> nil"
    and "n < length (goroutines s)" "goroutines s ! n \<in> {ProposeWaits cmd isConflict, ProposeReceives cmd isConflict}"
  shows "\<exists>t. run (node_step (BoltStore_KVStore B) tid) s [WorkerFast, WorkerContinue, Sched n] t \<and>
           LeaderReplied cmd \<lparr>Content = [], StatusCode = if isConflict then CONFLICT else ACCEPTED, ReplySeqId = 0\<rparr>
             \<in> set (goroutines t) \<and>
           bolt_view contents (sm_KVStore t) = bolt_view contents (sm_KVStore s)"
proof -
  let ?K = "BoltStore_KVStore B"
  obtain kv' e where p: "BoltStore_Put B (sm_KVStore s) (Key cmd) (Value cmd) = (kv', e)" by force
  with assms(10) bolt_views(2) [OF assms(1,2) p] have same: "bolt_view contents kv' = bolt_view contents (sm_KVStore s)" by auto
  from p have "kv_Put ?K (sm_KVStore s) (Key cmd) (Value cmd) = (kv', e)" by (simp add: BoltStore_KVStore_def)
  from worker_fast_takes [OF assms(5-7) this assms(9)] obtain u where u: "worker_fast ?K s = Some u" "worker u = InsertsEr cmd []"
      "commandBoard u = commandBoard s" "goroutines u = goroutines s" "crashed u = crashed s" "sm_KVStore u = kv'" by blast
  with assms(4) have step: "node_step ?K tid s WorkerFast u" by (simp add: node_step_def)
  with assms(3) have "board_ok u" using node_boards.holds_reachable reach_step by metis
  with assms(4,8,11,12) u obtain t where "run (node_step ?K tid) u [WorkerContinue, Sched n] t"
      "LeaderReplied cmd (Propose_reply [] isConflict) \<in> set (goroutines t)" "sm_KVStore t = kv'"
    using answer_delivered [of u cmd "[]" n isConflict ?K tid] by auto
  with step same show ?thesis unfolding Propose_reply_fields by (auto intro: run_cons)
qed

theorem failed_put_acknowledged_witness:
  "\<exists>s t. run (node_step (BoltStore_KVStore map_bolt) 64) (new_node 1 empty_bolt) empty_key_events s \<and>
     run (node_step (BoltStore_KVStore map_bolt) 64) s [WorkerFast, WorkerContinue, Sched 0] t \<and>
     LeaderReplied empty_key_put \<lparr>Content = [], StatusCode = ACCEPTED, ReplySeqId = 0\<rparr> \<in> set (goroutines t)"
proof -
  let ?step = "node_step (BoltStore_KVStore map_bolt) 64" and ?c = empty_key_put
  have "\<exists>s. run ?step (new_node 1 empty_bolt) empty_key_events s \<and> \<not> crashed s \<and> worker s = Selects \<and>
      chan_recv (fastPath s) = Some (?c, \<lparr>ccap = 1000, cbuf = []\<rparr>) \<and> \<not> mhas (commandSet s) (pid ?c) \<and>
      \<not> er_ready (commandBoard s) (pid ?c) \<and> 0 < length (goroutines s) \<and> goroutines s ! 0 = ProposeWaits ?c False \<and>
      sm_KVStore s = empty_bolt"
    unfolding node_performs_run [symmetric]
    by (simp add: empty_key_events_def empty_key_put_def new_node_defs Propose_witness_def InsertIfNotConflict_def
        HasConflictWith_def HasConflictWith_loop.simps mempty_def mget_def mhas_def NewWitness_def Propose_locked_def OpFmt_at_def OpFmt_def opcode_simps replace_at_def
        listenRaftState_def chan_send_def chan_recv_def make_chan_def gomap_simps er_ready_def NewBoard_def Let_def)
  then obtain s where s: "run ?step (new_node 1 empty_bolt) empty_key_events s" "\<not> crashed s" "worker s = Selects"
      "chan_recv (fastPath s) = Some (?c, \<lparr>ccap = 1000, cbuf = []\<rparr>)" "\<not> mhas (commandSet s) (pid ?c)"
      "\<not> er_ready (commandBoard s) (pid ?c)" "0 < length (goroutines s)" "goroutines s ! 0 = ProposeWaits ?c False"
      "sm_KVStore s = empty_bolt" by blast
  have doc: "bolt_documented map_bolt (\<lambda>db. db) (\<lambda>tx. tx) (\<lambda>_. True)"
    by (auto simp: bolt_documented_def map_bolt_def split: prod.splits if_splits)
  have r: "reach (starts empty_bolt) ?step s" by (rule reach_run [OF s(1)], rule reach_init) blast
  have p: "Op ?c = PUT" "snd (BoltStore_Put map_bolt (sm_KVStore s) (Key ?c) (Value ?c)) \<noteq> nil"
    by (simp_all add: BoltStore_Put_def map_bolt_def empty_key_put_def)
  have "goroutines s ! 0 \<in> {ProposeWaits ?c False, ProposeReceives ?c False}" using s(8) by simp
  from failed_put_acknowledged [OF doc _ r s(2-6) p s(7) this] s(1) show ?thesis by auto
qed

definition map_badger :: "(store, store, string) badger" where
  "map_badger = \<lparr>badger_Open = (\<lambda>_. (Map.empty, nil)), badger_Close = (\<lambda>db. db),
     badger_Update = (\<lambda>db f. case f db of (tx, e, r) \<Rightarrow> (if e = nil then tx else db, e, r)),
     badger_View = (\<lambda>db f. f db),
     badger_Get = (\<lambda>tx k. case tx k of None \<Rightarrow> Inr (LibError ''Key not found'') | Some v \<Rightarrow> Inl v),
     badger_ValueCopy = (\<lambda>v. (v, nil)), badger_Set = (\<lambda>tx k v. (tx(k \<mapsto> v), nil)),
     badger_Delete = (\<lambda>tx k. (tx(k := None), nil))\<rparr>"

text \<open>
  C27: over a database that behaves as badger documents, the badger store meets the same contract,
  although it reports a missing key as an error where the bolt store reports none.
\<close>

theorem badger_store_meets_contract:
  fixes B :: "('d, 't, 'i) badger"
  assumes "badger_documented B contents sees is_open"
  shows "kv_store (BadgerStore_KVStore B) (badger_view contents) (\<lambda>s. is_open (badger_db s))"
proof unfold_locales
  fix s t :: "'d BadgerStore" and k v old e
  assume op: "is_open (badger_db s)"
  note get = badger_get_view [OF assms op] and put = badger_put_view [OF assms op]
    and del = badger_delete_view [OF assms op]
  show "badger_view contents s k = Some v \<Longrightarrow> kv_Get (BadgerStore_KVStore B) s k = (v, nil)"
    "badger_view contents s k = None \<Longrightarrow>
       fst (kv_Get (BadgerStore_KVStore B) s k) = [] \<and> snd (kv_Get (BadgerStore_KVStore B) s k) \<noteq> nil"
    using get [of k] by (simp_all add: BadgerStore_KVStore_def)
  show "kv_Put (BadgerStore_KVStore B) s k v = (t, e) \<Longrightarrow> is_open (badger_db t) \<and>
      badger_view contents t = (if e = nil then (badger_view contents s)(k \<mapsto> v) else badger_view contents s)"
    by (simp only: BadgerStore_KVStore_def KVStore.simps put)
  show "kv_Delete (BadgerStore_KVStore B) s k = (t, e) \<Longrightarrow> is_open (badger_db t) \<and>
      badger_view contents t = (if e = nil then (badger_view contents s)(k := None) else badger_view contents s)"
    by (simp only: BadgerStore_KVStore_def KVStore.simps del)
  show "kv_PutWithOldValue (BadgerStore_KVStore B) s k v = (t, old, e) \<Longrightarrow> is_open (badger_db t) \<and>
      (badger_view contents t = (badger_view contents s)(k \<mapsto> v) \<or> badger_view contents t = badger_view contents s \<and> e \<noteq> nil)"
    "kv_PutWithOldValue (BadgerStore_KVStore B) s k v = (t, old, e) \<Longrightarrow>
      old = old_string (badger_view contents s k) \<or> badger_view contents t = badger_view contents s \<and> e \<noteq> nil"
    using badger_put_old_view [OF assms op, of k v t old e] by (auto simp: BadgerStore_KVStore_def)
  show "kv_DeleteWithOldValue (BadgerStore_KVStore B) s k = (t, old, e) \<Longrightarrow> is_open (badger_db t) \<and>
      (badger_view contents t = (badger_view contents s)(k := None) \<or> badger_view contents t = badger_view contents s \<and> e \<noteq> nil)"
    "kv_DeleteWithOldValue (BadgerStore_KVStore B) s k = (t, old, e) \<Longrightarrow>
      old = old_string (badger_view contents s k) \<or> badger_view contents t = badger_view contents s \<and> e \<noteq> nil"
    using badger_delete_old_view [OF assms op, of k t old e] by (auto simp: BadgerStore_KVStore_def)
  show "kv_RollbackPutWithOldValue (BadgerStore_KVStore B) s k old = (t, e) \<Longrightarrow> is_open (badger_db t) \<and>
      badger_view contents t = (if e = nil then (badger_view contents s)(k := if old = [] then None else Some old)
                                else badger_view contents s)"
    using put [of k old t e] del [of k t e]
    by (cases "old = []") (simp_all add: BadgerStore_KVStore_def BadgerStore_RollbackPutWithOldValue_def)
  show "kv_RollbackDeleteWithOldValue (BadgerStore_KVStore B) s k old = (t, e) \<Longrightarrow> is_open (badger_db t) \<and>
      badger_view contents t = (if e = nil then (badger_view contents s)(k \<mapsto> old) else badger_view contents s)"
    by (simp only: BadgerStore_KVStore_def KVStore.simps BadgerStore_RollbackDeleteWithOldValue_def put)
qed

theorem badger_store_meets_contract_witness:
  "kv_store (BadgerStore_KVStore map_badger) (badger_view (\<lambda>db. db)) (\<lambda>s. True)"
  by (rule badger_store_meets_contract [where sees = "\<lambda>tx. tx"])
    (auto simp: badger_documented_def map_badger_def split: prod.splits if_splits option.splits)

section \<open>Comparing two bolt stores\<close>

text \<open>
  What bolt documents of cursors: on an open database with the bucket, \<open>View\<close> returns what the
  function returns, and a cursor visits each key of the bucket once.
\<close>

definition bolt_cursor_documented ::
  "('d, 't) bolt \<Rightarrow> ('d \<Rightarrow> string \<Rightarrow> store) \<Rightarrow> ('t \<Rightarrow> string \<Rightarrow> store) \<Rightarrow> ('d \<Rightarrow> string \<Rightarrow> bool) \<Rightarrow> bool" where
  "bolt_cursor_documented B contents sees has \<longleftrightarrow>
     (\<forall>db f b. has db b \<longrightarrow> (\<exists>tx. sees tx = contents db \<and> bolt_Bucket B tx b \<and> bolt_View_lists B db f = f tx)) \<and>
     (\<forall>tx b k. bolt_get B tx b k = sees tx b k) \<and>
     (\<forall>tx b. bolt_Bucket B tx b \<longrightarrow> distinct (bolt_keys B tx b) \<and> set (bolt_keys B tx b) = dom (sees tx b))"

lemma bolt_cursor_laws:
  assumes "bolt_cursor_documented B contents sees has"
  shows "has db b \<Longrightarrow> \<exists>tx. sees tx = contents db \<and> bolt_Bucket B tx b \<and> bolt_View_lists B db f = f tx"
    and "bolt_get B tx b = sees tx b"
    and "bolt_Bucket B tx b \<Longrightarrow> distinct (bolt_keys B tx b) \<and> set (bolt_keys B tx b) = dom (sees tx b)"
  using assms unfolding bolt_cursor_documented_def by blast+

lemma Equal_collect_all:
  "set keys \<subseteq> dom get \<Longrightarrow>
   BoltStore_Equal_collect get keys ks vs = (nil, ks @ keys, vs @ map (\<lambda>k. the (get k)) keys)"
  by (induction get keys ks vs rule: BoltStore_Equal_collect.induct) (auto split: option.splits)

lemma Equal_index_absent: "key \<notin> set ks \<Longrightarrow> BoltStore_Equal_index ks key i index = index"
  by (induction ks arbitrary: i index) auto

lemma Equal_index_present:
  "distinct ks \<Longrightarrow> j < length ks \<Longrightarrow> BoltStore_Equal_index ks (ks ! j) i index = Some (i + j)"
proof (induction ks arbitrary: i j index)
  case (Cons k ks)
  then show ?case by (cases j) (auto simp: Equal_index_absent)
qed simp

lemma Equal_compare_iff:
  assumes "distinct ks" "set ks = dom old" "set keys \<subseteq> dom get"
  shows "\<exists>e. BoltStore_Equal_compare get ks (map (\<lambda>k. the (old k)) ks) keys = Some e \<and>
    (e = nil \<longleftrightarrow> (\<forall>k\<in>set keys. old k = get k))"
  using assms(3)
proof (induction keys)
  case (Cons key keys)
  then obtain v where v: "get key = Some v" by auto
  show ?case
  proof (cases "key \<in> set ks")
    case True
    then obtain j where j: "j < length ks" "key = ks ! j" by (auto simp: in_set_conv_nth)
    with True assms Cons v Equal_index_present [OF assms(1) j(1), of 0 None] show ?thesis
      by (auto simp: old_string_def)
  next
    case False
    with assms(2) have "old key = None" by auto
    with False v show ?thesis by (simp add: Equal_index_absent Let_def)
  qed
qed simp

text \<open>
  C38: \<open>Equal\<close> of two bolt stores, which both have the bucket, ends with an error exactly when the second
  holds a key that the first lacks or has with another value, so the comparison is one of inclusion: a
  store is found equal to every store whose contents are a part of its own. It never panics.
\<close>

theorem bolt_equal_is_inclusion:
  assumes doc: "bolt_cursor_documented B contents sees has"
    and "has (bolt_db s) (bucketName s)" "has (bolt_db t) (bucketName s)"
  shows "\<exists>e. BoltStore_Equal B s t = Some e \<and>
    (e = nil \<longleftrightarrow> contents (bolt_db t) (bucketName s) \<subseteq>\<^sub>m contents (bolt_db s) (bucketName s))"
proof -
  let ?b = "bucketName s"
  let ?f = "\<lambda>tx. if \<not> bolt_Bucket B tx ?b then None
    else Some (BoltStore_Equal_collect (bolt_get B tx ?b) (bolt_keys B tx ?b) [] [])"
  obtain tx where tx: "sees tx = contents (bolt_db s)" "bolt_Bucket B tx ?b" "bolt_View_lists B (bolt_db s) ?f = ?f tx"
    using bolt_cursor_laws(1) [OF doc assms(2), of ?f] by (elim exE conjE) (rule that)
  define ks where "ks = bolt_keys B tx ?b"
  define old where "old = sees tx ?b"
  note get = bolt_cursor_laws(2) [OF doc]
  have ks: "distinct ks" "set ks = dom old"
    using bolt_cursor_laws(3) [OF doc tx(2)] by (simp_all add: ks_def old_def)
  have first: "bolt_View_lists B (bolt_db s) ?f = Some (nil, ks, map (\<lambda>k. the (old k)) ks)"
    using tx(2,3) ks(2) by (simp add: get Equal_collect_all flip: ks_def old_def)
  let ?g = "\<lambda>tx. if \<not> bolt_Bucket B tx ?b then None
    else map_option (\<lambda>e. (e, ks, map (\<lambda>k. the (old k)) ks))
      (BoltStore_Equal_compare (bolt_get B tx ?b) ks (map (\<lambda>k. the (old k)) ks) (bolt_keys B tx ?b))"
  obtain tu where tu: "sees tu = contents (bolt_db t)" "bolt_Bucket B tu ?b" "bolt_View_lists B (bolt_db t) ?g = ?g tu"
    using bolt_cursor_laws(1) [OF doc assms(3), of ?g] by (elim exE conjE) (rule that)
  have keys: "set (bolt_keys B tu ?b) = dom (sees tu ?b)"
    using bolt_cursor_laws(3) [OF doc tu(2)] by simp
  obtain e where e: "BoltStore_Equal_compare (sees tu ?b) ks (map (\<lambda>k. the (old k)) ks) (bolt_keys B tu ?b) = Some e"
    "e = nil \<longleftrightarrow> (\<forall>k\<in>dom (sees tu ?b). old k = sees tu ?b k)"
    using Equal_compare_iff [OF ks, of "bolt_keys B tu ?b" "sees tu ?b"] keys by auto
  have "BoltStore_Equal B s t = Some e"
    unfolding BoltStore_Equal_def first option.case prod.case tu(3) using tu(2) e(1) by (simp add: get)
  moreover have "e = nil \<longleftrightarrow> contents (bolt_db t) ?b \<subseteq>\<^sub>m contents (bolt_db s) ?b"
    using e(2) by (simp add: map_le_def old_def tx(1) tu(1) eq_commute)
  ultimately show ?thesis by blast
qed

text \<open>A database of one bucket whose contents are a list of entries.\<close>

definition list_bolt :: "((string \<times> string) list, (string \<times> string) list) bolt" where
  "list_bolt = \<lparr>bolt_Open = (\<lambda>_ _. Inl []), bolt_Close = (\<lambda>db. db),
     bolt_Update = (\<lambda>db f. case f db of (tx, e, r) \<Rightarrow> (if e = nil then tx else db, e, r)),
     bolt_View = (\<lambda>db f. f db), bolt_CreateBucketIfNotExists = (\<lambda>tx b. (tx, nil)),
     bolt_get = (\<lambda>tx b. map_of tx), bolt_reread = (\<lambda>db v. replicate (length v) (CHR 0x00)),
     bolt_put = (\<lambda>tx b k v. (AList.update k v tx, nil)),
     bolt_delete = (\<lambda>tx b k. (AList.delete k tx, nil)), bolt_View_lists = (\<lambda>db f. f db),
     bolt_Bucket = (\<lambda>_ _. True), bolt_keys = (\<lambda>tx b. remdups (map fst tx)),
     bolt_Begin = (\<lambda>db w. (db, Some db, nil)), bolt_Commit = (\<lambda>db tx. (tx, nil)), bolt_Rollback = (\<lambda>db tx. (db, nil))\<rparr>"

theorem bolt_equal_is_inclusion_witness:
  "BoltStore_Equal list_bolt \<lparr>bolt_path = ''a'', bolt_db = [(''x'', ''1''), (''y'', ''2'')], bucketName = ''test''\<rparr>
     \<lparr>bolt_path = ''b'', bolt_db = [(''y'', ''2'')], bucketName = ''test''\<rparr> = Some nil"
proof -
  have "bolt_cursor_documented list_bolt (\<lambda>db b. map_of db) (\<lambda>tx b. map_of tx) (\<lambda>db b. True)"
    by (auto simp: bolt_cursor_documented_def list_bolt_def dom_map_of_conv_image_fst)
  from bolt_equal_is_inclusion [OF this, of "\<lparr>bolt_path = ''a'', bolt_db = [(''x'', ''1''), (''y'', ''2'')], bucketName = ''test''\<rparr>"
      "\<lparr>bolt_path = ''b'', bolt_db = [(''y'', ''2'')], bucketName = ''test''\<rparr>"]
  show ?thesis by (auto simp: map_le_def)
qed

end
