(* ===== verification/Config.thy ===== *)
theory Config
  imports Go_Strings
begin

text \<open>
  The configuration of the benchmark client, \<open>curp_client/config.go\<close>: a file of lines, each empty, a
  comment, a section mark, or a field with its argument. The package variable
  \<open>readingClients\<close> is passed through. \<open>int\<close> is Go's 64-bit \<open>int\<close>, a duration its nanoseconds.
\<close>

section \<open>Errors and fields\<close>

record Error =
  errs :: "err list"
  err_field :: string
  err_comment :: string

fun error_text :: "error \<Rightarrow> string" where
  "error_text (Errorf s) = s"
| "error_text (LibError s) = s"

fun Error_Error_loop :: "string \<Rightarrow> err list \<Rightarrow> string" where
  "Error_Error_loop s [] = s"
| "Error_Error_loop s (None # es) = Error_Error_loop s es"
| "Error_Error_loop s (Some e # es) =
     (let s1 = (if s \<noteq> [] then s @ [newline] else s) in
      Error_Error_loop (s1 @ CHR 0x09 # error_text e) es)"

definition Error_Error :: "Error \<Rightarrow> string" where
  "Error_Error e =
     (let s = (if err_field e \<noteq> [] then ''field: '' @ err_field e @ '' --'' else []);
          s1 = Error_Error_loop s (errs e) in
      if err_comment e \<noteq> []
      then (if s1 \<noteq> [] then s1 @ [newline] else s1) @ CHR 0x09 # err_comment e
      else s1)"

definition Err :: "string \<Rightarrow> string \<Rightarrow> err list \<Rightarrow> Error" where
  "Err field comment es = \<lparr>errs = es, err_field = field, err_comment = comment\<rparr>"

record Config =
  Reqs :: int
  RunTime :: int
  Writes :: int
  Conflicts :: int
  CommandSize :: int
  Clones :: int
  WaitClosest :: bool
  cfg_Pipeline :: bool
  Syncs :: int
  Pendings :: int
  cfg_Key :: int

definition zero_Config :: Config where
  "zero_Config = \<lparr>Reqs = 0, RunTime = 0, Writes = 0, Conflicts = 0, CommandSize = 0, Clones = 0,
     WaitClosest = False, cfg_Pipeline = False, Syncs = 0, Pendings = 0, cfg_Key = 0\<rparr>"

section \<open>Arguments\<close>

text \<open>The first value of \<open>f\<close> is returned also when \<open>f\<close> fails.\<close>

definition expect :: "string list \<Rightarrow> (string \<Rightarrow> 'r \<times> err) \<Rightarrow> 'r \<Rightarrow> 'r \<times> Error option" where
  "expect ws f none =
     (if length ws < 1 then (none, Some (Err [] ''Missing field'' []))
      else if length ws < 2 \<or> HasPrefix (ws ! 1) ''//'' then (none, Some (Err (ws ! 0) ''Missing argument'' []))
      else case f (ws ! 1) of (i, e) \<Rightarrow>
        if e \<noteq> nil then (i, Some (Err (ws ! 0) ''Invalid argument'' [e])) else (i, None))"

definition expectInt :: "string list \<Rightarrow> int \<times> Error option" where
  "expectInt ws = expect ws Atoi 0"

definition expectBool :: "string list \<Rightarrow> bool \<times> Error option" where
  "expectBool ws = expect ws ParseBool False"

definition expectDuration :: "string list \<Rightarrow> int \<times> Error option" where
  "expectDuration ws = expect ws (\<lambda>s. if s = ''none'' then (0, nil) else ParseDuration s) 0"

section \<open>Reading a file\<close>

text \<open>
  The field a line names. The result says whether the name is known, with the configuration and
  the error of its argument. The case \<open>commandSize\<close> of the source, which no lower-cased text
  matches, is kept in its place.
\<close>

definition set_field :: "Config \<Rightarrow> string list \<Rightarrow> Config \<times> bool \<times> Error option" where
  "set_field c words =
     (let name = Split CHR '':'' (words ! 0) ! 0 in
      if name = ''reqs'' then (case expectInt words of (v, e) \<Rightarrow> (c\<lparr>Reqs := v\<rparr>, True, e))
      else if name = ''writes'' then (case expectInt words of (v, e) \<Rightarrow> (c\<lparr>Writes := v\<rparr>, True, e))
      else if name = ''conflicts'' then (case expectInt words of (v, e) \<Rightarrow> (c\<lparr>Conflicts := v\<rparr>, True, e))
      else if name = ''commandSize'' then (case expectInt words of (v, e) \<Rightarrow> (c\<lparr>CommandSize := v\<rparr>, True, e))
      else if name = ''clones'' then (case expectInt words of (v, e) \<Rightarrow> (c\<lparr>Clones := v\<rparr>, True, e))
      else if name = ''runtime'' then (case expectDuration words of (v, e) \<Rightarrow> (c\<lparr>RunTime := v\<rparr>, True, e))
      else if name = ''pipeline'' then (case expectBool words of (v, e) \<Rightarrow> (c\<lparr>cfg_Pipeline := v\<rparr>, True, e))
      else if name = ''pendings'' then (case expectInt words of (v, e) \<Rightarrow> (c\<lparr>Pendings := v\<rparr>, True, e))
      else if name = ''key'' then (case expectInt words of (v, e) \<Rightarrow> (c\<lparr>cfg_Key := v\<rparr>, True, e))
      else if name = ''commandsize'' then (case expectInt words of (v, e) \<Rightarrow> (c\<lparr>CommandSize := v\<rparr>, True, e))
      else (c, False, None))"

text \<open>What one line leaves: the loop goes on with its variables, or \<open>Read\<close> returns an error.\<close>

record reader =
  rd_config :: Config
  rd_apply :: bool
  readingClients :: bool

definition Read_line :: "string \<Rightarrow> reader \<Rightarrow> string \<Rightarrow> reader \<times> Error option" where
  "Read_line alias st line =
     (let words = Fields (ToLower line) in
      if length words < 1 then (st, None)
      else if words ! 0 = ''//'' then (st, None)
      else if words ! 0 = ''--'' then
        if length words < 2
        then (st, Some (Err [] ''expecting [Replicas | Clients | Master | Apply | Proxy] after --'' []))
        else let st1 = st\<lparr>rd_apply := True\<rparr>; sect = ToLower (words ! 1) in
          if sect = ''clients'' then (st1\<lparr>readingClients := True\<rparr>, None)
          else if sect = ''apply'' then
            if length words < 4 \<or> words ! 2 \<noteq> ''to'' then (st1, Some (Err ''-- Apply'' ''Missing argument'' []))
            else if words ! 3 \<noteq> alias then (st1\<lparr>rd_apply := False\<rparr>, None)
            else (st1, None)
          else (st1, None)
      else if \<not> rd_apply st then (st, None)
      else case set_field (rd_config st) words of (c, ok, e) \<Rightarrow>
        if ok then (st\<lparr>rd_config := c, readingClients := False\<rparr>, e)
        else (st\<lparr>rd_config := c\<rparr>, None))"

fun Read_loop :: "string \<Rightarrow> reader \<Rightarrow> string list \<Rightarrow> reader \<times> Error option" where
  "Read_loop alias st [] = (st, None)"
| "Read_loop alias st (l # ls) =
     (case Read_line alias st l of
        (st1, None) \<Rightarrow> Read_loop alias st1 ls
      | (st1, Some e) \<Rightarrow> (st1, Some e))"

text \<open>
  \<open>Read\<close>. The file is what \<open>os.Open\<close> and the reader give: an error, or the bytes up to the end or
  the first read error, which the source does not look at. \<open>rc\<close> is \<open>readingClients\<close> before the call;
  the result ends with its value after it.
\<close>

datatype read_error = OpenError error | ConfigError Error

definition Read :: "bool \<Rightarrow> string + error \<Rightarrow> string \<Rightarrow> Config \<times> read_error option \<times> bool" where
  "Read rc file alias =
     (case file of
        Inr e \<Rightarrow> (zero_Config, Some (OpenError e), rc)
      | Inl text \<Rightarrow>
          (case Read_loop alias \<lparr>rd_config = zero_Config, rd_apply = True, readingClients = rc\<rparr> (scan_lines text) of
             (st, e) \<Rightarrow> (rd_config st, map_option ConfigError e, readingClients st)))"

section \<open>Well-formed configurations\<close>

definition config_fits :: "Config \<Rightarrow> bool" where
  "config_fits c \<longleftrightarrow> is_int64 (Reqs c) \<and> is_int64 (RunTime c) \<and> is_int64 (Writes c) \<and> is_int64 (Conflicts c) \<and>
     is_int64 (CommandSize c) \<and> is_int64 (Clones c) \<and> is_int64 (Syncs c) \<and> is_int64 (Pendings c) \<and>
     is_int64 (cfg_Key c)"

lemma int64_zero [simp]: "is_int64 0"
  by (simp add: is_int64_def)

section \<open>One line at a time\<close>

lemma Read_loop_append:
  "Read_loop alias st (xs @ ys) =
     (case Read_loop alias st xs of (st1, None) \<Rightarrow> Read_loop alias st1 ys | (st1, Some e) \<Rightarrow> (st1, Some e))"
  by (induction xs arbitrary: st) (auto split: prod.splits option.splits)

text \<open>A line whose words are a known name with a colon and an argument.\<close>

lemma Fields_field_line:
  assumes "is_word (n @ '':'')" "is_word w" "ToLower n = n" "ToLower w = w"
  shows "Fields (ToLower (n @ '': '' @ w)) = [n @ '':'', w]"
  using Fields_word_blank [OF assms(1), of w] Fields_word [OF assms(2)] assms(3,4)
  by (simp add: ToLower_append) (simp add: ToLower_def to_lower_def byte_of_def)

definition field_name :: "string \<Rightarrow> bool" where
  "field_name n \<longleftrightarrow> is_word n \<and> ToLower n = n \<and> CHR '':'' \<notin> set n \<and> n \<noteq> ''//'' \<and> n \<noteq> ''--''"

definition argument :: "string \<Rightarrow> bool" where
  "argument w \<longleftrightarrow> is_word w \<and> ToLower w = w \<and> \<not> HasPrefix w ''//''"

lemma Read_field_line:
  assumes "field_name n" "argument w" "rd_apply st"
  shows "Read_line alias st (n @ '': '' @ w) =
    (case set_field (rd_config st) [n @ '':'', w] of (c, ok, e) \<Rightarrow>
       if ok then (st\<lparr>rd_config := c, readingClients := False\<rparr>, e) else (st\<lparr>rd_config := c\<rparr>, None))"
proof -
  have "is_word (n @ '':'')"
    using assms(1) by (auto simp: field_name_def is_word_def is_space_def byte_of_def)
  then have "Fields (ToLower (n @ '': '' @ w)) = [n @ '':'', w]"
    using assms by (intro Fields_field_line) (auto simp: field_name_def argument_def)
  moreover have "n @ '':'' \<noteq> ''//''" "n @ '':'' \<noteq> ''--''" by (cases n rule: rev_cases; simp)+
  ultimately show ?thesis
    using assms(3) by (simp add: Read_line_def Let_def)
qed

lemma argument_itoa: "argument (itoa i)" "argument (itoa i @ ''ns'')"
proof -
  have "hd (itoa i) \<noteq> CHR ''/''"
    using digit_not_sign [OF utoa_hd] by (auto simp: itoa_def)
  then have p: "\<not> HasPrefix (itoa i @ r) ''//''" for r
    using itoa_word [of i] by (cases "itoa i") (auto simp: HasPrefix_def is_word_def)
  from p [of "[]"] show "argument (itoa i)"
    by (simp add: argument_def itoa_word ToLower_itoa)
  from p [of "''ns''"] itoa_word [of i] show "argument (itoa i @ ''ns'')"
    by (auto simp: argument_def ToLower_itoa ToLower_append is_word_def)
      (auto simp: ToLower_def to_lower_def byte_of_def is_space_def)
qed

lemma argument_bool: "argument ''true''" "argument ''false''"
  by (simp_all add: argument_def is_word_def is_space_def ToLower_def to_lower_def byte_of_def HasPrefix_def)

lemma expect_argument:
  "argument w \<Longrightarrow> f w = (v, nil) \<Longrightarrow> expect [n, w] f none = (v, None)"
  by (simp add: expect_def argument_def)

lemma expected_arguments:
  "is_int64 i \<Longrightarrow> expectInt [n, itoa i] = (i, None)"
  "is_int64 i \<Longrightarrow> expectDuration [n, itoa i @ ''ns''] = (i, None)"
  "expectBool [n, ''true''] = (True, None)" "expectBool [n, ''false''] = (False, None)"
proof -
  have "itoa i @ ''ns'' \<noteq> ''none''" by (rule notI, drule arg_cong [where f = last]) simp
  then show "is_int64 i \<Longrightarrow> expectInt [n, itoa i] = (i, None)"
    "is_int64 i \<Longrightarrow> expectDuration [n, itoa i @ ''ns''] = (i, None)"
    "expectBool [n, ''true''] = (True, None)" "expectBool [n, ''false''] = (False, None)"
    unfolding expectInt_def expectDuration_def expectBool_def
    by (auto intro!: expect_argument argument_itoa argument_bool simp: Atoi_itoa duration_nanoseconds ParseBool_def)
qed

section \<open>Properties\<close>

text \<open>Evaluation of lines on concrete text.\<close>

lemmas config_eval = Read_line_def Let_def Fields_def ToLower_def to_lower_def byte_of_def is_space_def
  set_field_def expectInt_def expectBool_def expectDuration_def expect_def HasPrefix_def Atoi_def ParseUint_def
  is_digit_def digit_val_def ParseBool_def num_error_def Quote_def quote_char_def newline_def
  carriage_return_def Err_def char_of_def zero_Config_def

lemmas line_eval = is_line_def MaxScanTokenSize_def newline_def carriage_return_def

text \<open>A configuration as a file. The two fields that \<open>Read\<close> has no name for are left out.\<close>

definition config_lines :: "Config \<Rightarrow> (string \<times> string) list" where
  "config_lines c =
     [(''reqs'', itoa (Reqs c)), (''runtime'', itoa (RunTime c) @ ''ns''), (''writes'', itoa (Writes c)),
      (''conflicts'', itoa (Conflicts c)), (''commandsize'', itoa (CommandSize c)), (''clones'', itoa (Clones c)),
      (''key'', itoa (cfg_Key c)), (''pipeline'', if cfg_Pipeline c then ''true'' else ''false''),
      (''pendings'', itoa (Pendings c))]"

definition render_Config :: "Config \<Rightarrow> string" where
  "render_Config c = unlines (map (\<lambda>(n, w). n @ '': '' @ w) (config_lines c))"

lemma word_line: "is_word w \<Longrightarrow> newline \<notin> set w \<and> carriage_return \<notin> set w"
proof -
  have "is_space newline" "is_space carriage_return"
    by (simp_all add: is_space_def newline_def carriage_return_def byte_of_def)
  then show "is_word w \<Longrightarrow> newline \<notin> set w \<and> carriage_return \<notin> set w"
    unfolding is_word_def by blast
qed

lemma config_lines_ok:
  assumes "config_fits c" "(n, w) \<in> set (config_lines c)"
  shows "field_name n \<and> argument w \<and> is_line (n @ '': '' @ w)"
proof -
  have n: "field_name n \<and> length n \<le> 11"
    using assms(2) by (auto simp: config_lines_def field_name_def is_word_def is_space_def byte_of_def
        ToLower_def to_lower_def)
  have w: "argument w \<and> length w \<le> 22"
    using assms by (auto simp: config_lines_def argument_itoa argument_bool config_fits_def
        intro: order_trans [OF itoa_length])
  then have "is_line (n @ '': '' @ w)"
    using n word_line [of n] word_line [of w]
    by (auto simp: is_line_def MaxScanTokenSize_def field_name_def argument_def newline_def carriage_return_def)
  with n w show ?thesis by simp
qed

lemma Read_loop_field:
  assumes "field_name n \<and> argument w \<and> is_line (n @ '': '' @ w)"
    and "set_field c [n @ '':'', w] = (c', True, None)"
  shows "Read_loop alias \<lparr>rd_config = c, rd_apply = True, readingClients = rc\<rparr> ((n @ '': '' @ w) # ls) =
    Read_loop alias \<lparr>rd_config = c', rd_apply = True, readingClients = False\<rparr> ls"
  using assms(2) Read_field_line [of n w "\<lparr>rd_config = c, rd_apply = True, readingClients = rc\<rparr>" "alias"] assms(1)
  by simp

lemma set_field_values:
  assumes "is_int64 i"
  shows "set_field c [''reqs'' @ '':'', itoa i] = (c\<lparr>Reqs := i\<rparr>, True, None)"
    "set_field c [''runtime'' @ '':'', itoa i @ ''ns''] = (c\<lparr>RunTime := i\<rparr>, True, None)"
    "set_field c [''writes'' @ '':'', itoa i] = (c\<lparr>Writes := i\<rparr>, True, None)"
    "set_field c [''conflicts'' @ '':'', itoa i] = (c\<lparr>Conflicts := i\<rparr>, True, None)"
    "set_field c [''commandsize'' @ '':'', itoa i] = (c\<lparr>CommandSize := i\<rparr>, True, None)"
    "set_field c [''clones'' @ '':'', itoa i] = (c\<lparr>Clones := i\<rparr>, True, None)"
    "set_field c [''key'' @ '':'', itoa i] = (c\<lparr>cfg_Key := i\<rparr>, True, None)"
    "set_field c [''pendings'' @ '':'', itoa i] = (c\<lparr>Pendings := i\<rparr>, True, None)"
  using assms by (simp_all add: set_field_def expected_arguments)

lemma set_field_pipeline:
  "set_field c [''pipeline'' @ '':'', if b then ''true'' else ''false''] = (c\<lparr>cfg_Pipeline := b\<rparr>, True, None)"
  by (simp add: set_field_def expected_arguments)

definition put_field :: "string \<times> string \<Rightarrow> Config \<Rightarrow> Config" where
  "put_field f c = fst (set_field c [fst f @ '':'', snd f])"

lemma Read_loop_fields:
  assumes "\<And>n w. (n, w) \<in> set fs \<Longrightarrow> field_name n \<and> argument w \<and> is_line (n @ '': '' @ w)"
    and "\<And>n w c. (n, w) \<in> set fs \<Longrightarrow> snd (set_field c [n @ '':'', w]) = (True, None)"
  shows "Read_loop alias \<lparr>rd_config = c, rd_apply = True, readingClients = rc\<rparr> (map (\<lambda>(n, w). n @ '': '' @ w) fs) =
    (\<lparr>rd_config = fold put_field fs c, rd_apply = True, readingClients = rc \<and> fs = []\<rparr>, None)"
  using assms
proof (induction fs arbitrary: c rc)
  case (Cons f fs)
  obtain n w where f: "f = (n, w)" by fastforce
  have "set_field c [n @ '':'', w] = (put_field f c, True, None)"
    using Cons.prems(2) [of n w c] by (simp add: f put_field_def prod_eq_iff)
  moreover have "field_name n \<and> argument w \<and> is_line (n @ '': '' @ w)" using Cons.prems(1) [of n w] by (simp add: f)
  ultimately have step: "Read_loop alias \<lparr>rd_config = c, rd_apply = True, readingClients = rc\<rparr>
      (map (\<lambda>(n, w). n @ '': '' @ w) (f # fs)) =
    Read_loop alias \<lparr>rd_config = put_field f c, rd_apply = True, readingClients = False\<rparr>
      (map (\<lambda>(n, w). n @ '': '' @ w) fs)"
    using Read_loop_field [of n w c "put_field f c" "alias" rc] by (simp only: f list.map prod.case)
  have "Read_loop alias \<lparr>rd_config = put_field f c, rd_apply = True, readingClients = False\<rparr>
      (map (\<lambda>(n, w). n @ '': '' @ w) fs) =
    (\<lparr>rd_config = fold put_field fs (put_field f c), rd_apply = True, readingClients = False \<and> fs = []\<rparr>, None)"
    by (rule Cons.IH) (use Cons.prems list.set_intros(2) in metis)+
  then show ?case unfolding step by simp
qed simp

lemma fold_config_lines:
  assumes "config_fits c" "\<not> WaitClosest c" "Syncs c = 0"
  shows "fold put_field (config_lines c) zero_Config = c"
  using assms
  by (simp only: config_lines_def config_fits_def fold_simps put_field_def fst_conv snd_conv set_field_values
      set_field_pipeline) (simp add: zero_Config_def)

lemma config_lines_known:
  assumes "config_fits c" "(n, w) \<in> set (config_lines c)"
  shows "snd (set_field d [n @ '':'', w]) = (True, None)"
proof -
  have "list_all (\<lambda>f. snd (set_field d [fst f @ '':'', snd f]) = (True, None)) (config_lines c)"
    using assms(1) by (simp only: config_lines_def config_fits_def list.pred_inject fst_conv snd_conv
        set_field_values set_field_pipeline simp_thms)
  with assms(2) show ?thesis by (auto simp: list_all_iff)
qed

text \<open>
  C28: a configuration written out as a file is read back, for every alias and whatever value its
  fields have in the 64-bit range; the two fields without a name in the file format are 0.
\<close>

theorem config_roundtrip:
  assumes "config_fits c" "\<not> WaitClosest c" "Syncs c = 0"
  shows "Read rc (Inl (render_Config c)) alias = (c, None, False)"
proof -
  have "\<forall>l\<in>set (map (\<lambda>(n, w). n @ '': '' @ w) (config_lines c)). is_line l"
    using config_lines_ok [OF assms(1)] by auto
  then have "scan_lines (render_Config c) = map (\<lambda>(n, w). n @ '': '' @ w) (config_lines c)"
    unfolding render_Config_def by (rule scan_lines_unlines)
  moreover have "config_lines c \<noteq> []" by (simp add: config_lines_def)
  ultimately show ?thesis
    using Read_loop_fields [OF config_lines_ok [OF assms(1)] config_lines_known [OF assms(1)],
        where c = zero_Config] fold_config_lines [OF assms]
    by (simp add: Read_def)
qed

theorem config_roundtrip_witness:
  "Read True (Inl (render_Config (zero_Config\<lparr>Reqs := 1000, RunTime := - 5, cfg_Key := 42, cfg_Pipeline := True\<rparr>))) ''c1'' =
   (zero_Config\<lparr>Reqs := 1000, RunTime := - 5, cfg_Key := 42, cfg_Pipeline := True\<rparr>, None, False)"
  by (rule config_roundtrip) (simp_all add: zero_Config_def config_fits_def is_int64_def)

text \<open>
  A bad line ends \<open>Read\<close> with its error: the fields of the lines before it are set, the field of
  the bad line holds what its argument parsed to, and nothing after it counts.
\<close>

theorem config_first_error:
  assumes "\<forall>l\<in>set (xs @ bad # ys). is_line l"
    and "Read_loop alias \<lparr>rd_config = zero_Config, rd_apply = True, readingClients = rc\<rparr> xs = (st, None)"
    and "Read_line alias st bad = (st', Some e)"
  shows "Read rc (Inl (unlines (xs @ bad # ys))) alias = (rd_config st', Some (ConfigError e), readingClients st')"
  using assms(2,3) by (simp add: Read_def scan_lines_unlines [OF assms(1)] Read_loop_append)

theorem config_first_error_witness:
  "Read False (Inl (unlines ([''reqs: 10''] @ ''writes: 99999999999999999999'' # [''key: 7'']))) ''c1'' =
   (zero_Config\<lparr>Reqs := 10, Writes := 9223372036854775807\<rparr>,
    Some (ConfigError (Err ''writes:'' ''Invalid argument''
      [Some (LibError ''strconv.Atoi: parsing \"99999999999999999999\": value out of range'')])), False)"
proof -
  let ?st = "\<lparr>rd_config = zero_Config\<lparr>Reqs := 10\<rparr>, rd_apply = True, readingClients = False\<rparr>"
  let ?st' = "\<lparr>rd_config = zero_Config\<lparr>Reqs := 10, Writes := 9223372036854775807\<rparr>, rd_apply = True, readingClients = False\<rparr>"
  have "\<forall>l\<in>set ([''reqs: 10''] @ ''writes: 99999999999999999999'' # [''key: 7'']). is_line l"
    by (simp add: line_eval)
  moreover have "Read_loop ''c1'' \<lparr>rd_config = zero_Config, rd_apply = True, readingClients = False\<rparr> [''reqs: 10''] =
      (?st, None)" by (simp add: config_eval)
  moreover have "Read_line ''c1'' ?st ''writes: 99999999999999999999'' = (?st', Some (Err ''writes:'' ''Invalid argument''
      [Some (LibError ''strconv.Atoi: parsing \"99999999999999999999\": value out of range'')]))" by (simp add: config_eval)
  ultimately have "Read False (Inl (unlines ([''reqs: 10''] @ ''writes: 99999999999999999999'' # [''key: 7'']))) ''c1'' =
      (rd_config ?st', Some (ConfigError (Err ''writes:'' ''Invalid argument''
      [Some (LibError ''strconv.Atoi: parsing \"99999999999999999999\": value out of range'')])), readingClients ?st')"
    by (rule config_first_error)
  then show ?thesis by simp
qed

text \<open>
  The lines of a section that applies to another client change nothing, up to the next section
  mark, whatever they hold.
\<close>

theorem foreign_section_ignored:
  assumes "\<forall>l\<in>set (xs @ (''-- apply to '' @ other) # ys). is_line l"
    and "argument other" "other \<noteq> alias"
    and "Read rc (Inl (unlines xs)) alias = (c, None, rc')"
    and "\<forall>l\<in>set ys. take 1 (Fields (ToLower l)) \<noteq> [''--'']"
  shows "Read rc (Inl (unlines (xs @ (''-- apply to '' @ other) # ys))) alias = (c, None, rc')"
proof -
  let ?mark = "''-- apply to '' @ other" and ?st0 = "\<lparr>rd_config = zero_Config, rd_apply = True, readingClients = rc\<rparr>"
  obtain st where st: "Read_loop alias ?st0 xs = (st, None)" "rd_config st = c" "readingClients st = rc'"
    using assms(1,4) by (auto simp: Read_def scan_lines_unlines split: prod.splits)
  have "Fields (ToLower ?mark) = [''--'', ''apply'', ''to'', other]"
    using assms(2) Fields_word_blank [of "''--''"] Fields_word_blank [of "''apply''"] Fields_word_blank [of "''to''"]
      Fields_word [of other]
    by (simp add: ToLower_append argument_def)
      (simp add: ToLower_def to_lower_def byte_of_def is_word_def is_space_def)
  then have mark: "Read_line alias st ?mark = (st\<lparr>rd_apply := False\<rparr>, None)"
    using assms(3) by (simp add: Read_line_def Let_def)
      (simp add: ToLower_def to_lower_def byte_of_def)
  have skip: "Read_loop alias st1 ys = (st1, None)" if "\<not> rd_apply st1" for st1
    using assms(5) that
  proof (induction ys)
    case (Cons l ys)
    then have "Read_line alias st1 l = (st1, None)"
      by (cases "Fields (ToLower l)") (auto simp: Read_line_def Let_def)
    with Cons show ?case by simp
  qed simp
  show ?thesis
    unfolding Read_def scan_lines_unlines [OF assms(1)] sum.case Read_loop_append st(1)
    using st(2,3) mark by (simp add: skip)
qed

theorem foreign_section_ignored_witness:
  "Read False (Inl (unlines ([''reqs: 5''] @ (''-- apply to '' @ ''c2'') # [''reqs: x'']))) ''c1'' =
   (zero_Config\<lparr>Reqs := 5\<rparr>, None, False)"
proof (rule foreign_section_ignored)
  have "scan_lines (unlines [''reqs: 5'']) = [''reqs: 5'']" by (rule scan_lines_unlines) (simp add: line_eval)
  then show "Read False (Inl (unlines [''reqs: 5''])) ''c1'' = (zero_Config\<lparr>Reqs := 5\<rparr>, None, False)"
    by (simp add: Read_def config_eval)
qed (simp_all add: line_eval argument_def is_word_def config_eval)

text \<open>The configuration file the repository ships.\<close>

definition client_conf_lines :: "string list" where
  "client_conf_lines = [[], [], ''-- Clients --'', [], ''// Clients'', ''reqs:        1000'', ''runTime:     none // 5min'',
     ''writes:      100'', ''conflicts:   0'', ''commandSize: 1000'', ''clones:      9'',
     ''key:         42 // conflicting key'', [], ''pipeline: false'', ''pendings: 10000'', [], [], [], [], []]"

definition client_conf :: string where
  "client_conf = unlines client_conf_lines"

lemma client_conf_read:
  "Read False (Inl client_conf) ''c1'' =
   (\<lparr>Reqs = 1000, RunTime = 0, Writes = 100, Conflicts = 0, CommandSize = 1000, Clones = 9, WaitClosest = False,
     cfg_Pipeline = False, Syncs = 0, Pendings = 10000, cfg_Key = 42\<rparr>, None, False)"
proof -
  have "scan_lines client_conf = client_conf_lines"
    unfolding client_conf_def by (rule scan_lines_unlines) (simp add: client_conf_lines_def line_eval)
  then show ?thesis by (simp add: Read_def) (simp add: client_conf_lines_def config_eval bit_Suc_0_iff)
qed

end
