(* ===== verification/Bench.thy ===== *)
theory Bench
  imports Client Config
begin

text \<open>
  The benchmark client: the load generator of \<open>curp_client/buffer_client.go\<close> and the program of
  \<open>curp_client/main.go\<close> that starts load generators or serves single requests over TCP. Clocks,
  random numbers, UUIDs and the network are what the loop consumes, one record per request. A pointer
  to a client may be nil, since the errors of \<open>NewGrpcClient\<close> are dropped.
\<close>

section \<open>The load generator\<close>

text \<open>Times are nanoseconds of the monotonic clock.\<close>

record ReqReply =
  Val :: string
  Seqnum :: int
  Time :: int

record BufferClient =
  bc_Client :: "Grpc_client option"
  bc_Reply :: "ReqReply chan"
  bc_seq :: bool
  bc_psize :: int
  bc_reqNum :: int
  bc_writes :: int
  bc_window :: int
  bc_conflict :: int
  bc_syncFreq :: int
  bc_conflictKey :: int
  bc_reqTime :: "int list"
  bc_launchTime :: int

text \<open>
  \<open>make\<close> panics (\<open>None\<close>) for a negative size and for one beyond the address space of the runtime,
  \<open>2^48\<close> bytes on 64-bit Linux: the channel has elements of 8 bytes after a header of 96, the slice
  elements of 24. When \<open>reqNum+1\<close> wraps it is negative. The zero \<open>time.Time\<close> is 0.
\<close>

definition maxAlloc :: int where
  "maxAlloc = 2 ^ 48"

definition NewBufferClient ::
  "Grpc_client option \<Rightarrow> int \<Rightarrow> int \<Rightarrow> int \<Rightarrow> int \<Rightarrow> int \<Rightarrow> BufferClient option" where
  "NewBufferClient c reqNum psize conflict wr conflictKey =
     (if reqNum + 1 < 0 \<or> 8 * (reqNum + 1) > maxAlloc - 96 \<or> 24 * (reqNum + 1) > maxAlloc then None
      else Some \<lparr>bc_Client = c, bc_Reply = make_chan (nat (reqNum + 1)), bc_seq = True, bc_psize = psize,
        bc_reqNum = reqNum, bc_writes = wr, bc_window = 0, bc_conflict = conflict, bc_syncFreq = 0,
        bc_conflictKey = conflictKey, bc_reqTime = replicate (nat (reqNum + 1)) 0, bc_launchTime = 0\<rparr>)"

definition Pipeline :: "BufferClient \<Rightarrow> int \<Rightarrow> int \<Rightarrow> BufferClient" where
  "Pipeline c syncFreq window = c\<lparr>bc_seq := False, bc_syncFreq := syncFreq, bc_window := window\<rparr>"

text \<open>\<open>None\<close>: the goroutine is parked on the full channel.\<close>

definition RegisterReply :: "BufferClient \<Rightarrow> int \<Rightarrow> string \<Rightarrow> int \<Rightarrow> BufferClient option" where
  "RegisterReply c now val seqnum =
     map_option (\<lambda>ch. c\<lparr>bc_Reply := ch\<rparr>) (chan_send (bc_Reply c) \<lparr>Val = val, Seqnum = seqnum, Time = now\<rparr>)"

text \<open>\<open>draw\<close> is what \<open>Intn(100)\<close> returns when it is called.\<close>

definition randomTrue :: "int \<Rightarrow> nat \<Rightarrow> bool" where
  "randomTrue prob draw =
     (if prob \<ge> 100 then True
      else if prob > 0 then int draw \<le> prob
      else False)"

definition genGetKey :: "BufferClient \<Rightarrow> int \<Rightarrow> nat \<Rightarrow> int" where
  "genGetKey c uuid_time draw =
     (let key = uuid_time in
      if randomTrue (bc_conflict c) draw then bc_conflictKey c else key)"

text \<open>
  What one request consumes: the time field of a UUID, two draws, the clock before and after, and
  what the network delivers to the client.
\<close>

record round_input =
  in_uuid :: int
  in_conflict :: nat
  in_write :: nat
  in_start :: int
  in_end :: int
  in_sync :: "nat \<Rightarrow> ProposeId \<Rightarrow> CurpReply option option"
  in_events :: "fast_event list"

text \<open>The payload of every write: 1024 bytes of value 1, whatever \<open>psize\<close> is.\<close>

definition payload :: string where
  "payload = replicate 1024 (CHR 0x01)"

record latencies =
  max_latency :: rat
  min_latency :: rat
  avg_latency :: rat

definition milliseconds :: "int \<Rightarrow> rat" where
  "milliseconds ns = float64 (float64 (of_int ns) / 1000000)"

definition measure_latency :: "latencies \<Rightarrow> int \<Rightarrow> latencies" where
  "measure_latency l d =
     (let m = milliseconds d;
          l1 = (if m > max_latency l then l\<lparr>max_latency := m\<rparr> else l);
          l2 = (if m < min_latency l1 then l1\<lparr>min_latency := m\<rparr> else l1) in
      l2\<lparr>avg_latency := float64 (avg_latency l2 + m)\<rparr>)"

text \<open>
  The request of one round: the client afterwards, the command it sent to the replicas, and whether
  its call has returned. The value and the error it returns are dropped. A nil client fails before it
  sends anything.
\<close>

definition Loop_request ::
  "BufferClient \<Rightarrow> bool \<Rightarrow> int \<Rightarrow> round_input \<Rightarrow> BufferClient \<times> CurpClientCommand list \<times> unit round" where
  "Loop_request c wr key inp =
     (case bc_Client c of
        None \<Rightarrow> (c, [], Crashed)
      | Some cl \<Rightarrow>
          if wr
          then (case Grpc_Put cl (in_sync inp) (in_events inp) (itoa key) payload of
                  (cl', r) \<Rightarrow> (c\<lparr>bc_Client := Some cl'\<rparr>, [snd (Grpc_Put_command cl (itoa key) payload)],
                              map_round (\<lambda>_. ()) r))
          else (case Grpc_Get cl (in_sync inp) (in_events inp) (itoa key) of
                  (cl', r) \<Rightarrow> (c\<lparr>bc_Client := Some cl'\<rparr>, [snd (Grpc_Get_command cl (itoa key))],
                              map_round (\<lambda>_. ()) r)))"

text \<open>
  The loop from round \<open>i\<close> on. It also returns the commands it sent, in order. Without input for a
  round the goroutine is still waiting.
\<close>

fun Loop_from ::
  "BufferClient \<Rightarrow> nat \<Rightarrow> latencies \<Rightarrow> round_input list \<Rightarrow>
   (BufferClient \<times> latencies) round \<times> CurpClientCommand list" where
  "Loop_from c i l inputs =
     (if int i > bc_reqNum c then (Returned (c, l), [])
      else case inputs of
        [] \<Rightarrow> (Waiting, [])
      | inp # rest \<Rightarrow>
          let key = genGetKey c (in_uuid inp) (in_conflict inp);
              wr = randomTrue (bc_writes c) (in_write inp);
              c1 = c\<lparr>bc_reqTime := (bc_reqTime c)[i := in_start inp]\<rparr>;
              c2 = (if i = 1 then c1\<lparr>bc_launchTime := bc_reqTime c1 ! i\<rparr> else c1) in
          (case Loop_request c2 wr key inp of
             (c3, sent, Waiting) \<Rightarrow> (Waiting, sent)
           | (c3, sent, Crashed) \<Rightarrow> (Crashed, sent)
           | (c3, sent, Returned _) \<Rightarrow>
               let l1 = (if i \<noteq> 0 then measure_latency l (in_end inp - bc_reqTime c3 ! i) else l) in
               (case Loop_from c3 (Suc i) l1 rest of (r, cmds) \<Rightarrow> (r, sent @ cmds))))"

declare Loop_from.simps [simp del]

definition first_latencies :: latencies where
  "first_latencies = \<lparr>max_latency = 0, min_latency = float64 (10 ^ 33), avg_latency = 0\<rparr>"

text \<open>\<open>Loop\<close>: the average is not a number (\<open>None\<close>) when \<open>reqNum\<close> is 0.\<close>

definition Loop ::
  "BufferClient \<Rightarrow> round_input list \<Rightarrow> (BufferClient \<times> rat \<times> rat \<times> rat option) round \<times> CurpClientCommand list" where
  "Loop c inputs =
     (case Loop_from c 0 first_latencies inputs of (r, cmds) \<Rightarrow>
        (map_round (\<lambda>(c', l). (c', max_latency l, min_latency l,
             if bc_reqNum c' = 0 then None else Some (float64 (avg_latency l / of_int (bc_reqNum c'))))) r, cmds))"

section \<open>Serving single requests\<close>

record bench_Command =
  bench_Op :: uint8
  bench_Key :: string
  bench_Value :: string

definition bench_GET :: uint8 where "bench_GET = 0"
definition bench_PUT :: uint8 where "bench_PUT = 1"
definition bench_DELETE :: uint8 where "bench_DELETE = 2"

record GetResponse =
  Count :: int
  Kvs :: "bench_Command list"

definition set_bench_field :: "bench_Command \<Rightarrow> string \<times> gval \<Rightarrow> bench_Command option" where
  "set_bench_field c f =
     (let n = fst f; v = snd f in
      if n = ''Op'' then map_option (\<lambda>x. c\<lparr>bench_Op := of_nat x\<rparr>) (as_uint 8 v)
      else if n = ''Key'' then map_option (\<lambda>x. c\<lparr>bench_Key := x\<rparr>) (as_string v)
      else if n = ''Value'' then map_option (\<lambda>x. c\<lparr>bench_Value := x\<rparr>) (as_string v)
      else Some c)"

fun set_bench_fields :: "bench_Command \<Rightarrow> (string \<times> gval) list \<Rightarrow> bench_Command option" where
  "set_bench_fields c [] = Some c"
| "set_bench_fields c (f # fs) = do { d \<leftarrow> set_bench_field c f; set_bench_fields d fs }"

definition decode_bench_Command :: "string \<Rightarrow> bench_Command option" where
  "decode_bench_Command content = do {
     fs \<leftarrow> gob_decode content;
     set_bench_fields \<lparr>bench_Op = 0, bench_Key = [], bench_Value = []\<rparr> fs }"

text \<open>
  What is written to the connection: the gob encoding of a response, kept as the value that is
  encoded, or raw bytes.
\<close>

datatype written = WriteGob GetResponse | WriteRaw string

text \<open>
  \<open>handleRequest\<close> on the bytes that arrived before it read; at most 4096 of them fit the buffer. A
  request that cannot be decoded ends the function without an answer. The connection stays open.
\<close>

definition handleRequest ::
  "string \<Rightarrow> Grpc_client option \<Rightarrow> (nat \<Rightarrow> ProposeId \<Rightarrow> CurpReply option option) \<Rightarrow> fast_event list \<Rightarrow>
   Grpc_client option \<times> written option round" where
  "handleRequest arrived client sync es =
     (case decode_bench_Command (take 4096 arrived) of
        None \<Rightarrow> (client, Returned None)
      | Some aCmd \<Rightarrow>
          if bench_Op aCmd \<notin> {bench_GET, bench_PUT, bench_DELETE}
          then (client, Returned (Some (WriteRaw ''Received UNSUPPORT Response!'')))
          else case client of
            None \<Rightarrow> (None, Crashed)
          | Some cl \<Rightarrow>
              if bench_Op aCmd = bench_GET then
                (case Grpc_Get cl sync es (bench_Key aCmd) of (cl', r) \<Rightarrow>
                   (Some cl', map_round (\<lambda>(v, _). Some (WriteGob \<lparr>Count = 1,
                      Kvs = [\<lparr>bench_Op = bench_GET, bench_Key = bench_Key aCmd, bench_Value = v\<rparr>]\<rparr>)) r))
              else if bench_Op aCmd = bench_PUT then
                (case Grpc_Put cl sync es (bench_Key aCmd) (bench_Value aCmd) of (cl', r) \<Rightarrow>
                   (Some cl', map_round (\<lambda>_. Some (WriteRaw ''Received PUT Response!'')) r))
              else
                (case Grpc_Del cl sync es (bench_Key aCmd) of (cl', r) \<Rightarrow>
                   (Some cl', map_round (\<lambda>_. Some (WriteRaw ''Received DELETE Response!'')) r)))"

text \<open>
  The accept loop of a server of single requests: the connections handed to \<open>handleRequest\<close>, each in
  a goroutine, and whether the loop has ended the process.
\<close>

fun bench_server_loop :: "('conn + error) list \<Rightarrow> 'conn list \<times> bool" where
  "bench_server_loop [] = ([], False)"
| "bench_server_loop (Inr e # rest) = ([], True)"
| "bench_server_loop (Inl conn # rest) = (case bench_server_loop rest of (cs, ended) \<Rightarrow> (conn # cs, ended))"

definition bench_server :: "err \<Rightarrow> ('conn + error) list \<Rightarrow> 'conn list \<times> bool" where
  "bench_server listening accepts = (if listening \<noteq> nil then ([], True) else bench_server_loop accepts)"

text \<open>The line a client's counters are reported with.\<close>

definition static_String :: "static \<Rightarrow> string" where
  "static_String s = ''fast: '' @ itoa (fast s) @ '', slow: '' @ itoa (slow s)"

definition Static :: "Grpc_client \<Rightarrow> string" where
  "Static c = static_String (gc_static c)"

section \<open>The program\<close>

text \<open>
  What \<open>main\<close> starts, in order: a load generator or a server of single requests. \<open>net i\<close> is what
  dialling and the leader query give to the \<open>i\<close>-th client. \<open>Crashed\<close> is a panic or \<open>log.Fatal\<close>.
\<close>

datatype bench_task = RunLoop BufferClient | BenchServer string "Grpc_client option"

definition main_task :: "Config \<Rightarrow> bool \<Rightarrow> int \<Rightarrow> Grpc_client option \<Rightarrow> bench_task option" where
  "main_task c local i client =
     (if local then map_option RunLoop (NewBufferClient client (Reqs c) (CommandSize c) (Conflicts c) (Writes c) (cfg_Key c))
      else Some (BenchServer ('':'' @ itoa (9360 + i)) client))"

type_synonym client_net = "(string \<Rightarrow> err) \<times> (nat \<Rightarrow> LeaderReply \<times> err)"

fun main_clients ::
  "(nat \<Rightarrow> client_net) \<Rightarrow> string list \<Rightarrow> Config \<Rightarrow> bool \<Rightarrow> nat \<Rightarrow> nat \<Rightarrow> bench_task list round" where
  "main_clients net servers c local i 0 = Returned []"
| "main_clients net servers c local i (Suc n) =
     (case NewGrpcClient (fst (net i)) (snd (net i)) servers (of_nat i) of
        Waiting \<Rightarrow> Waiting
      | Crashed \<Rightarrow> Crashed
      | Returned (client, _) \<Rightarrow>
          (case main_task c local (int i) client of
             None \<Rightarrow> Crashed
           | Some t \<Rightarrow> map_round (\<lambda>ts. t # ts) (main_clients net servers c local (Suc i) n)))"

definition bench_main ::
  "(nat \<Rightarrow> client_net) \<Rightarrow> string \<Rightarrow> string + error \<Rightarrow> bool \<Rightarrow> int \<Rightarrow> int \<Rightarrow> bench_task list round" where
  "bench_main net servers_flag conf local client_nums cid =
     (let servers = Split CHR '','' servers_flag in
      case Read False conf ''c1'' of
        (c, Some e, _) \<Rightarrow> Crashed
      | (c, None, _) \<Rightarrow>
          if client_nums \<noteq> 1 then
            if client_nums < 0 then Crashed else main_clients net servers c local 0 (nat client_nums)
          else
            (case NewGrpcClient (fst (net 0)) (snd (net 0)) servers (word_of_int cid) of
               Waiting \<Rightarrow> Waiting
             | Crashed \<Rightarrow> Crashed
             | Returned (client, _) \<Rightarrow>
                 (case main_task c local cid client of
                    None \<Rightarrow> Crashed
                  | Some t \<Rightarrow> Returned [t])))"

section \<open>Properties\<close>

text \<open>
  For a probability strictly between 0 and 100 a draw from 0 to 99 answers yes in \<open>prob+1\<close> of
  100 cases, one more than asked for.
\<close>

theorem random_true_rate:
  assumes "0 < prob" "prob < 100"
  shows "int (card {d. d < 100 \<and> randomTrue prob d}) = prob + 1"
proof -
  have "{d. d < 100 \<and> randomTrue prob d} = {..nat prob}"
    using assms by (auto simp: randomTrue_def)
  with assms show ?thesis by simp
qed

theorem random_true_rate_witness: "int (card {d. d < 100 \<and> randomTrue 50 d}) = 51"
  using random_true_rate [of 50] by simp

section \<open>A run against three replicas\<close>

text \<open>A client of three replicas, and a round in which no RPC fails and every wait ends.\<close>

definition three_client :: "Grpc_client \<Rightarrow> bool" where
  "three_client cl \<longleftrightarrow> length (grpc_servers cl) = 3 \<and> gc_f cl = 1 \<and> 0 \<le> gc_LeaderId cl \<and> gc_LeaderId cl < 3"

definition all_answered :: "round_input \<Rightarrow> bool" where
  "all_answered inp \<longleftrightarrow> Tick \<in> set (in_events inp) \<and> distinct (arrivals (in_events inp)) \<and>
     set (arrivals (in_events inp)) \<subseteq> {..<3} \<and> (\<forall>i. Arrives i None \<notin> set (in_events inp)) \<and>
     (\<forall>k p. \<exists>r. in_sync inp k p = Some (Some r))"

lemma Propose_fields:
  "grpc_servers (fst (Grpc_Propose c sync es cmd)) = grpc_servers c"
  "gc_f (fst (Grpc_Propose c sync es cmd)) = gc_f c"
  "gc_LeaderId (fst (Grpc_Propose c sync es cmd)) = gc_LeaderId c"
  "gc_SeqId (fst (Grpc_Propose c sync es cmd)) = gc_SeqId c"
  "gc_ClientId (fst (Grpc_Propose c sync es cmd)) = gc_ClientId c"
  by (simp_all add: Grpc_Propose_def Let_def split: round.split option.split)

lemma Propose_returns:
  assumes "three_client c" "all_answered inp"
  shows "\<exists>r. snd (Grpc_Propose c (in_sync inp) (in_events inp) cmd) = Returned r"
proof -
  have s: "in_sync inp k p \<noteq> None" "in_sync inp k p \<noteq> Some None" for k p
    using assms(2) unfolding all_answered_def by (metis option.distinct(1) option.inject)+
  have "snd (Grpc_Propose c (in_sync inp) (in_events inp) cmd) \<noteq> Crashed"
    using assms s(2) by (intro three_replicas_no_crash) (auto simp: three_client_def all_answered_def)
  moreover have "snd (Grpc_Propose c (in_sync inp) (in_events inp) cmd) \<noteq> Waiting"
    using assms(2) s(1) by (intro propose_not_waiting) (auto simp: all_answered_def)
  ultimately show ?thesis by (cases "snd (Grpc_Propose c (in_sync inp) (in_events inp) cmd)") auto
qed

text \<open>
  The command of one request: what the draws and the UUID make of it, under the client's next
  identifier. A client whose counter stands at \<open>seq\<close> sends \<open>requests_of\<close>.
\<close>

definition request_of :: "BufferClient \<Rightarrow> uint64 \<Rightarrow> uint64 \<Rightarrow> round_input \<Rightarrow> CurpClientCommand" where
  "request_of c clientId seq inp =
     (let cmd = zero_command\<lparr>Key := itoa (genGetKey c (in_uuid inp) (in_conflict inp)),
                  CmdClientId := clientId, CmdSeqId := seq\<rparr> in
      if randomTrue (bc_writes c) (in_write inp) then cmd\<lparr>Op := PUT, Value := payload\<rparr> else cmd\<lparr>Op := GET\<rparr>)"

fun requests_of :: "BufferClient \<Rightarrow> uint64 \<Rightarrow> uint64 \<Rightarrow> round_input list \<Rightarrow> CurpClientCommand list" where
  "requests_of c clientId seq [] = []"
| "requests_of c clientId seq (inp # rest) = request_of c clientId (seq + 1) inp # requests_of c clientId (seq + 1) rest"

lemma Loop_request_returns:
  assumes "bc_Client c = Some cl" "three_client cl" "all_answered inp"
  shows "\<exists>cl'. Loop_request c (randomTrue (bc_writes c) (in_write inp)) (genGetKey c (in_uuid inp) (in_conflict inp)) inp =
      (c\<lparr>bc_Client := Some cl'\<rparr>, [request_of c (gc_ClientId cl) (gc_SeqId cl + 1) inp], Returned ()) \<and>
    three_client cl' \<and> gc_SeqId cl' = gc_SeqId cl + 1 \<and> gc_ClientId cl' = gc_ClientId cl"
proof -
  let ?c1 = "cl\<lparr>gc_SeqId := gc_SeqId cl + 1\<rparr>" and ?cmd = "request_of c (gc_ClientId cl) (gc_SeqId cl + 1) inp"
  have c1: "three_client ?c1" using assms(2) by (simp add: three_client_def)
  have "\<exists>cl' r. Grpc_Propose ?c1 (in_sync inp) (in_events inp) ?cmd = (cl', Returned r) \<and>
      three_client cl' \<and> gc_SeqId cl' = gc_SeqId cl + 1 \<and> gc_ClientId cl' = gc_ClientId cl"
    using Propose_returns [OF c1 assms(3), of ?cmd] c1
      Propose_fields [of ?c1 "in_sync inp" "in_events inp" ?cmd]
    by (cases "Grpc_Propose ?c1 (in_sync inp) (in_events inp) ?cmd") (auto simp: three_client_def)
  with assms(1) show ?thesis
    by (cases "randomTrue (bc_writes c) (in_write inp)")
      (auto simp: Loop_request_def request_of_def Grpc_Put_def Grpc_Put_command_def Grpc_Get_def Grpc_Get_command_def
        Grpc_GetProposeId_def zero_command_def Let_def)
qed

definition latency_of :: "round_input \<Rightarrow> int" where
  "latency_of inp = in_end inp - in_start inp"

lemma request_of_cong:
  "bc_writes d = bc_writes c \<Longrightarrow> bc_conflict d = bc_conflict c \<Longrightarrow> bc_conflictKey d = bc_conflictKey c \<Longrightarrow>
   request_of d = request_of c"
  by (intro ext) (simp add: request_of_def genGetKey_def Let_def)

lemma requests_of_cong: "request_of d = request_of c \<Longrightarrow> requests_of d k seq inputs = requests_of c k seq inputs"
  by (induction inputs arbitrary: seq) simp_all

lemma requests_of_nth:
  "length (requests_of c k seq inputs) = length inputs"
  "j < length inputs \<Longrightarrow> requests_of c k seq inputs ! j = request_of c k (seq + of_nat (Suc j)) (inputs ! j)"
proof (induction inputs arbitrary: seq j)
  case (Cons inp rest)
  { case 1 from Cons.IH(1) show ?case by simp next
    case 2 with Cons.IH(2) [of "j - 1" "seq + 1"] show ?case by (cases j) (simp_all add: algebra_simps) }
qed simp_all

lemma pid_request_of: "pid (request_of c k seq inp) = \<lparr>ClientId = k, SeqId = seq\<rparr>"
  by (simp add: request_of_def CurpClientCommand_ProposeId_def Let_def)

lemma word_of_nat_eq: "x < 2 ^ 64 \<Longrightarrow> y < 2 ^ 64 \<Longrightarrow> (of_nat x :: uint64) = of_nat y \<longleftrightarrow> x = y"
  by (simp add: word_unat_eq_iff unat_of_nat)

lemma requests_of_distinct: "length inputs < 2 ^ 64 \<Longrightarrow> distinct (map pid (requests_of c k seq inputs))"
  by (simp add: distinct_conv_nth requests_of_nth pid_request_of word_of_nat_eq del: of_nat_Suc)

lemma Loop_from_returns:
  assumes "bc_Client c = Some cl" "three_client cl" "\<forall>inp\<in>set inputs. all_answered inp"
    and "int i \<le> bc_reqNum c + 1" "nat (bc_reqNum c + 1) - i \<le> length inputs"
    and "length (bc_reqTime c) = nat (bc_reqNum c + 1)"
  shows "\<exists>c' cl'. Loop_from c i l inputs =
      (Returned (c', foldl measure_latency l (map latency_of (drop (1 - i) (take (nat (bc_reqNum c + 1) - i) inputs)))),
       requests_of c (gc_ClientId cl) (gc_SeqId cl) (take (nat (bc_reqNum c + 1) - i) inputs)) \<and>
    bc_Client c' = Some cl' \<and> bc_reqNum c' = bc_reqNum c \<and>
    gc_SeqId cl' = gc_SeqId cl + of_nat (nat (bc_reqNum c + 1) - i)"
  using assms
proof (induction inputs arbitrary: c cl i l)
  case Nil
  then have "int i > bc_reqNum c" by simp
  with Nil show ?case by (subst Loop_from.simps) auto
next
  case (Cons inp rest)
  show ?case
  proof (cases "int i > bc_reqNum c")
    case True
    then show ?thesis using Cons.prems by (subst Loop_from.simps) auto
  next
    case False
    define n where "n = nat (bc_reqNum c + 1) - Suc i"
    have n: "nat (bc_reqNum c + 1) - i = Suc n" using False by (simp add: n_def)
    let ?c1 = "c\<lparr>bc_reqTime := (bc_reqTime c)[i := in_start inp]\<rparr>"
    let ?c2 = "if i = 1 then ?c1\<lparr>bc_launchTime := bc_reqTime ?c1 ! i\<rparr> else ?c1"
    have "bc_Client ?c2 = Some cl" using Cons.prems(1) by simp
    from Loop_request_returns [OF this Cons.prems(2)] Cons.prems(3) obtain cl' where
      r: "Loop_request ?c2 (randomTrue (bc_writes ?c2) (in_write inp)) (genGetKey ?c2 (in_uuid inp) (in_conflict inp)) inp =
          (?c2\<lparr>bc_Client := Some cl'\<rparr>, [request_of ?c2 (gc_ClientId cl) (gc_SeqId cl + 1) inp], Returned ())"
        "three_client cl'" "gc_SeqId cl' = gc_SeqId cl + 1" "gc_ClientId cl' = gc_ClientId cl"
      by fastforce
    have sel: "bc_writes ?c2 = bc_writes c" "genGetKey ?c2 = genGetKey c" "request_of ?c2 = request_of c"
      by (simp_all add: genGetKey_def fun_eq_iff request_of_def)
    define c3 where "c3 = ?c2\<lparr>bc_Client := Some cl'\<rparr>"
    let ?l = "if i \<noteq> 0 then measure_latency l (latency_of inp) else l"
    have "i < length (bc_reqTime c)" using False Cons.prems(6) by linarith
    then have t: "bc_reqTime c3 ! i = in_start inp" by (simp add: c3_def)
    have c3: "bc_reqNum c3 = bc_reqNum c" "bc_Client c3 = Some cl'" "length (bc_reqTime c3) = nat (bc_reqNum c + 1)"
      using Cons.prems(6) by (simp_all add: c3_def)
    have req: "request_of c3 = request_of c" by (rule request_of_cong) (simp_all add: c3_def)
    have step: "Loop_from c i l (inp # rest) =
        (case Loop_from c3 (Suc i) ?l rest of (r, cmds) \<Rightarrow> (r, request_of c (gc_ClientId cl) (gc_SeqId cl + 1) inp # cmds))"
      using False r(1) [unfolded sel] t unfolding c3_def [symmetric]
      by (subst Loop_from.simps) (simp only: latency_of_def Let_def if_False list.case prod.case round.case append.simps)
    have "\<exists>c' cl''. Loop_from c3 (Suc i) ?l rest =
        (Returned (c', foldl measure_latency ?l (map latency_of (drop (1 - Suc i) (take (nat (bc_reqNum c3 + 1) - Suc i) rest)))),
         requests_of c3 (gc_ClientId cl') (gc_SeqId cl') (take (nat (bc_reqNum c3 + 1) - Suc i) rest)) \<and>
      bc_Client c' = Some cl'' \<and> bc_reqNum c' = bc_reqNum c3 \<and>
      gc_SeqId cl'' = gc_SeqId cl' + of_nat (nat (bc_reqNum c3 + 1) - Suc i)"
      using Cons.prems(3-5) False c3 by (intro Cons.IH r(2)) auto
    then obtain c' cl'' where tail: "Loop_from c3 (Suc i) ?l rest =
        (Returned (c', foldl measure_latency ?l (map latency_of (take n rest))),
         requests_of c (gc_ClientId cl) (gc_SeqId cl + 1) (take n rest))"
      "bc_Client c' = Some cl''" "bc_reqNum c' = bc_reqNum c" "gc_SeqId cl'' = gc_SeqId cl' + of_nat n"
      by (auto simp: c3(1) requests_of_cong [OF req] r(3,4) n_def)
    have "foldl measure_latency ?l (map latency_of (take n rest)) =
        foldl measure_latency l (map latency_of (drop (1 - i) (take (Suc n) (inp # rest))))"
      by (cases i) simp_all
    with tail r(3) show ?thesis
      unfolding step n by (intro exI [of _ c'] exI [of _ cl'']) (simp add: algebra_simps)
  qed
qed

lemma measure_latency_bounds:
  "max_latency l \<le> max_latency (measure_latency l d)" "milliseconds d \<le> max_latency (measure_latency l d)"
  "min_latency (measure_latency l d) \<le> min_latency l" "min_latency (measure_latency l d) \<le> milliseconds d"
  by (simp_all add: measure_latency_def Let_def)

lemma foldl_latency_bounds:
  "max_latency l \<le> max_latency (foldl measure_latency l ds) \<and>
   min_latency (foldl measure_latency l ds) \<le> min_latency l \<and>
   (\<forall>d\<in>set ds. min_latency (foldl measure_latency l ds) \<le> milliseconds d \<and>
      milliseconds d \<le> max_latency (foldl measure_latency l ds))"
proof (induction ds arbitrary: l)
  case (Cons d ds)
  from Cons.IH [of "measure_latency l d"] measure_latency_bounds [where l = l and d = d] show ?case
    by (auto intro: order_trans)
qed simp

text \<open>
  C29: a load generator over three replicas, whose RPCs do not fail, returns after sending
  \<open>reqNum + 1\<close> commands. The \<open>j\<close>-th is the one its draws and UUIDs select, under the identifier
  \<open>j + 1\<close> past the counter of the client, so that no two have the same identifier. The latencies of
  all but the first, which the code leaves out, lie between the two it reports.
\<close>

theorem bench_loop_ends:
  assumes "NewBufferClient (Some cl) reqNum psize conflict wr conflictKey = Some bc" "three_client cl"
    and "\<forall>inp\<in>set inputs. all_answered inp" "nat (reqNum + 1) \<le> length inputs"
  shows "\<exists>c' mx mn avg cmds. Loop bc inputs = (Returned (c', mx, mn, avg), cmds) \<and>
    length cmds = nat (reqNum + 1) \<and>
    (\<forall>j<length cmds. cmds ! j = request_of bc (gc_ClientId cl) (gc_SeqId cl + of_nat (Suc j)) (inputs ! j)) \<and>
    distinct (map pid cmds) \<and>
    (\<forall>inp\<in>set (drop 1 (take (nat (reqNum + 1)) inputs)).
       mn \<le> milliseconds (latency_of inp) \<and> milliseconds (latency_of inp) \<le> mx)"
proof -
  have bc: "bc_Client bc = Some cl" "bc_reqNum bc = reqNum" "length (bc_reqTime bc) = nat (reqNum + 1)" "0 \<le> reqNum + 1"
      "nat (reqNum + 1) < 2 ^ 64"
    using assms(1) by (auto simp: NewBufferClient_def maxAlloc_def nat_less_iff split: if_splits)
  let ?n = "nat (reqNum + 1)"
  let ?ds = "map latency_of (drop 1 (take ?n inputs))" and ?cmds = "requests_of bc (gc_ClientId cl) (gc_SeqId cl) (take ?n inputs)"
  have "\<exists>c' cl'. Loop_from bc 0 first_latencies inputs =
      (Returned (c', foldl measure_latency first_latencies
         (map latency_of (drop (1 - 0) (take (nat (bc_reqNum bc + 1) - 0) inputs)))),
       requests_of bc (gc_ClientId cl) (gc_SeqId cl) (take (nat (bc_reqNum bc + 1) - 0) inputs)) \<and>
    bc_Client c' = Some cl' \<and> bc_reqNum c' = bc_reqNum bc \<and>
    gc_SeqId cl' = gc_SeqId cl + of_nat (nat (bc_reqNum bc + 1) - 0)"
    using assms(3,4) bc by (intro Loop_from_returns assms(2)) auto
  then obtain c' where run: "Loop_from bc 0 first_latencies inputs =
      (Returned (c', foldl measure_latency first_latencies ?ds), ?cmds)"
    by (auto simp: bc(2))
  have "\<forall>inp\<in>set (drop 1 (take ?n inputs)).
      min_latency (foldl measure_latency first_latencies ?ds) \<le> milliseconds (latency_of inp) \<and>
      milliseconds (latency_of inp) \<le> max_latency (foldl measure_latency first_latencies ?ds)"
    using foldl_latency_bounds [of first_latencies ?ds] by simp
  moreover have "distinct (map pid ?cmds)" using assms(4) bc(5) by (intro requests_of_distinct) simp
  ultimately show ?thesis using run assms(4) unfolding Loop_def by (simp add: requests_of_nth)
qed

definition demo_round :: round_input where
  "demo_round = \<lparr>in_uuid = 9, in_conflict = 3, in_write = 50, in_start = 10, in_end = 20,
     in_sync = (\<lambda>_ _. Some (Some (demo_ack ''v''))), in_events = [Arrives 1 (Some (demo_ack ''v'')), Tick]\<rparr>"

theorem bench_loop_ends_witness:
  "\<exists>r cmds. Loop (the (NewBufferClient (Some demo_client) 1 1000 0 100 42)) [demo_round, demo_round] = (Returned r, cmds) \<and>
     length cmds = 2 \<and> distinct (map pid cmds)"
proof -
  obtain bc where bc: "NewBufferClient (Some demo_client) 1 1000 0 100 42 = Some bc"
    by (simp add: NewBufferClient_def maxAlloc_def)
  moreover have "\<forall>inp\<in>set [demo_round, demo_round]. all_answered inp"
    by (simp add: all_answered_def demo_round_def)
  moreover have "three_client demo_client" by (simp add: three_client_def demo_client_def)
  ultimately have "\<exists>r cmds. Loop bc [demo_round, demo_round] = (Returned r, cmds) \<and> length cmds = 2 \<and> distinct (map pid cmds)"
    using bench_loop_ends [OF bc, of "[demo_round, demo_round]"] by auto
  with bc show ?thesis by simp
qed

section \<open>Requests over TCP\<close>

text \<open>A request as a Go program sends it: the gob stream of the struct.\<close>

definition bench_fields :: "bench_Command \<Rightarrow> (string \<times> gval) list" where
  "bench_fields c = [(''Op'', GUint (unat (bench_Op c))), (''Key'', GString (bench_Key c)), (''Value'', GString (bench_Value c))]"

definition bench_request :: "int \<Rightarrow> bench_Command \<Rightarrow> string" where
  "bench_request tid c = gob_encode tid ''Command'' (bench_fields c)"

lemma unat_less_8: "unat (x :: uint8) < 2 ^ 8"
  using unsigned_less [where 'a = nat, of x] by simp

lemma set_bench_fields_of: "set_bench_fields z (bench_fields c) = Some c"
  using unat_less_8 [of "bench_Op c"]
  by (simp add: bench_fields_def set_bench_field_def as_string_def as_uint_def)

definition bench_fits :: "bench_Command \<Rightarrow> bool" where
  "bench_fits c \<longleftrightarrow> length (bench_Key c) + length (bench_Value c) < 2 ^ 32"

lemma bench_fields_ok:
  "bench_fits c \<Longrightarrow> f \<in> set (bench_fields c) \<Longrightarrow> length (fst f) < 2 ^ 64 \<and> gval_ok (snd f)"
  using unat_less_8 [of "bench_Op c"] by (auto simp: bench_fields_def gval_ok_def bench_fits_def)

lemma bench_descriptor_length:
  assumes "0 < tid" "tid < 2 ^ 31"
  shows "length (enc_string (descriptor tid ''Command'' (map (\<lambda>(n, v). (n, gtype v)) (bench_fields c)))) < 200"
proof -
  let ?d = "descriptor tid ''Command'' (map (\<lambda>(n, v). (n, gtype v)) (bench_fields c))"
  have "length ?d < 100"
    using assms length_encodeInt [of "- tid"] length_encodeInt [of tid]
    by (simp add: descriptor_def bench_fields_def enc_field_descr_def enc_string_def encodeUint_def
        byte_def encodeInt_def)
  with length_enc_string [of ?d] show ?thesis by simp
qed

lemma bench_value_length:
  assumes "0 < tid" "tid < 2 ^ 31" "bench_fits c"
  shows "length (encodeInt tid @ enc_fields 0 (map snd (bench_fields c))) < 2 ^ 64"
proof -
  have "length (enc_fields 0 (map snd (bench_fields c))) \<le> 9 + (\<Sum>v\<leftarrow>map snd (bench_fields c). 9 + gval_size v)"
  proof (rule length_enc_fields)
    show "\<forall>v\<in>set (map snd (bench_fields c)). gval_ok v" using bench_fields_ok [OF assms(3)] by fastforce
  qed (simp add: bench_fields_def)
  also have "\<dots> < 2 ^ 33" using assms(3) by (simp add: bench_fields_def bench_fits_def)
  finally show ?thesis using length_encodeInt [of tid] assms by simp
qed

lemma decode_bench_request:
  assumes "0 < tid" "tid < 2 ^ 31" "bench_fits c"
  shows "decode_bench_Command (bench_request tid c) = Some c"
proof -
  have "length (descriptor tid ''Command'' (map (\<lambda>(n, v). (n, gtype v)) (bench_fields c))) < 2 ^ 64"
    using bench_descriptor_length [OF assms(1,2), of c] by (simp add: enc_string_def)
  then have "gob_decode (bench_request tid c) = Some (bench_fields c)"
    unfolding bench_request_def using assms bench_fields_ok [OF assms(3)] bench_value_length [OF assms]
    by (intro gob_roundtrip) (auto simp: bench_fields_def)
  then show ?thesis by (simp add: decode_bench_Command_def set_bench_fields_of)
qed

lemma dec_string_cut:
  assumes "length (encodeUint (length s)) \<le> k" "k < length (enc_string s)" "length s < 2 ^ 64"
  shows "dec_string (take k (enc_string s)) = None"
proof -
  have "take k (enc_string s) = encodeUint (length s) @ take (k - length (encodeUint (length s))) s"
    using assms(1) by (simp add: enc_string_def)
  with assms show ?thesis by (simp add: dec_string_def enc_string_def)
qed

lemma decode_bench_cut:
  assumes "0 < tid" "tid < 2 ^ 31" "bench_fits c" "4096 < length (bench_request tid c)"
  shows "decode_bench_Command (take 4096 (bench_request tid c)) = None"
proof -
  let ?d = "descriptor tid ''Command'' (map (\<lambda>(n, v). (n, gtype v)) (bench_fields c))"
  let ?v = "encodeInt tid @ enc_fields 0 (map snd (bench_fields c))"
  note d = bench_descriptor_length [OF assms(1,2), of c] and v = bench_value_length [OF assms(1-3)]
  have cut: "take 4096 (bench_request tid c) = enc_string ?d @ take (4096 - length (enc_string ?d)) (enc_string ?v)"
    using d by (simp add: bench_request_def gob_encode_def)
  have "length ?d < 2 ^ 64" using d by (simp add: enc_string_def)
  moreover have "dec_string (take (4096 - length (enc_string ?d)) (enc_string ?v)) = None"
    using d v length_encodeUint [OF v] assms(4)
    by (intro dec_string_cut) (simp_all add: bench_request_def gob_encode_def)
  ultimately have "gob_decode (take 4096 (bench_request tid c)) = None"
    unfolding cut gob_decode_def by (simp add: bind_eq_None_conv split: prod.splits)
  then show ?thesis by (simp add: decode_bench_Command_def)
qed

text \<open>
  A request of at most 4096 bytes becomes the operation of the cluster's client that its code
  names, with its key and value, although the two programs number the operations differently. A
  longer request is dropped without an answer and never reaches the cluster.
\<close>

theorem bench_request_dispatched:
  assumes "0 < tid" "tid < 2 ^ 31" "bench_fits c"
    and "bench_Op c \<in> {bench_GET, bench_PUT, bench_DELETE}"
  shows "handleRequest (bench_request tid c) (Some cl) sync es =
    (if 4096 < length (bench_request tid c) then (Some cl, Returned None)
     else if bench_Op c = bench_GET
     then (Some (fst (Grpc_Get cl sync es (bench_Key c))),
           map_round (\<lambda>(v, _). Some (WriteGob \<lparr>Count = 1, Kvs = [c\<lparr>bench_Value := v\<rparr>]\<rparr>)) (snd (Grpc_Get cl sync es (bench_Key c))))
     else if bench_Op c = bench_PUT
     then (Some (fst (Grpc_Put cl sync es (bench_Key c) (bench_Value c))),
           map_round (\<lambda>_. Some (WriteRaw ''Received PUT Response!'')) (snd (Grpc_Put cl sync es (bench_Key c) (bench_Value c))))
     else (Some (fst (Grpc_Del cl sync es (bench_Key c))),
           map_round (\<lambda>_. Some (WriteRaw ''Received DELETE Response!'')) (snd (Grpc_Del cl sync es (bench_Key c)))))"
proof (cases "4096 < length (bench_request tid c)")
  case True
  with decode_bench_cut [OF assms(1-3)] show ?thesis by (simp add: handleRequest_def)
next
  case False
  then have "decode_bench_Command (take 4096 (bench_request tid c)) = Some c"
    using decode_bench_request [OF assms(1-3)] by simp
  moreover have echo: "bench_Op c = 0 \<Longrightarrow> \<lparr>bench_Op = 0, bench_Key = bench_Key c, bench_Value = v\<rparr> = c\<lparr>bench_Value := v\<rparr>" for v
    by (cases c) simp
  ultimately show ?thesis
    using False assms(4)
    by (auto simp: echo handleRequest_def bench_GET_def bench_PUT_def bench_DELETE_def split: prod.splits)
qed

theorem bench_request_dispatched_witness:
  "\<exists>r. handleRequest (bench_request 65 \<lparr>bench_Op = 1, bench_Key = ''k'', bench_Value = ''v''\<rparr>) (Some demo_client)
     (\<lambda>_ _. None) [Tick] = (r, Returned (Some (WriteRaw ''Received PUT Response!'')))"
proof -
  let ?c = "\<lparr>bench_Op = 1, bench_Key = ''k'', bench_Value = ''v''\<rparr>"
  have "length (bench_request 65 ?c) \<le> 4096"
    by (simp add: bench_request_def gob_encode_def bench_fields_def descriptor_def enc_field_descr_def enc_string_def
        encodeUint_def encodeInt_def be_bytes.simps)
  then show ?thesis
    using bench_request_dispatched [of 65 ?c demo_client "\<lambda>_ _. None" "[Tick]"]
    by (simp add: bench_fits_def bench_GET_def bench_PUT_def Grpc_Put_def Grpc_Put_command_def Grpc_Propose_def Grpc_fastRound_def
        Grpc_GetProposeId_def Let_def)
qed

section \<open>Starting the clients\<close>

lemma NewGrpcClient_fields:
  "NewGrpcClient dial rpc servers k = Returned (Some cl, e) \<Longrightarrow> gc_ClientId cl = k \<and> gc_SeqId cl = 0 \<and> grpc_servers cl = servers"
  by (auto simp: NewGrpcClient_def Let_def split: if_splits option.splits)

lemma map_round_Returned: "map_round f r = Returned y \<longleftrightarrow> (\<exists>x. r = Returned x \<and> y = f x)"
  by (cases r) auto

fun task_client :: "bench_task \<Rightarrow> Grpc_client option" where
  "task_client (RunLoop bc) = bc_Client bc"
| "task_client (BenchServer port cl) = cl"

lemma main_task_client: "main_task c local i cl = Some t \<Longrightarrow> task_client t = cl"
  by (auto simp: main_task_def NewBufferClient_def split: if_splits)

lemma main_clients_ids:
  assumes "main_clients net servers c local i n = Returned ts"
  shows "length ts = n \<and> (\<forall>j<n. \<forall>cl. task_client (ts ! j) = Some cl \<longrightarrow>
    gc_ClientId cl = of_nat (i + j) \<and> gc_SeqId cl = 0)"
  using assms
proof (induction n arbitrary: i ts)
  case (Suc n)
  from Suc.prems obtain cl e t ts' where
    n: "NewGrpcClient (fst (net i)) (snd (net i)) servers (of_nat i) = Returned (cl, e)"
      "main_task c local (int i) cl = Some t" "main_clients net servers c local (Suc i) n = Returned ts'" "ts = t # ts'"
    by (auto simp: map_round_Returned split: round.splits option.splits)
  have "\<forall>cl'. task_client t = Some cl' \<longrightarrow> gc_ClientId cl' = of_nat i \<and> gc_SeqId cl' = 0"
    using n(1) main_task_client [OF n(2)] by (auto dest: NewGrpcClient_fields)
  with Suc.IH [OF n(3)] show ?case unfolding n(4) by (auto simp: less_Suc_eq_0_disj)
qed simp

lemma bench_main_ids:
  assumes "bench_main net flag conf local n cid = Returned ts" "n < 2 ^ 64"
  shows "(\<forall>i cl. i < length ts \<longrightarrow> task_client (ts ! i) = Some cl \<longrightarrow> gc_SeqId cl = 0) \<and>
    (\<forall>i j cl d. i < length ts \<longrightarrow> j < length ts \<longrightarrow> task_client (ts ! i) = Some cl \<longrightarrow> task_client (ts ! j) = Some d \<longrightarrow>
      i \<noteq> j \<longrightarrow> gc_ClientId cl \<noteq> gc_ClientId d)"
proof (cases "n = 1")
  case True
  with assms(1) obtain c client e t where
    "NewGrpcClient (fst (net 0)) (snd (net 0)) (Split CHR '','' flag) (word_of_int cid) = Returned (client, e)"
    "main_task c local cid client = Some t" "ts = [t]"
    by (auto simp: bench_main_def Let_def split: prod.splits option.splits round.splits)
  then show ?thesis using main_task_client [of c local cid client t] by (auto dest: NewGrpcClient_fields)
next
  case False
  with assms(1) obtain c where "main_clients net (Split CHR '','' flag) c local 0 (nat n) = Returned ts"
    by (auto simp: bench_main_def Let_def split: prod.splits option.splits if_splits)
  note ids = main_clients_ids [OF this]
  then have "length ts < 2 ^ 64" using assms(2) by (auto simp: nat_less_iff)
  then show ?thesis using ids by (auto simp: word_of_nat_eq)
qed

text \<open>
  C30: the clients one benchmark process starts, one client under the number it is given or fewer than
  \<open>2^64\<close> of them, never give two commands the same identifier, as long as each issues fewer than
  \<open>2^64\<close> commands.
\<close>

theorem bench_ids_distinct:
  assumes "bench_main net flag conf local n cid = Returned ts" "n < 2 ^ 64"
    and "a < length ts" "b < length ts" "task_client (ts ! a) = Some ca" "task_client (ts ! b) = Some cb"
    and "j < 2 ^ 64" "k < 2 ^ 64" "(a, j) \<noteq> (b, k)"
  shows "snd (Grpc_GetProposeId (((fst \<circ> Grpc_GetProposeId) ^^ j) ca)) \<noteq>
         snd (Grpc_GetProposeId (((fst \<circ> Grpc_GetProposeId) ^^ k) cb))"
proof -
  have next_id: "snd (Grpc_GetProposeId (((fst \<circ> Grpc_GetProposeId) ^^ i) cl)) = \<lparr>ClientId = gc_ClientId cl, SeqId = of_nat (Suc i)\<rparr>"
    if "gc_SeqId cl = 0" for i cl
    using that by (simp only: GetProposeId_steps) (simp add: Grpc_GetProposeId_def Let_def)
  have new: "gc_SeqId ca = 0" "gc_SeqId cb = 0" "a \<noteq> b \<Longrightarrow> gc_ClientId ca \<noteq> gc_ClientId cb"
    using bench_main_ids [OF assms(1,2)] assms(3-6) by blast+
  have "a = b \<Longrightarrow> j \<noteq> k" using assms(9) by simp
  with new assms(5-8) show ?thesis
    by (cases "a = b") (auto simp: next_id word_of_nat_eq)
qed

definition demo_net :: "nat \<Rightarrow> client_net" where
  "demo_net i = (\<lambda>_. nil, \<lambda>k. (\<lparr>IsLeaderFlag = if k = 1 then 1 else 0\<rparr>, nil))"

definition demo_bench_client :: "uint64 \<Rightarrow> Grpc_client" where
  "demo_bench_client i = \<lparr>grpc_servers = [''a'', ''b''], gc_ClientId = i, gc_SeqId = 0, gc_f = 0, gc_LeaderId = 1,
     gc_static = \<lparr>fast = 0, slow = 0\<rparr>\<rparr>"

lemma demo_bench_main:
  "bench_main demo_net ''a,b'' (Inl []) False 2 0 =
   Returned [BenchServer '':9360'' (Some (demo_bench_client 0)), BenchServer '':9361'' (Some (demo_bench_client 1))]"
proof -
  have r: "Read False (Inl []) ''c1'' = (zero_Config, None, False)"
    by (simp add: Read_def scan_lines_def raw_lines_def)
  have "itoa 9360 = ''9360''" "itoa 9361 = ''9361''"
    by (simp_all add: itoa_def utoa.simps digit_char_def char_of_def bit_Suc_0_iff)
  with r show ?thesis
    by (simp add: bench_main_def numeral_2_eq_2 main_task_def demo_net_def NewGrpcClient_def Grpc_fetchLeader_def
        Grpc_isLeader_def failures_def demo_bench_client_def Let_def)
qed

theorem bench_ids_distinct_witness:
  "snd (Grpc_GetProposeId (((fst \<circ> Grpc_GetProposeId) ^^ 5) (demo_bench_client 0))) \<noteq>
   snd (Grpc_GetProposeId (((fst \<circ> Grpc_GetProposeId) ^^ 5) (demo_bench_client 1)))"
  by (rule bench_ids_distinct [OF demo_bench_main, of 0 1]) simp_all

end
