(* ===== verification/Server.thy ===== *)
theory Server
  imports Raft_Start Disk_Stores
begin

text \<open>
  Assembling a replica (\<open>curp/server.go\<close>), its RPC server (\<open>Startgrpc\<close> of \<open>curp/state_grpc.go\<close>) and
  the server program (\<open>curp_server/main.go\<close>): which replicas a process starts, how a replica is put
  together from its raft node and its state machine, and what closing it returns. The older \<open>main\<close> of
  \<open>curp/main.go\<close> is here too.
\<close>

section \<open>The RPC server\<close>

text \<open>
  The network and the gRPC library are parameters: what listening on an address gives, and what
  \<open>Serve\<close> returns, \<open>None\<close> while it is running. \<open>ServeFatal\<close> is a \<open>log.Fatalf\<close>. While the server runs it
  calls the handlers \<open>grpc_IsLeader\<close>, \<open>grpc_Propose\<close> and \<open>grpc_WaitSynced\<close>.
\<close>

datatype 'l serving = ServeFatal error | Serving 'l | ServeStopped

definition Startgrpc :: "(string \<Rightarrow> 'l + error) \<Rightarrow> ('l \<Rightarrow> err option) \<Rightarrow> string \<Rightarrow> 'l serving" where
  "Startgrpc listen serve Address =
     (case listen Address of
        Inr e \<Rightarrow> ServeFatal e
      | Inl listener \<Rightarrow>
          (case serve listener of
             None \<Rightarrow> Serving listener
           | Some (Some e) \<Rightarrow> ServeFatal e
           | Some None \<Rightarrow> ServeStopped))"

section \<open>One replica\<close>

text \<open>
  The snapshot function given to the raft node sends on a channel without buffer, which the
  server never receives from. \<open>None\<close>: the caller is parked.
\<close>

definition snapshotTriggeredC :: "unit chan" where
  "snapshotTriggeredC = make_chan 0"

definition getSnapshotFn2 :: "unit chan \<Rightarrow> (unit chan \<times> string option \<times> err) option" where
  "getSnapshotFn2 ch = map_option (\<lambda>ch'. (ch', None, nil)) (chan_send ch ())"

text \<open>
  The parts of a replica: its raft node, the calls \<open>startRaft\<close> makes and its state machine. \<open>None\<close> is
  a start that ends the process. The state machine is made after the snapshotter was reported.
\<close>

record ('n, 'c, 'm, 'h) peerInfo =
  p_peers :: "string list"
  p_grpcservers :: string
  p_id :: int
  p_node :: "('n, 'c, 'm) curpNode"
  p_started :: "('c, 'h) start_call list"
  p_state :: "MemStore StateMachine"

definition RunStateMachine ::
  "'c \<Rightarrow> 'n \<Rightarrow> ('c, 'h) disk \<Rightarrow> (string option \<times> err) option \<Rightarrow> string list \<Rightarrow> string \<Rightarrow> int \<Rightarrow>
   ('n, 'c, 'm, 'h) peerInfo option" where
  "RunStateMachine zero nothing D snapshotter peers grpcserver nodeId =
     (let rc = newRaftNode zero nothing nodeId peers False in
      case startRaft zero D rc of
        None \<Rightarrow> None
      | Some calls \<Rightarrow>
          (case newGrpcState nodeId snapshotter of
             None \<Rightarrow> None
           | Some st \<Rightarrow> Some \<lparr>p_peers = peers, p_grpcservers = grpcserver, p_id = nodeId, p_node = rc,
                              p_started = calls, p_state = st\<rparr>))"

text \<open>
  \<open>close\<close>: the error the raft node reported and the errors of removing its two directories; the first
  two are overwritten.
\<close>

definition peer_close :: "err \<Rightarrow> (string \<Rightarrow> err) \<Rightarrow> ('n, 'c, 'm, 'h) peerInfo \<Rightarrow> err" where
  "peer_close erri RemoveAll p =
     (let e0 = (if erri \<noteq> nil then erri else nil);
          e1 = RemoveAll (''./raftexample-'' @ itoa (p_id p)) in
      RemoveAll (''./raftexample-'' @ itoa (p_id p) @ ''-snap''))"

section \<open>The server program\<close>

text \<open>
  What \<open>main\<close> starts: the peers, the address of the gRPC server and the number of each replica. Without
  the flag \<open>-s\<close> all replicas run in one process. \<open>None\<close> is \<open>log.Fatal\<close>.
\<close>

record replica_start =
  st_peers :: "string list"
  st_grpc :: string
  st_id :: int

definition server_main :: "bool \<Rightarrow> string \<Rightarrow> string \<Rightarrow> int \<Rightarrow> string \<Rightarrow> replica_start list option" where
  "server_main runcluster peers grpc_peers nodeId grpc_addr =
     (if \<not> runcluster then
        let server_address = Split CHR '','' peers;
            grpcserver_address = Split CHR '','' grpc_peers;
            number = length grpcserver_address in
        if number \<noteq> length server_address then None
        else Some (map (\<lambda>i. \<lparr>st_peers = server_address, st_grpc = grpcserver_address ! i, st_id = int i + 1\<rparr>) [0..<number])
      else Some [\<lparr>st_peers = Split CHR '','' peers, st_grpc = grpc_addr, st_id = nodeId + 1\<rparr>])"

text \<open>
  The \<open>main\<close> of package \<open>curp\<close>, with its flags as arguments. It serves RPCs, on a server without a
  state machine, before it makes the raft node and the state machine.
\<close>

datatype ('l, 'n, 'c, 'm, 'd) curp_run =
  CurpFatal error | CurpServing 'l | CurpStarts "('n, 'c, 'm) curpNode" "'d BoltStore option StateMachine option"

definition curp_main ::
  "(string \<Rightarrow> 'l + error) \<Rightarrow> ('l \<Rightarrow> err option) \<Rightarrow> 'c \<Rightarrow> 'n \<Rightarrow> ('d, 't) bolt \<Rightarrow> (string option \<times> err) option \<Rightarrow>
   string \<Rightarrow> int \<Rightarrow> bool \<Rightarrow> string \<Rightarrow> ('l, 'n, 'c, 'm, 'd) curp_run" where
  "curp_main listen serve zero nothing B snapshotter cluster nodeId join rpc_port =
     (case listen rpc_port of
        Inr e \<Rightarrow> CurpFatal e
      | Inl lis \<Rightarrow>
          (case serve lis of
             None \<Rightarrow> CurpServing lis
           | Some (Some e) \<Rightarrow> CurpFatal e
           | Some None \<Rightarrow>
               CurpStarts (newRaftNode zero nothing nodeId (Split CHR '','' cluster) join) (newState B nodeId snapshotter)))"

text \<open>It makes no raft node as long as its RPC server runs.\<close>

lemma curp_main_starts:
  "curp_main listen serve zero nothing B snapshotter cluster nodeId join rpc_port = CurpStarts rc st \<Longrightarrow>
   Startgrpc listen serve rpc_port = ServeStopped"
  by (auto simp: curp_main_def Startgrpc_def split: sum.splits option.splits)

section \<open>Properties\<close>

lemma snapshot_function_parks: "getSnapshotFn2 snapshotTriggeredC = None"
  by (simp add: getSnapshotFn2_def snapshotTriggeredC_def chan_send_def make_chan_def)

lemma serveRaft_index:
  assumes "parse (rc_peers rc ! nat (rc_id rc - 1)) = Inl host" "listen host = Inl lis"
  shows "serveRaft parse listen True rc = Some () \<longleftrightarrow> 1 \<le> rc_id rc \<and> rc_id rc \<le> int (length (rc_peers rc))"
  using assms by (auto simp: serveRaft_def newStoppableListener_def)

lemma newGrpcState_start: "newGrpcState i sn = Some st \<Longrightarrow> raftState st = StateFollower \<and> NodeId st = i"
  by (auto simp: newGrpcState_def reloadSnapshot_def recoverFromSnapshot_def initial_state_def
      split: prod.splits option.splits)

text \<open>
  C24: a process that starts the whole cluster starts one replica per address, with different
  numbers. Each replica that comes up on a fresh disk, without a write-ahead log, founds a raft cluster whose members are exactly the
  numbers of the replicas started, connects to all others, finds its own address in the list of
  peers, and starts as a follower.
\<close>

theorem launched_cluster_agrees:
  assumes "server_main False peers grpc_peers nodeId grpc_addr = Some rs" "length rs < 2 ^ 64"
    and "r \<in> set rs" "\<not> wal_Exist D"
    and "RunStateMachine zero nothing D snapshotter (st_peers r) (st_grpc r) (st_id r) =
      Some (p :: ('n, 'c, 'm, 'h) peerInfo)"
  shows "distinct (map st_id rs) \<and>
    (\<exists>ids. StartNode (node_Config (st_id r)) ids \<in> set (p_started p) \<and> map uint ids = map st_id rs) \<and>
    (\<forall>q\<in>set rs. st_id q \<noteq> st_id r \<longrightarrow>
       TransportAddPeer (word_of_int (st_id q)) [st_peers q ! nat (st_id q - 1)] \<in> set (p_started p)) \<and>
    (\<forall>parse listen host. parse (st_peers r ! nat (st_id r - 1)) = Inl host \<and> listen host = Inl (lis :: 'l) \<longrightarrow>
       serveRaft parse listen True (p_node p) = Some ()) \<and>
    raftState (p_state p) = StateFollower \<and> NodeId (p_state p) = st_id r"
proof -
  define n where "n = length rs"
  let ?addr = "Split CHR '','' peers" and ?g = "Split CHR '','' grpc_peers"
  have rs: "rs = map (\<lambda>i. \<lparr>st_peers = ?addr, st_grpc = ?g ! i, st_id = int i + 1\<rparr>) [0..<n]" "length ?addr = n"
    using assms(1) by (auto simp: server_main_def n_def Let_def split: if_splits)
  then obtain i where i: "i < n" "st_peers r = ?addr" "st_id r = int i + 1" using assms(3) by auto
  obtain calls st where p: "startRaft zero D (newRaftNode zero nothing (st_id r) (st_peers r) False :: ('n, 'c, 'm) curpNode) = Some calls"
      "newGrpcState (st_id r) snapshotter = Some st" "p_started p = calls" "p_state p = st"
      "p_node p = newRaftNode zero nothing (st_id r) (st_peers r) False"
    using assms(5) by (auto simp: RunStateMachine_def Let_def split: option.splits)
  note calls = startRaft_calls [OF p(1)]
  have small: "uint (word_of_int (int j + 1) :: uint64) = int j + 1" if "j < n" for j
    using that assms(2) by (subst uint_word_of_int) (simp add: n_def)
  let ?ids = "map (\<lambda>i. of_nat (i + 1) :: uint64) [0..<n]"
  have "StartNode (node_Config (st_id r)) ?ids \<in> set (p_started p)"
    using calls [of "node_Config (st_id r)" ?ids] assms(4) i(2) rs(2) by (simp add: p(3) newRaftNode_def)
  moreover have "map uint ?ids = map st_id rs" using small by (simp add: rs(1) o_def add.commute)
  moreover have "distinct (map st_id rs)" by (simp add: rs(1) o_def distinct_map inj_on_def)
  moreover have "TransportAddPeer (word_of_int (st_id q)) [st_peers q ! nat (st_id q - 1)] \<in> set (p_started p)"
    if "q \<in> set rs" "st_id q \<noteq> st_id r" for q
    using that calls [of _ _ "word_of_int (st_id q)" "[st_peers q ! nat (st_id q - 1)]"] i rs
    by (auto simp: p(3) newRaftNode_def)
  moreover have "serveRaft parse listen True (p_node p) = Some ()"
    if "parse (st_peers r ! nat (st_id r - 1)) = Inl host" "listen host = Inl lis" for parse listen host
    using that serveRaft_index [of parse "p_node p" host listen lis] i rs(2) by (simp add: p(5) newRaftNode_def)
  moreover have "raftState (p_state p) = StateFollower \<and> NodeId (p_state p) = st_id r"
    using newGrpcState_start [OF p(2)] by (simp add: p(4))
  ultimately show ?thesis by blast
qed

definition default_addrs :: string where
  "default_addrs = ''http://127.0.0.1:7010,http://127.0.0.1:7011,http://127.0.0.1:7012''"

definition default_gaddrs :: string where
  "default_gaddrs = '':8020,:8021,:8022''"

theorem launched_cluster_agrees_witness:
  "\<exists>p :: (unit, unit, unit, unit) peerInfo. RunStateMachine () () (demo_disk False []) (Some (None, Some ErrNoSnapshot))
      [''http://127.0.0.1:7010'', ''http://127.0.0.1:7011'', ''http://127.0.0.1:7012''] '':8021'' 2 = Some p \<and>
     TransportAddPeer 3 [''http://127.0.0.1:7012''] \<in> set (p_started p)"
proof -
  let ?ps = "[''http://127.0.0.1:7010'', ''http://127.0.0.1:7011'', ''http://127.0.0.1:7012'']"
  let ?r = "\<lambda>g k. \<lparr>st_peers = ?ps, st_grpc = g, st_id = k\<rparr>"
  have main: "server_main False default_addrs default_gaddrs 0 '':11041'' = Some [?r '':8020'' 1, ?r '':8021'' 2, ?r '':8022'' 3]"
    by (simp add: server_main_def default_addrs_def default_gaddrs_def upt_rec Let_def)
  obtain p :: "(unit, unit, unit, unit) peerInfo" where
    p: "RunStateMachine () () (demo_disk False []) (Some (None, Some ErrNoSnapshot)) ?ps '':8021'' 2 = Some p"
    by (simp add: RunStateMachine_def startRaft_def replayWAL_def curpNode_loadSnapshot_def openWAL_def demo_disk_def
        newGrpcState_def NewMemStore_def reloadSnapshot_def loadSnapshot_def Let_def)
  have "distinct (map st_id [?r '':8020'' 1, ?r '':8021'' 2, ?r '':8022'' 3]) \<and>
    (\<exists>ids. StartNode (node_Config (st_id (?r '':8021'' 2))) ids \<in> set (p_started p) \<and>
       map uint ids = map st_id [?r '':8020'' 1, ?r '':8021'' 2, ?r '':8022'' 3]) \<and>
    (\<forall>q\<in>set [?r '':8020'' 1, ?r '':8021'' 2, ?r '':8022'' 3]. st_id q \<noteq> st_id (?r '':8021'' 2) \<longrightarrow>
       TransportAddPeer (word_of_int (st_id q)) [st_peers q ! nat (st_id q - 1)] \<in> set (p_started p)) \<and>
    (\<forall>parse listen host. parse (st_peers (?r '':8021'' 2) ! nat (st_id (?r '':8021'' 2) - 1)) = Inl host \<and> listen host = Inl () \<longrightarrow>
       serveRaft parse listen True (p_node p) = Some ()) \<and>
    raftState (p_state p) = StateFollower \<and> NodeId (p_state p) = st_id (?r '':8021'' 2)"
    by (rule launched_cluster_agrees [OF main]) (use p in \<open>simp_all add: demo_disk_def\<close>)
  with p show ?thesis by auto
qed

end
