(* ===== verification/Progress.thy ===== *)
theory Progress
  imports Replica_Properties
begin

text \<open>
  What a replica can always still do. Under the discipline the clients keep, that an identifier is
  proposed once, and as long as raft commits it once, the worker of \<open>cmd_worker\<close> never parks on the
  board, so everything raft delivered can be executed by the steps of the replica alone. The
  discipline is a budget: what has been handed in for an identifier, at whichever place of the
  replica it is, together with what the rest of the run hands in, is at most one.
\<close>


section \<open>What has been handed in\<close>

fun proposed :: "node_event list \<Rightarrow> ProposeId list" where
  "proposed [] = []"
| "proposed (CallPropose c # es) = pid c # proposed es"
| "proposed (_ # es) = proposed es"

lemma proposed_Cons: "proposed (e # es) = proposed [e] @ proposed es"
  by (cases e) simp_all

definition logged :: "node_event list \<Rightarrow> CurpClientCommand option list" where
  "logged es = map DecodeClientCommand (commit_data es)"

definition answered_ids :: "'kv node \<Rightarrow> ProposeId list" where
  "answered_ids s = map (\<lambda>(c, n, r). pid c) (answers s)"

definition pre_fast :: "ProposeId \<Rightarrow> goroutine \<Rightarrow> bool" where
  "pre_fast i g =
     (case g of ProposeCalled c \<Rightarrow> pid c = i | ProposeChecked c _ \<Rightarrow> pid c = i | SendsFast c \<Rightarrow> pid c = i
      | _ \<Rightarrow> False)"

definition fast_load :: "ProposeId \<Rightarrow> 'kv node \<Rightarrow> nat" where
  "fast_load i s =
     length (filter (pre_fast i) (goroutines s)) + count_list (map pid (cbuf (fastPath s))) i +
     count_list (answered_ids s) i"

definition budget :: "node_event list \<Rightarrow> 'kv node \<Rightarrow> bool" where
  "budget es s \<longleftrightarrow>
     (\<forall>i. fast_load i s + count_list (proposed es) i \<le> 1) \<and>
     distinct (map (map_option pid) (pipeline s @ logged es))"

lemma goroutine_load:
  assumes "goroutine_step tid s g = Some (u, gs)"
  shows "length (filter (pre_fast i) gs) + count_list (map pid (cbuf (fastPath u))) i \<le>
         (if pre_fast i g then 1 else 0) + count_list (map pid (cbuf (fastPath s))) i"
  using assms
  by (cases g)
    (auto simp: pre_fast_def Propose_witness_def Propose_locked_def
      split: prod.splits option.splits dispatch.splits outcome.splits if_splits dest!: chan_send_queue)

lemma worker_load:
  "worker_fast K s = Some t \<Longrightarrow> fast_load i t \<le> fast_load i s"
  "worker_slow K s = Some t \<Longrightarrow> fast_load i t = fast_load i s"
  "worker_continue s = Some t \<Longrightarrow> fast_load i t = fast_load i s"
  by (auto simp: fast_load_def answered_ids_def worker_continue_frame elim!: worker_fast_cases worker_slow_cases
      dest!: execute_frame [OF disjI1] execute_frame [OF disjI2] chan_recv_queue)

lemma fast_load_step:
  assumes "node_step K tid s e t"
  shows "fast_load i t \<le> fast_load i s + count_list (proposed [e]) i"
proof (cases e)
  case (Sched n)
  with assms obtain u gs where n: "n < length (goroutines s)"
      and u: "goroutine_step tid s (goroutines s ! n) = Some (u, gs)"
      "t = u\<lparr>goroutines := replace_at n gs (goroutines s)\<rparr>"
    by (auto simp: sched_step)
  with goroutine_load [OF u(1), of i] filter_replace_at [OF n, of "pre_fast i" gs]
    goroutine_step_frame(3) [OF u(1)] show ?thesis
    by (simp add: fast_load_def answered_ids_def Sched split: if_splits)
next
  case WorkerFast
  with assms worker_load(1) [of K s t i] show ?thesis by (simp add: node_step_def)
next
  case WorkerSlow
  with assms worker_load(2) [of K s t i] show ?thesis by (simp add: node_step_def)
next
  case WorkerContinue
  with assms worker_load(3) [of s t i] show ?thesis by (simp add: node_step_def)
qed (use assms in \<open>auto simp: node_step_def fast_load_def answered_ids_def pre_fast_def listenRaftState_def
    readCommits_frames split: option.splits if_splits\<close>)

lemma logged_Cons: "logged (e # es) = logged [e] @ logged es"
  using commit_data_Cons [of e es] by (simp add: logged_def)

lemma budget_step:
  assumes "node_step K tid s e t" "budget (e # es) s" shows "budget es t"
proof -
  have "fast_load i t + count_list (proposed es) i \<le> 1" for i
    using fast_load_step [OF assms(1), of i] assms(2) proposed_Cons [of e es]
    by (fastforce simp: budget_def dest: spec [of _ i])
  moreover have "pipeline t @ logged es = pipeline s @ logged (e # es)"
    using pipeline_step [OF assms(1)] by (simp only: logged_Cons [of e es] append_assoc) (simp add: logged_def)
  ultimately show ?thesis using assms(2) by (simp add: budget_def)
qed

lemma budget_drop:
  assumes "budget es s" shows "budget [] s"
proof -
  from assms have "fast_load i s \<le> 1" for i unfolding budget_def using add_leD1 by blast
  moreover from assms have "distinct (map (map_option pid) (pipeline s))" by (simp add: budget_def)
  ultimately show ?thesis by (simp add: budget_def logged_def)
qed

lemma budget_fast_head:
  assumes "budget [] s" "chan_recv (fastPath s) = Some (cmd, ch)" shows "pid cmd \<notin> set (answered_ids s)"
proof
  assume "pid cmd \<in> set (answered_ids s)"
  then have "0 < count_list (answered_ids s) (pid cmd)" by (simp add: count_list_0_iff zero_less_iff_neq_zero)
  moreover have "fast_load (pid cmd) s \<le> 1" using assms(1) by (simp add: budget_def)
  ultimately show False using chan_recv_queue [OF assms(2)] by (simp add: fast_load_def)
qed

lemma budget_slow_head:
  assumes "budget [] s" "chan_recv (slowPath s) = Some (cmd, ch)" shows "pid cmd \<notin> pid ` set (consumed s)"
  using assms(1) chan_recv_queue [OF assms(2)] by (force simp: budget_def pipeline_def logged_def)

section \<open>The worker never parks\<close>

definition worker_smooth :: "'kv node \<Rightarrow> bool" where
  "worker_smooth s =
     (case worker s of
        InsertsEr c r \<Rightarrow> pid c \<in> set (answered_ids s) \<and> \<not> er_ready (commandBoard s) (pid c)
      | NotifiesAsr c \<Rightarrow> pid c \<in> pid ` set (consumed s) \<and> \<not> asr_busy (commandBoard s) (pid c)
      | SendsEr c r \<Rightarrow> False
      | SendsAsr c \<Rightarrow> False
      | _ \<Rightarrow> True)"

definition path_caps :: "'kv node \<Rightarrow> bool" where
  "path_caps s \<longleftrightarrow> ccap (fastPath s) = 1000 \<and> ccap (slowPath s) = 1000"

definition smooth :: "'kv node \<Rightarrow> bool" where
  "smooth s \<longleftrightarrow>
     path_caps s \<and> parked_inv s \<and> board_inv (commandBoard s) \<and> worker_smooth s \<and>
     (\<forall>i. er_ready (commandBoard s) i \<longrightarrow> i \<in> set (answered_ids s)) \<and>
     (\<forall>i. asr_busy (commandBoard s) i \<longrightarrow> i \<in> pid ` set (consumed s))"

lemma smooth_lock_free: "smooth s \<Longrightarrow> mu (commandBoard s) = None"
  by (auto simp: smooth_def parked_inv_def worker_smooth_def split: worker_pc.splits)

lemma path_caps_step:
  assumes "node_step K tid s e t" "path_caps s" shows "path_caps t"
proof (cases e)
  case (Sched n)
  with assms obtain u gs where u: "goroutine_step tid s (goroutines s ! n) = Some (u, gs)"
      "t = u\<lparr>goroutines := replace_at n gs (goroutines s)\<rparr>"
    by (auto simp: sched_step)
  with assms(2) show ?thesis
    by (cases "goroutines s ! n")
      (auto simp: path_caps_def Propose_witness_def split: prod.splits option.splits dispatch.splits
        outcome.splits if_splits dest!: chan_send_ok)
qed (use assms in \<open>auto simp: node_step_def path_caps_def listenRaftState_def worker_continue_frame
    readCommits_take_def readCommits_reload_def readCommits_push_def readCommits_closed_def reloadSnapshot_def
    recoverFromSnapshot_def
    elim!: worker_fast_cases worker_slow_cases
    dest!: execute_frame [OF disjI1] execute_frame [OF disjI2] chan_send_ok chan_recv_ok
    split: option.splits list.splits prod.splits if_splits\<close>)

lemma goroutine_tokens:
  assumes "goroutine_step tid s g = Some (t, gs)"
  shows "er_ready (commandBoard t) i \<longrightarrow> er_ready (commandBoard s) i"
    and "asr_busy (commandBoard t) i \<longrightarrow> asr_busy (commandBoard s) i"
  using assms
  by (cases g; force simp: Propose_witness_def split: prod.splits option.splits dispatch.splits
      outcome.splits if_splits dest: wait_tokens [where j = i])+

text \<open>What the worker does next, when it never parks.\<close>

lemma smooth_continue_cases:
  assumes "smooth s" "worker s \<noteq> Selects"
  obtains (insert) c r b where "worker s = InsertsEr c r" "InsertEr (commandBoard s) (pid c) r = Done b ()"
      "worker_continue s = Some (s\<lparr>commandBoard := b, worker := Selects\<rparr>)"
  | (notify) c b where "worker s = NotifiesAsr c" "NotifyAsr (commandBoard s) (pid c) = Done b ()"
      "worker_continue s = Some (s\<lparr>commandBoard := b, worker := RemovesRecord c\<rparr>)"
  | (remove) c where "worker s = RemovesRecord c"
      "worker_continue s = Some (removeRecord (s\<lparr>worker := Selects\<rparr>) c)"
proof (cases "worker s")
  case (InsertsEr c r)
  with assms have "\<not> er_ready (commandBoard s) (pid c)" "board_inv (commandBoard s)"
    by (simp_all add: smooth_def worker_smooth_def)
  with InsertEr_parks_iff [of "commandBoard s" "pid c" r]
  obtain b where "InsertEr (commandBoard s) (pid c) r = Done b ()"
    by (cases "InsertEr (commandBoard s) (pid c) r") auto
  with insert InsertsEr smooth_lock_free [OF assms(1)] show ?thesis by (simp add: worker_continue_def)
next
  case (NotifiesAsr c)
  with assms have "\<not> asr_busy (commandBoard s) (pid c)" "board_inv (commandBoard s)"
    by (simp_all add: smooth_def worker_smooth_def)
  with NotifyAsr_parks_iff [of "commandBoard s" "pid c"]
  obtain b where "NotifyAsr (commandBoard s) (pid c) = Done b ()"
    by (cases "NotifyAsr (commandBoard s) (pid c)") auto
  with notify NotifiesAsr smooth_lock_free [OF assms(1)] show ?thesis by (simp add: worker_continue_def)
next
  case (RemovesRecord c)
  with remove show ?thesis by (simp add: worker_continue_def)
qed (use assms in \<open>simp_all add: smooth_def worker_smooth_def\<close>)

lemma smooth_after_continue:
  assumes "worker_continue s = Some t" "smooth s"
  shows "worker_smooth t \<and> (er_ready (commandBoard t) i \<longrightarrow> i \<in> set (answered_ids t)) \<and>
         (asr_busy (commandBoard t) i \<longrightarrow> i \<in> pid ` set (consumed t))"
proof -
  have "worker s \<noteq> Selects" using assms(1) by (auto simp: worker_continue_def)
  with assms(2) show ?thesis
  proof (cases rule: smooth_continue_cases)
    case (insert c r b)
    with assms have "answered_ids t = answered_ids s" by (auto simp: answered_ids_def)
    with insert assms InsertEr_tokens [OF insert(2), of i] show ?thesis
      by (auto simp: smooth_def worker_smooth_def)
  next
    case (notify c b)
    with assms NotifyAsr_tokens [OF notify(2), of i] show ?thesis
      by (auto simp: smooth_def worker_smooth_def answered_ids_def)
  next
    case (remove c)
    with assms show ?thesis by (auto simp: smooth_def worker_smooth_def answered_ids_def removeRecord_def)
  qed
qed

lemma smooth_after_fast:
  assumes "worker_fast K s = Some t" "smooth s" "budget [] s"
  shows "worker_smooth t \<and> (er_ready (commandBoard t) i \<longrightarrow> i \<in> set (answered_ids t)) \<and>
         (asr_busy (commandBoard t) i \<longrightarrow> i \<in> pid ` set (consumed t))"
  using assms(1)
proof (cases rule: worker_fast_cases)
  case skipped
  with assms(2) show ?thesis by (auto simp: smooth_def worker_smooth_def answered_ids_def)
next
  case (run cmd ch s2 s3 r)
  with execute_frame [OF disjI1 [OF run(5)]] budget_fast_head [OF assms(3) run(2)] assms(2)
  show ?thesis by (auto simp: smooth_def worker_smooth_def answered_ids_def)
qed

lemma smooth_after_slow:
  assumes "worker_slow K s = Some t" "smooth s" "budget [] s"
  shows "worker_smooth t \<and> (er_ready (commandBoard t) i \<longrightarrow> i \<in> set (answered_ids t)) \<and>
         (asr_busy (commandBoard t) i \<longrightarrow> i \<in> pid ` set (consumed t))"
  using assms(1)
proof (cases rule: worker_slow_cases)
  case (skipped cmd ch)
  with budget_slow_head [OF assms(3) skipped(2)] assms(2)
  show ?thesis by (auto simp: smooth_def worker_smooth_def answered_ids_def)
next
  case (run cmd ch s2 s3 r)
  with execute_frame [OF disjI2 [OF run(5)]] budget_slow_head [OF assms(3) run(2)] assms(2)
  show ?thesis by (auto simp: smooth_def worker_smooth_def answered_ids_def)
qed

lemma worker_smooth_mono:
  assumes "worker_smooth s" "worker t = worker s" "answers t = answers s" "consumed t = consumed s"
    and "\<And>i. er_ready (commandBoard t) i \<longrightarrow> er_ready (commandBoard s) i"
    and "\<And>i. asr_busy (commandBoard t) i \<longrightarrow> asr_busy (commandBoard s) i"
  shows "worker_smooth t"
  using assms by (auto simp: worker_smooth_def answered_ids_def split: worker_pc.splits)

lemma smooth_step:
  assumes "node_step K tid s e t" "smooth s" "budget [] s" shows "smooth t"
proof -
  have "worker_smooth t \<and> (er_ready (commandBoard t) i \<longrightarrow> i \<in> set (answered_ids t)) \<and>
        (asr_busy (commandBoard t) i \<longrightarrow> i \<in> pid ` set (consumed t))" for i
  proof (cases "e \<in> {WorkerFast, WorkerSlow, WorkerContinue}")
    case True
    with assms smooth_after_fast [of K s t i] smooth_after_slow [of K s t i] smooth_after_continue [of s t i]
    show ?thesis by (auto simp: node_step_def)
  next
    case False
    have "(er_ready (commandBoard t) j \<longrightarrow> er_ready (commandBoard s) j) \<and>
          (asr_busy (commandBoard t) j \<longrightarrow> asr_busy (commandBoard s) j)" for j
    proof (cases e)
      case (Sched n)
      with assms(1) goroutine_tokens [where i = j] show ?thesis by (fastforce simp: sched_step)
    qed (use assms(1) False in \<open>auto simp: node_step_def listenRaftState_def readCommits_frames
        split: option.splits if_splits\<close>)
    with False exec_frame [OF assms(1)] worker_frame [OF assms(1)] worker_smooth_mono [of s t] assms(2)
    show ?thesis by (auto simp: smooth_def answered_ids_def)
  qed
  with node_board [OF assms(1)] node_board_inv [OF assms(1)] path_caps_step [OF assms(1)] assms(2)
  show ?thesis by (simp add: smooth_def)
qed

lemma smooth_run:
  "run (node_step K tid) s es t \<Longrightarrow> smooth s \<Longrightarrow> budget es s \<Longrightarrow> smooth t \<and> budget [] t"
proof (induction rule: run.induct)
  case (run_cons s e t es u)
  then show ?case using smooth_step budget_step budget_drop by metis
qed simp

lemma smooth_new: "smooth (new_node n kv)"
  using board_inv_new
  by (simp add: smooth_def path_caps_def chan_simps parked_inv_def worker_smooth_def new_node_defs NewBoard_def er_ready_def
      asr_busy_def gomap_simps)

lemma budget_new:
  assumes "distinct (proposed es)" "distinct (map (map_option pid) (logged es))"
  shows "budget es (new_node n kv)"
proof -
  have "count_list (proposed es) i \<le> 1" for i
    using assms(1) by (rule count_list_distinct)
  moreover have "fast_load i (new_node n kv) = 0" for i
    by (simp add: fast_load_def answered_ids_def new_node_defs make_chan_def)
  ultimately show ?thesis using assms(2) by (simp add: budget_def new_node_invs(7))
qed


section \<open>The replica can always catch up\<close>

definition calm :: "'kv node \<Rightarrow> bool" where
  "calm s \<longleftrightarrow> smooth s \<and> budget [] s \<and> \<not> crashed s"

definition quiet :: "node_event \<Rightarrow> bool" where
  "quiet e \<longleftrightarrow> proposed [e] = [] \<and> commit_data [e] = []"

lemma budget_quiet: "quiet e \<Longrightarrow> budget [] s = budget [e] s"
  by (simp add: budget_def quiet_def logged_def)

lemma calm_step:
  "node_step K tid s e t \<Longrightarrow> quiet e \<Longrightarrow> calm s \<Longrightarrow> \<not> crashed t \<Longrightarrow> calm t"
  using smooth_step budget_step budget_quiet by (metis calm_def)

lemma worker_not_crashed:
  "worker_fast K s = Some t \<Longrightarrow> crashed t = crashed s"
  "worker_slow K s = Some t \<Longrightarrow> crashed t = crashed s"
  "worker_continue s = Some t \<Longrightarrow> crashed t = crashed s"
  by (auto simp: worker_continue_def removeRecord_def elim!: worker_fast_cases worker_slow_cases
      dest!: execute_frame [OF disjI1] execute_frame [OF disjI2]
      split: worker_pc.splits outcome.splits if_splits)

text \<open>One turn of the worker ends after at most two steps.\<close>

lemma turn_step:
  assumes "calm s" "worker s \<noteq> Selects"
  obtains t where "node_step K tid s WorkerContinue t" "calm t" "goroutines t = goroutines s"
    "fastPath t = fastPath s" "slowPath t = slowPath s" "reading t = reading s"
    "worker t = Selects \<or> (\<exists>c. worker t = RemovesRecord c) \<and> (\<forall>c. worker s \<noteq> RemovesRecord c)"
proof -
  from assms have "smooth s" by (simp add: calm_def)
  then obtain t where t: "worker_continue s = Some t"
      "worker t = Selects \<or> (\<exists>c. worker t = RemovesRecord c) \<and> (\<forall>c. worker s \<noteq> RemovesRecord c)"
    using assms(2) by (cases rule: smooth_continue_cases) (auto simp: removeRecord_def)
  then have "node_step K tid s WorkerContinue t" using assms by (simp add: node_step_def calm_def)
  with t calm_step [OF this _ assms(1)] assms worker_not_crashed(3) [OF t(1)] worker_continue_frame [OF t(1)] that
  show ?thesis by (auto simp: quiet_def calm_def)
qed

definition turn :: "'kv KVStore \<Rightarrow> int \<Rightarrow> 'kv node \<Rightarrow> node_event list \<Rightarrow> 'kv node \<Rightarrow> bool" where
  "turn K tid s es t \<longleftrightarrow>
     run (node_step K tid) s es t \<and> calm t \<and> goroutines t = goroutines s \<and>
     set es \<subseteq> {WorkerFast, WorkerSlow, WorkerContinue}"

lemma turn_trans: "turn K tid s es t \<Longrightarrow> turn K tid t fs u \<Longrightarrow> turn K tid s (es @ fs) u"
  by (auto simp: turn_def intro: run_append)

lemma turn_one:
  "node_step K tid s e t \<Longrightarrow> calm t \<Longrightarrow> goroutines t = goroutines s \<Longrightarrow>
   e \<in> {WorkerFast, WorkerSlow, WorkerContinue} \<Longrightarrow> turn K tid s [e] t"
  by (auto simp: turn_def intro: run.intros)

lemma finish_turn:
  assumes "calm s"
  obtains es t where "turn K tid s es t" "worker t = Selects" "fastPath t = fastPath s"
    "slowPath t = slowPath s" "reading t = reading s"
proof (cases "worker s = Selects")
  case True
  with assms that [of "[]" s] show ?thesis by (simp add: turn_def run_nil)
next
  case False
  from turn_step [OF assms False, of K tid]
  obtain t where t: "node_step K tid s WorkerContinue t" "calm t" "goroutines t = goroutines s"
      "fastPath t = fastPath s" "slowPath t = slowPath s" "reading t = reading s"
      "worker t = Selects \<or> (\<exists>c. worker t = RemovesRecord c)" by metis
  then have one: "turn K tid s [WorkerContinue] t" by (auto intro: turn_one)
  show ?thesis
  proof (cases "worker t = Selects")
    case True
    with t one that show ?thesis by blast
  next
    case False
    from turn_step [OF t(2) False, of K tid] t(7) False
    obtain u where u: "node_step K tid t WorkerContinue u" "calm u" "goroutines u = goroutines t"
      "fastPath u = fastPath t" "slowPath u = slowPath t" "reading u = reading t" "worker u = Selects"
      by metis
    then have "turn K tid t [WorkerContinue] u" by (auto intro: turn_one)
    from turn_trans [OF one this] u t that show ?thesis by simp
  qed
qed

text \<open>An idle worker takes the next command of a path and finishes its turn.\<close>

lemma take_fast:
  assumes "calm s" "worker s = Selects" "chan_recv (fastPath s) = Some (cmd, ch)"
  obtains es t where "turn K tid s es t" "worker t = Selects" "fastPath t = ch" "slowPath t = slowPath s"
    "reading t = reading s"
proof -
  from assms(2,3) have "worker_fast K s \<noteq> None"
    by (auto simp: worker_fast_def Let_def split: prod.splits if_splits)
  then obtain u where u: "worker_fast K s = Some u" by blast
  then have f: "fastPath u = ch" "slowPath u = slowPath s" "reading u = reading s" "goroutines u = goroutines s"
    using assms(3) by (auto elim!: worker_fast_cases dest!: execute_frame [OF disjI1])
  have "node_step K tid s WorkerFast u" using u assms(1) by (simp add: node_step_def calm_def)
  with calm_step [OF this _ assms(1)] worker_not_crashed(1) [OF u] assms(1) f(4)
  have one: "turn K tid s [WorkerFast] u" by (auto simp: quiet_def calm_def intro: turn_one)
  then have "calm u" by (simp add: turn_def)
  from finish_turn [OF this, of K tid] obtain es t where "turn K tid u es t" "worker t = Selects"
      "fastPath t = fastPath u" "slowPath t = slowPath u" "reading t = reading u" by metis
  with turn_trans [OF one] f that show ?thesis by metis
qed

lemma take_slow:
  assumes "calm s" "worker s = Selects" "chan_recv (slowPath s) = Some (cmd, ch)"
  obtains es t where "turn K tid s es t" "worker t = Selects" "slowPath t = ch" "fastPath t = fastPath s"
    "reading t = reading s"
proof -
  from assms(2,3) have "worker_slow K s \<noteq> None"
    by (auto simp: worker_slow_def Let_def split: prod.splits if_splits)
  then obtain u where u: "worker_slow K s = Some u" by blast
  then have f: "slowPath u = ch" "fastPath u = fastPath s" "reading u = reading s" "goroutines u = goroutines s"
    using assms(3) by (auto elim!: worker_slow_cases dest!: execute_frame [OF disjI2])
  have "node_step K tid s WorkerSlow u" using u assms(1) by (simp add: node_step_def calm_def)
  with calm_step [OF this _ assms(1)] worker_not_crashed(2) [OF u] assms(1) f(4)
  have one: "turn K tid s [WorkerSlow] u" by (auto simp: quiet_def calm_def intro: turn_one)
  then have "calm u" by (simp add: turn_def)
  from finish_turn [OF this, of K tid] obtain es t where "turn K tid u es t" "worker t = Selects"
      "fastPath t = fastPath u" "slowPath t = slowPath u" "reading t = reading u" by metis
  with turn_trans [OF one] f that show ?thesis by metis
qed


lemma drain_fast:
  assumes "calm s"
  obtains es t where "turn K tid s es t" "worker t = Selects" "cbuf (fastPath t) = []"
proof -
  have "\<exists>es t. turn K tid s es t \<and> worker t = Selects \<and> cbuf (fastPath t) = []"
    if "calm s" "worker s = Selects" "length (cbuf (fastPath s)) = n" for n and s :: "'a node"
    using that
  proof (induction n arbitrary: s)
    case 0
    then show ?case by (auto simp: turn_def intro!: exI [of _ "[]"] run_nil)
  next
    case (Suc n)
    then obtain cmd ch where r: "chan_recv (fastPath s) = Some (cmd, ch)" "length (cbuf ch) = n"
      by (auto simp: chan_recv_def length_Suc_conv)
    from take_fast [OF Suc.prems(1,2) r(1), of K tid] obtain es t where
      t: "turn K tid s es t" "worker t = Selects" "fastPath t = ch" by metis
    then have "calm t" by (simp add: turn_def)
    from Suc.IH [OF this t(2)] t(3) r(2) turn_trans [OF t(1)] show ?case by metis
  qed
  moreover from finish_turn [OF assms, of K tid] obtain es t where t: "turn K tid s es t" "worker t = Selects"
    by metis
  moreover have "calm t" using t by (simp add: turn_def)
  ultimately show ?thesis using that turn_trans by metis
qed

lemma drain_slow:
  assumes "calm s"
  obtains es t where "turn K tid s es t" "worker t = Selects" "cbuf (slowPath t) = []" "reading t = reading s"
proof -
  have "\<exists>es t. turn K tid s es t \<and> worker t = Selects \<and> cbuf (slowPath t) = [] \<and> reading t = reading s"
    if "calm s" "worker s = Selects" "length (cbuf (slowPath s)) = n" for n and s :: "'a node"
    using that
  proof (induction n arbitrary: s)
    case 0
    then show ?case by (auto simp: turn_def intro!: exI [of _ "[]"] run_nil)
  next
    case (Suc n)
    then obtain cmd ch where r: "chan_recv (slowPath s) = Some (cmd, ch)" "length (cbuf ch) = n"
      by (auto simp: chan_recv_def length_Suc_conv)
    from take_slow [OF Suc.prems(1,2) r(1), of K tid] obtain es t where
      t: "turn K tid s es t" "worker t = Selects" "slowPath t = ch" "reading t = reading s" by metis
    then have "calm t" by (simp add: turn_def)
    from Suc.IH [OF this t(2)] t(3,4) r(2) turn_trans [OF t(1)] show ?case by metis
  qed
  moreover from finish_turn [OF assms, of K tid] obtain es t where t: "turn K tid s es t" "worker t = Selects"
      "reading t = reading s"
    by metis
  moreover have "calm t" using t by (simp add: turn_def)
  ultimately show ?thesis using that turn_trans by metis
qed

text \<open>What the commit reader still holds can be pushed, one entry at a time.\<close>

abbreviation own_step :: "node_event \<Rightarrow> bool" where
  "own_step e \<equiv> e \<in> {WorkerFast, WorkerSlow, WorkerContinue, PushCommit}"

lemma push_all:
  assumes "calm s" "None \<notin> set (map DecodeClientCommand (case reading s of None \<Rightarrow> [] | Some ds \<Rightarrow> ds))"
  shows "\<exists>es t. run (node_step K tid) s es t \<and> (\<forall>e\<in>set es. own_step e) \<and> calm t \<and>
           worker t = Selects \<and> cbuf (slowPath t) = [] \<and> reading t = None"
  using assms
proof (induction "case reading s of None \<Rightarrow> [] | Some ds \<Rightarrow> ds" arbitrary: s)
  case Nil
  from drain_slow [OF Nil.prems(1), of K tid] obtain es t where
    t: "turn K tid s es t" "worker t = Selects" "cbuf (slowPath t) = []" "reading t = reading s" by metis
  show ?case
  proof (cases "reading s")
    case None
    with t show ?thesis by (intro exI [of _ es] exI [of _ t]) (auto simp: turn_def)
  next
    case (Some ds)
    with Nil have "reading t = Some []" using t(4) by simp
    with t(1) have p: "node_step K tid t PushCommit (t\<lparr>reading := None\<rparr>)"
      by (simp add: node_step_def readCommits_push_def turn_def calm_def)
    moreover have "calm (t\<lparr>reading := None\<rparr>)"
      using calm_step [OF p] t(1) by (simp add: quiet_def turn_def calm_def)
    ultimately show ?thesis using t run_snoc [of "node_step K tid" s es t PushCommit]
      by (intro exI [of _ "es @ [PushCommit]"] exI [of _ "t\<lparr>reading := None\<rparr>"]) (auto simp: turn_def)
  qed
next
  case (Cons d ds)
  then have rs: "reading s = Some (d # ds)" by (simp split: option.splits)
  from drain_slow [OF Cons.prems(1), of K tid] obtain es t where
    t: "turn K tid s es t" "worker t = Selects" "cbuf (slowPath t) = []" "reading t = reading s" by metis
  from Cons.prems(2) rs obtain cmd where cmd: "DecodeClientCommand d = Some cmd" by fastforce
  from t(1) have "calm t" by (simp add: turn_def)
  then have "ccap (slowPath t) = 1000" by (simp add: calm_def smooth_def path_caps_def)
  with t(3) obtain ch where ch: "chan_send (slowPath t) cmd = Some ch" by (simp add: chan_send_def)
  define u where "u = t\<lparr>slowPath := ch, reading := Some ds\<rparr>"
  have p: "node_step K tid t PushCommit u"
    using \<open>calm t\<close> t(4) rs cmd ch by (simp add: node_step_def readCommits_push_def calm_def u_def)
  then have "calm u" using calm_step [OF p _ \<open>calm t\<close>] \<open>calm t\<close> by (simp add: quiet_def u_def calm_def)
  moreover have "ds = (case reading u of None \<Rightarrow> [] | Some ds \<Rightarrow> ds)" by (simp add: u_def)
  moreover from Cons.prems(2) rs have "None \<notin> set (map DecodeClientCommand (case reading u of None \<Rightarrow> [] | Some ds \<Rightarrow> ds))"
    by (simp add: u_def)
  ultimately obtain fs v where v: "run (node_step K tid) u fs v" "\<forall>e\<in>set fs. own_step e" "calm v"
      "worker v = Selects" "cbuf (slowPath v) = []" "reading v = None"
    using Cons.hyps(1) by blast
  have "run (node_step K tid) s (es @ [PushCommit]) u"
    using t(1) p by (auto simp: turn_def intro: run_snoc)
  from run_append [OF this v(1)] have "run (node_step K tid) s ((es @ [PushCommit]) @ fs) v" .
  with v t(1) show ?case by (intro exI [of _ "(es @ [PushCommit]) @ fs"] exI [of _ v]) (auto simp: turn_def)
qed


lemma fresh_run_calm:
  assumes "run (node_step K tid) (new_node n kv) es s" "\<not> crashed s"
    and "distinct (proposed es)" "distinct (map (map_option pid) (logged es))"
  shows "calm s"
  using smooth_run [OF assms(1) smooth_new budget_new [OF assms(3,4)]] assms(2) by (simp add: calm_def)

lemma own_steps_deliver:
  "\<forall>e\<in>set es. own_step e \<Longrightarrow> commit_data es = []"
  by (induction es) auto

lemma caught_up:
  assumes "run (node_step K tid) (new_node n kv) es s" "\<not> crashed s"
    and "distinct (proposed es)" "distinct (map (map_option pid) (logged es))" "None \<notin> set (logged es)"
  obtains fs t where "run (node_step K tid) s fs t" "\<forall>e\<in>set fs. own_step e" "\<not> crashed t"
    "map Some (consumed t) = logged es"
proof -
  have ps: "pipeline s = logged es" using pipeline_run [OF assms(1)] by (simp add: new_node_invs(7) logged_def)
  then have "None \<notin> set (map DecodeClientCommand (case reading s of None \<Rightarrow> [] | Some ds \<Rightarrow> ds))"
    using assms(5) by (metis UnCI pipeline_def set_append)
  from push_all [OF fresh_run_calm [OF assms(1-4)] this, of K tid] obtain fs t where
    t: "run (node_step K tid) s fs t" "\<forall>e\<in>set fs. own_step e" "calm t" "cbuf (slowPath t) = []" "reading t = None"
    by blast
  have "pipeline t = logged es"
    using pipeline_run [OF t(1)] own_steps_deliver [OF t(2)] ps by simp
  with t(4,5) have "map Some (consumed t) = logged es" by (simp add: pipeline_def)
  with t that show ?thesis by (simp add: calm_def)
qed

section \<open>A replica that has been handed two commits\<close>

definition backlog_events :: "node_event list" where
  "backlog_events =
     [CallPropose demo_put, Sched 0, Commit [CurpClientCommand_Encode 64 demo_put, CurpClientCommand_Encode 64 demo_get],
      PushCommit, WorkerSlow]"

lemma backlog_run:
  "\<exists>s. run (mem_node_step 64) (new_node 2 (fst NewMemStore)) backlog_events s \<and> \<not> crashed s \<and>
     worker s = NotifiesAsr demo_put"
  unfolding node_performs_run [symmetric]
  by (simp add: node_eval backlog_events_def demo_fields demo_get_decode)

lemma backlog_log:
  "proposed backlog_events = [pid demo_put]"
  "map DecodeClientCommand (commit_data backlog_events) = map Some [demo_put, demo_get]"
  "distinct (map pid [demo_put, demo_get])" "StateChange StateLeader \<notin> set backlog_events"
  by (simp_all add: backlog_events_def demo_get_decode demo_fields)

section \<open>Properties\<close>

text \<open>
  C14: the worker of a replica never blocks, for every schedule in which clients propose and raft
  commits each identifier at most once: the board's lock is free between any two steps, and a
  worker in the middle of a turn can always go on.
\<close>

theorem worker_never_parks:
  assumes "run (node_step K tid) (new_node n kv) es s" "\<not> crashed s"
    and "distinct (proposed es)" "distinct (map (map_option pid) (logged es))"
  shows "mu (commandBoard s) = None \<and>
         (worker s \<noteq> Selects \<longrightarrow> (\<exists>t. node_step K tid s WorkerContinue t))"
  using fresh_run_calm [OF assms] smooth_lock_free turn_step [of s K tid]
  by (metis calm_def)

theorem worker_never_parks_witness:
  "\<exists>s. run (mem_node_step 64) (new_node 2 (fst NewMemStore)) backlog_events s \<and>
     worker s = NotifiesAsr demo_put \<and> (\<exists>t. mem_node_step 64 s WorkerContinue t)"
proof -
  obtain s where s: "run (mem_node_step 64) (new_node 2 (fst NewMemStore)) backlog_events s" "\<not> crashed s"
      "worker s = NotifiesAsr demo_put"
    using backlog_run by blast
  from worker_never_parks [OF s(1,2)] s backlog_log show ?thesis by (auto simp: logged_def)
qed

text \<open>
  C13: a replica can always catch up. From every state of such a schedule in which it has not
  crashed, and whose committed entries decode, the worker and the commit reader can by themselves
  reach a state in which everything raft has delivered has been taken, in log order, and executed;
  on a replica that has never led, exactly the log has been executed and the store is the one the
  log produces.
\<close>

theorem replica_can_catch_up:
  assumes "run (mem_node_step tid) (new_node n (fst NewMemStore)) es s" "\<not> crashed s"
    and "distinct (proposed es)" "map DecodeClientCommand (commit_data es) = map Some log" "distinct (map pid log)"
  shows "\<exists>fs t. run (mem_node_step tid) s fs t \<and>
           set fs \<subseteq> {WorkerFast, WorkerSlow, WorkerContinue, PushCommit} \<and> \<not> crashed t \<and> consumed t = log \<and>
           (\<forall>c\<in>set log. \<exists>d\<in>set (executed t). pid d = pid c) \<and>
           (StateChange StateLeader \<notin> set es \<longrightarrow>
              executed t = log \<and> mem_view (sm_KVStore t) = apply_all log Map.empty)"
proof -
  have l: "logged es = map Some log" using assms(4) by (simp add: logged_def)
  then have "distinct (map (map_option pid) (logged es))" "None \<notin> set (logged es)"
    using assms(5) by (auto simp: distinct_map comp_inj_on_iff inj_on_def)
  from caught_up [OF assms(1-3) this] l obtain fs t where
    t: "run (mem_node_step tid) s fs t" "\<forall>e\<in>set fs. own_step e" "\<not> crashed t" "map Some (consumed t) = map Some log"
    by metis
  note all = run_append [OF assms(1) t(1)]
  have c: "consumed t = log" using t(4) by (simp add: inj_map_eq_map)
  have "executed_inv t"
    by (rule node_executed.holds_along [OF all]) (simp add: new_node_invs)
  moreover have "executed t = log" if "StateChange StateLeader \<notin> set es"
    using follower_run_executed [OF all] that t(2) c by auto
  ultimately show ?thesis using t c mem_run_store [OF all]
    by (intro exI [of _ fs] exI [of _ t]) (force simp: executed_inv_def)
qed

theorem replica_can_catch_up_witness:
  "\<exists>s fs t. run (mem_node_step 64) (new_node 2 (fst NewMemStore)) backlog_events s \<and>
     run (mem_node_step 64) s fs t \<and> executed t = [demo_put, demo_get]"
proof -
  obtain s where s: "run (mem_node_step 64) (new_node 2 (fst NewMemStore)) backlog_events s" "\<not> crashed s"
    using backlog_run by blast
  from replica_can_catch_up [OF s _ backlog_log(2,3)] s backlog_log(1,4) show ?thesis by auto
qed

end
