(* ===== verification/Proposal_Progress.thy ===== *)
theory Proposal_Progress
  imports Progress
begin

text \<open>
  That every proposal can be answered. A goroutine of \<open>Propose\<close> that waits for its result is fed: its
  command is still on its way to the worker, or has been executed; and once the worker has put the
  result on the board, the goroutine can take it, because no synchronisation request for the same
  identifier has removed it.
\<close>

section \<open>A leader that has just forwarded a proposal\<close>

definition forwarded_events :: "node_event list" where
  "forwarded_events = [StateChange StateLeader, CallPropose demo_put, Sched 0, Sched 0, Sched 0]"

lemma forwarded_run:
  "\<exists>s. run (mem_node_step 64) (new_node 1 (fst NewMemStore)) forwarded_events s \<and> \<not> crashed s"
  unfolding node_performs_run [symmetric]
  by (simp add: node_eval forwarded_events_def demo_fields)

section \<open>Where a proposal stands\<close>

definition handles :: "ProposeId \<Rightarrow> goroutine \<Rightarrow> bool" where
  "handles i g =
     (case g of ProposeCalled c \<Rightarrow> pid c = i | ProposeChecked c _ \<Rightarrow> pid c = i
      | ProposeWaits c _ \<Rightarrow> pid c = i | ProposeReceives c _ \<Rightarrow> pid c = i | _ \<Rightarrow> False)"

definition awaits :: "ProposeId \<Rightarrow> goroutine \<Rightarrow> bool" where
  "awaits i g = (case g of ProposeWaits c _ \<Rightarrow> pid c = i | ProposeReceives c _ \<Rightarrow> pid c = i | _ \<Rightarrow> False)"

definition parked_for :: "ProposeId \<Rightarrow> goroutine \<Rightarrow> bool" where
  "parked_for i g = (case g of ProposeReceives c _ \<Rightarrow> pid c = i | _ \<Rightarrow> False)"

definition feeds :: "ProposeId \<Rightarrow> goroutine \<Rightarrow> bool" where
  "feeds i g = (case g of SendsFast c \<Rightarrow> pid c = i | _ \<Rightarrow> False)"

definition syncs :: "ProposeId \<Rightarrow> goroutine \<Rightarrow> bool" where
  "syncs i g = (case g of SyncCalled j \<Rightarrow> j = i | SyncReceives j \<Rightarrow> j = i | SyncFinishes j \<Rightarrow> j = i | _ \<Rightarrow> False)"

lemma feeds_iff: "feeds i g \<longleftrightarrow> (\<exists>c. g = SendsFast c \<and> pid c = i)"
  by (cases g) (simp_all add: feeds_def)

lemmas goroutine_kinds = handles_def awaits_def parked_for_def feeds_def syncs_def

definition fed :: "ProposeId \<Rightarrow> 'kv node \<Rightarrow> bool" where
  "fed i s \<longleftrightarrow> (\<exists>g\<in>set (goroutines s). feeds i g) \<or> i \<in> pid ` set (cbuf (fastPath s)) \<or> i \<in> set (answered_ids s)"

definition settled :: "ProposeId \<Rightarrow> 'kv node \<Rightarrow> bool" where
  "settled i s \<longleftrightarrow> i \<in> set (answered_ids s) \<and> (case worker s of InsertsEr c r \<Rightarrow> pid c \<noteq> i | _ \<Rightarrow> True)"

definition slow_turn :: "ProposeId \<Rightarrow> 'kv node \<Rightarrow> bool" where
  "slow_turn i s = (case worker s of NotifiesAsr c \<Rightarrow> pid c = i | RemovesRecord c \<Rightarrow> pid c = i | _ \<Rightarrow> False)"

definition serve :: "ProposeId \<Rightarrow> 'kv node \<Rightarrow> bool" where
  "serve i s \<longleftrightarrow>
     (\<forall>g\<in>set (goroutines s). \<not> syncs i g \<and> (awaits i g \<longrightarrow> fed i s) \<and>
        (parked_for i g \<longrightarrow> mhas (erNotifiers (commandBoard s)) i \<and>
                            (settled i s \<longrightarrow> er_ready (commandBoard s) i))) \<and>
     (mhas (commandSet s) i \<longrightarrow> i \<in> set (answered_ids s) \<or> slow_turn i s) \<and>
     (settled i s \<longrightarrow> mhas (erBuffer (commandBoard s)) i)"

definition callers :: "ProposeId \<Rightarrow> 'kv node \<Rightarrow> nat" where
  "callers i s = length (filter (handles i) (goroutines s))"

lemma goroutine_callers:
  assumes "goroutine_step tid s g = Some (u, gs)"
  shows "length (filter (handles i) gs) \<le> (if handles i g then 1 else 0)"
  using assms
  by (cases g)
    (auto simp: handles_def Propose_witness_def Propose_locked_def
      split: prod.splits option.splits dispatch.splits outcome.splits if_splits)

lemma other_frame:
  assumes "node_step K tid s e t" "\<And>n. e \<noteq> Sched n"
  shows "goroutines t = goroutines s @ (case e of CallPropose c \<Rightarrow> [ProposeCalled c] | CallSync i \<Rightarrow> [SyncCalled i] | _ \<Rightarrow> [])"
  using assms
  by (cases e)
    (auto simp: node_step_def listenRaftState_def readCommits_frames worker_continue_frame
      elim!: worker_fast_cases worker_slow_cases dest!: execute_frame [OF disjI1] execute_frame [OF disjI2]
      split: option.splits if_splits)

lemma callers_step:
  assumes "node_step K tid s e t"
  shows "callers i t \<le> callers i s + count_list (proposed [e]) i"
proof (cases "\<exists>n. e = Sched n")
  case True
  then obtain n where e: "e = Sched n" by blast
  with assms obtain u gs where n: "n < length (goroutines s)"
      and u: "goroutine_step tid s (goroutines s ! n) = Some (u, gs)"
      "t = u\<lparr>goroutines := replace_at n gs (goroutines s)\<rparr>"
    by (auto simp: sched_step)
  with goroutine_callers [OF u(1), of i] filter_replace_at [OF n, of "handles i" gs] show ?thesis
    by (simp add: callers_def e split: if_splits)
next
  case False
  with other_frame [OF assms] show ?thesis
    by (cases e) (auto simp: callers_def handles_def)
qed

text \<open>What a turn of a goroutine does to the entries of an identifier on the board.\<close>

lemma goroutine_er:
  assumes "goroutine_step tid s g = Some (u, gs)" "\<not> syncs i g"
  shows "mget (erBuffer (commandBoard u)) i = mget (erBuffer (commandBoard s)) i"
    and "mhas (erNotifiers (commandBoard s)) i \<Longrightarrow> mhas (erNotifiers (commandBoard u)) i"
    and "\<not> parked_for i g \<Longrightarrow> er_ready (commandBoard u) i = er_ready (commandBoard s) i"
  using assms
  by (cases g; auto simp: goroutine_kinds board_defs Propose_witness_def er_ready_def mhas_def gomap_simps chan_simps
      split: prod.splits option.splits dispatch.splits outcome.splits if_splits)+

lemma goroutine_kinds_step:
  assumes "goroutine_step tid s g = Some (u, gs)" "h \<in> set gs"
  shows "syncs i h \<Longrightarrow> syncs i g"
    and "awaits i h \<Longrightarrow> awaits i g \<or> (\<exists>k\<in>set gs. feeds i k)"
    and "parked_for i h \<Longrightarrow> mget (erBuffer (commandBoard s)) i = None \<and> mhas (erNotifiers (commandBoard u)) i"
  using assms
  by (cases g; auto simp: goroutine_kinds board_defs Propose_witness_def Propose_locked_def mhas_def gomap_simps
      split: prod.splits option.splits dispatch.splits outcome.splits if_splits)+

lemma feeds_moves:
  assumes "goroutine_step tid s g = Some (u, gs)" "feeds i g"
  shows "i \<in> pid ` set (cbuf (fastPath u))"
  using assms by (cases g) (auto simp: feeds_def split: option.splits dest!: chan_send_queue)

lemma goroutine_fastPath:
  assumes "goroutine_step tid s g = Some (u, gs)"
  shows "set (cbuf (fastPath s)) \<subseteq> set (cbuf (fastPath u))"
  using assms
  by (cases g)
    (auto simp: Propose_witness_def split: prod.splits option.splits dispatch.splits outcome.splits if_splits
      dest!: chan_send_queue)


lemma goroutine_parked:
  "goroutine_step tid s g = Some (u, gs) \<Longrightarrow> parked_for i g \<Longrightarrow> filter (handles i) gs = []"
  by (cases g) (auto simp: goroutine_kinds split: outcome.splits)

lemma fed_sched:
  assumes "n < length (goroutines s)" "goroutine_step tid s (goroutines s ! n) = Some (u, gs)"
    and "t = u\<lparr>goroutines := replace_at n gs (goroutines s)\<rparr>" "fed i s"
  shows "fed i t"
proof -
  have a: "answered_ids t = answered_ids s" using goroutine_step_frame(3) [OF assms(2)] assms(3) by (simp add: answered_ids_def)
  from assms(4) consider g where "g \<in> set (goroutines s)" "feeds i g"
    | "i \<in> pid ` set (cbuf (fastPath s))" | "i \<in> set (answered_ids s)"
    by (auto simp: fed_def)
  then show ?thesis
  proof cases
    case 1
    with feeds_moves [OF assms(2), of i] in_replace_at [OF assms(1), of g gs] assms(3) show ?thesis
      by (cases "g = goroutines s ! n") (auto simp: fed_def)
  next
    case 2
    with goroutine_fastPath [OF assms(2)] assms(3) show ?thesis by (auto simp: fed_def)
  qed (simp add: fed_def a)
qed

lemma serve_sched:
  assumes "node_step K tid s (Sched n) t" "serve i s" "callers i s \<le> 1" shows "serve i t"
proof -
  from assms(1) obtain u gs where n: "n < length (goroutines s)"
      and u: "goroutine_step tid s (goroutines s ! n) = Some (u, gs)"
      and t: "t = u\<lparr>goroutines := replace_at n gs (goroutines s)\<rparr>"
    by (auto simp: sched_step)
  let ?g = "goroutines s ! n"
  note fr = goroutine_step_frame [OF u]
  have same: "answered_ids t = answered_ids s" "settled i t = settled i s" "slow_turn i t = slow_turn i s"
      "commandSet t = commandSet s"
    using fr t by (simp_all add: answered_ids_def settled_def slow_turn_def)
  from n assms(2) have ns: "\<not> syncs i ?g" by (simp add: serve_def)
  note er = goroutine_er [OF u ns]
  have gone: "\<not> parked_for i h" if "parked_for i ?g" "h \<in> set (goroutines t)" for h
  proof
    assume "parked_for i h"
    with that have "handles i ?g" "handles i h" by (auto simp: goroutine_kinds split: goroutine.splits)
    with filter_replace_at [OF n, of "handles i" gs] goroutine_parked [OF u that(1)] assms(3) t
    have "length (filter (handles i) (goroutines t)) = 0" by (simp add: callers_def del: length_0_conv)
    with that(2) \<open>handles i h\<close> show False by (auto simp: filter_empty_conv)
  qed
  have "\<not> syncs i h \<and> (awaits i h \<longrightarrow> fed i t) \<and>
        (parked_for i h \<longrightarrow> mhas (erNotifiers (commandBoard t)) i \<and> (settled i t \<longrightarrow> er_ready (commandBoard t) i))"
    if h: "h \<in> set (goroutines t)" for h
  proof (cases "h \<in> set (goroutines s)")
    case True
    with assms(2) fed_sched [OF n u t, of i] gone [OF _ h] er t same show ?thesis by (auto simp: serve_def)
  next
    case False
    then have hg: "h \<in> set gs" using h t set_replace_at [of n gs "goroutines s"] by auto
    note k = goroutine_kinds_step [OF u hg, of i]
    have "fed i t" if "\<exists>k\<in>set gs. feeds i k" using that t by (auto simp: fed_def replace_at_def)
    moreover have "awaits i ?g \<longrightarrow> fed i s" using nth_mem [OF n] assms(2) by (auto simp: serve_def)
    moreover have "settled i s \<longrightarrow> mget (erBuffer (commandBoard s)) i \<noteq> None"
      using assms(2) by (simp add: serve_def mhas_def)
    ultimately show ?thesis using k ns fed_sched [OF n u t, of i] same t by auto
  qed
  then show ?thesis using assms(2) same er(1) t by (auto simp: serve_def mhas_def)
qed

lemma serve_continue:
  assumes "worker_continue s = Some t" "smooth s" "serve i s" shows "serve i t"
proof -
  have "worker s \<noteq> Selects" using assms(1) by (auto simp: worker_continue_def)
  with assms(2) show ?thesis
  proof (cases rule: smooth_continue_cases)
    case (insert c r b)
    with assms(1) have t: "t = s\<lparr>commandBoard := b, worker := Selects\<rparr>" by simp
    from insert(1) have s: "settled i s \<longleftrightarrow> i \<in> set (answered_ids s) \<and> pid c \<noteq> i" "\<not> slow_turn i s"
      by (simp_all add: settled_def slow_turn_def)
    have "settled i t \<longleftrightarrow> i \<in> set (answered_ids s)" "answered_ids t = answered_ids s" "fed i t = fed i s" "\<not> slow_turn i t"
      by (simp_all add: t settled_def answered_ids_def fed_def slow_turn_def)
    with assms(3) s t InsertEr_er [OF insert(2), of i] InsertEr_tokens(1) [OF insert(2), of i] show ?thesis
      by (auto simp: serve_def)
  next
    case (notify c b)
    with assms(1) have t: "t = s\<lparr>commandBoard := b, worker := RemovesRecord c\<rparr>" by simp
    have "settled i t = settled i s" "answered_ids t = answered_ids s" "fed i t = fed i s" "slow_turn i t = slow_turn i s"
      using notify(1) by (simp_all add: t settled_def answered_ids_def fed_def slow_turn_def)
    with assms(3) t NotifyAsr_er [OF notify(2)] NotifyAsr_tokens(2) [OF notify(2), of i] show ?thesis
      by (auto simp: serve_def)
  next
    case (remove c)
    with assms(1) have t: "t = removeRecord (s\<lparr>worker := Selects\<rparr>) c" by simp
    have "settled i t = settled i s" "answered_ids t = answered_ids s" "fed i t = fed i s" "slow_turn i s \<longleftrightarrow> pid c = i"
      using remove(1) by (simp_all add: t settled_def answered_ids_def fed_def slow_turn_def removeRecord_def)
    with assms(3) show ?thesis by (auto simp: serve_def t removeRecord_def gomap_simps)
  qed
qed

lemma serve_fast:
  assumes "worker_fast K s = Some t" "serve i s" shows "serve i t"
  using assms(1)
proof (cases rule: worker_fast_cases)
  case (skipped cmd ch)
  have "settled i t = settled i s" "answered_ids t = answered_ids s" "slow_turn i t = slow_turn i s" "\<not> slow_turn i s"
    using skipped by (simp_all add: settled_def answered_ids_def slow_turn_def)
  moreover have "fed i t" if "fed i s"
    using that skipped assms(2) chan_recv_queue [OF skipped(2)] \<open>\<not> slow_turn i s\<close>
    by (auto simp: fed_def serve_def answered_ids_def)
  ultimately show ?thesis using assms(2) skipped by (auto simp: serve_def)
next
  case (run cmd ch s2 s3 r)
  then obtain kv where t: "t = s\<lparr>fastPath := ch, commandSet := mset_to (pid cmd) () (commandSet s), sm_KVStore := kv,
      worker := InsertsEr cmd r, executed := executed s @ [cmd], answers := answers s @ [(cmd, length (executed s), r)]\<rparr>"
    using execute_frame [OF disjI1 [OF run(5)]] by auto
  have "\<not> slow_turn i s" "settled i s \<longleftrightarrow> i \<in> set (answered_ids s)" using run(1) by (simp_all add: slow_turn_def settled_def)
  moreover have a: "answered_ids t = answered_ids s @ [pid cmd]" by (simp add: t answered_ids_def)
  moreover have "settled i t \<longleftrightarrow> i \<in> set (answered_ids s) \<and> pid cmd \<noteq> i"
    unfolding settled_def a by (auto simp: t)
  moreover have "fed i t" if "fed i s"
    using that chan_recv_queue [OF run(2)] by (auto simp: fed_def t answered_ids_def)
  ultimately show ?thesis using assms(2) by (auto simp: serve_def t gomap_simps)
qed

lemma serve_slow:
  assumes "worker_slow K s = Some t" "serve i s" shows "serve i t"
  using assms(1)
proof (cases rule: worker_slow_cases)
  case (skipped cmd ch)
  have "settled i t = settled i s" "answered_ids t = answered_ids s" "fed i t = fed i s" "\<not> slow_turn i s"
    using skipped by (simp_all add: settled_def answered_ids_def slow_turn_def fed_def)
  then show ?thesis using assms(2) skipped by (auto simp: serve_def)
next
  case (run cmd ch s2 s3 r)
  then obtain kv where t: "t = s\<lparr>slowPath := ch, consumed := consumed s @ [cmd],
      commandSet := mset_to (pid cmd) () (commandSet s), sm_KVStore := kv,
      worker := NotifiesAsr cmd, executed := executed s @ [cmd]\<rparr>"
    using execute_frame [OF disjI2 [OF run(5)]] by auto
  have "settled i t = settled i s" "answered_ids t = answered_ids s" "fed i t = fed i s" "\<not> slow_turn i s"
      "slow_turn i t \<longleftrightarrow> pid cmd = i"
    using run(1) by (simp_all add: t settled_def answered_ids_def slow_turn_def fed_def)
  then show ?thesis using assms(2) by (auto simp: serve_def t gomap_simps)
qed


lemma env_frame:
  assumes "node_step K tid s e t" "e \<notin> {WorkerFast, WorkerSlow, WorkerContinue}" "\<And>n. e \<noteq> Sched n"
  shows "commandBoard t = commandBoard s \<and> commandSet t = commandSet s \<and> worker t = worker s \<and>
         answers t = answers s \<and> fastPath t = fastPath s"
  using assms
  by (cases e)
    (auto simp: node_step_def listenRaftState_def readCommits_frames split: option.splits if_splits)

lemma serve_env:
  assumes "serve i s" "goroutines t = goroutines s @ gs" "\<forall>g\<in>set gs. \<not> syncs i g \<and> \<not> awaits i g"
    and "commandBoard t = commandBoard s \<and> commandSet t = commandSet s \<and> worker t = worker s \<and>
         answers t = answers s \<and> fastPath t = fastPath s"
  shows "serve i t"
proof -
  have "settled i t = settled i s" "slow_turn i t = slow_turn i s" "answered_ids t = answered_ids s" "fed i s \<longrightarrow> fed i t"
    using assms(2,4) by (auto simp: settled_def slow_turn_def answered_ids_def fed_def)
  moreover have "parked_for i g \<longrightarrow> awaits i g" for g by (simp add: goroutine_kinds split: goroutine.splits)
  ultimately show ?thesis using assms by (auto simp: serve_def)
qed

lemma serve_step:
  assumes "node_step K tid s e t" "smooth s" "serve i s" "callers i s \<le> 1" "e \<noteq> CallSync i"
  shows "serve i t"
proof (cases e)
  case (Sched n)
  with assms serve_sched show ?thesis by blast
next
  case WorkerFast
  with assms serve_fast [of K s t i] show ?thesis by (simp add: node_step_def)
next
  case WorkerSlow
  with assms serve_slow [of K s t i] show ?thesis by (simp add: node_step_def)
next
  case WorkerContinue
  with assms serve_continue [of s t i] show ?thesis by (simp add: node_step_def)
qed (use assms(3,5) env_frame [OF assms(1)] other_frame [OF assms(1)] in \<open>fastforce simp: goroutine_kinds
    intro: serve_env\<close>)+

definition served :: "ProposeId \<Rightarrow> node_event list \<Rightarrow> 'kv node \<Rightarrow> bool" where
  "served i es s \<longleftrightarrow>
     smooth s \<and> budget es s \<and> serve i s \<and> callers i s + count_list (proposed es) i \<le> 1 \<and> CallSync i \<notin> set es"

lemma served_step:
  assumes "node_step K tid s e t" "served i (e # es) s" shows "served i es t"
proof -
  from assms(2) have s: "smooth s" "budget (e # es) s" "serve i s" "CallSync i \<notin> set (e # es)"
      "callers i s + count_list (proposed [e] @ proposed es) i \<le> 1"
    using proposed_Cons [of e es] by (simp_all add: served_def)
  then have "callers i s \<le> 1" "e \<noteq> CallSync i" "budget [] s" by (auto dest: budget_drop)
  with s serve_step [OF assms(1)] smooth_step [OF assms(1)] budget_step [OF assms(1)] callers_step [OF assms(1), of i]
  show ?thesis by (auto simp: served_def)
qed

lemma served_run: "run (node_step K tid) s es t \<Longrightarrow> served i es s \<Longrightarrow> served i [] t"
  by (induction rule: run.induct) (auto dest: served_step)

lemma served_drop: "served i es s \<Longrightarrow> served i [] s"
  by (auto simp: served_def dest: budget_drop)

lemma served_quiet:
  assumes "served i [] s" "\<forall>e\<in>set es. quiet e" "CallSync i \<notin> set es" shows "served i es s"
proof -
  have "proposed es = [] \<and> logged es = []" using assms(2)
  proof (induction es)
    case (Cons e es)
    then show ?case using proposed_Cons [of e es] logged_Cons [of e es] by (simp add: quiet_def logged_def)
  qed (simp add: logged_def)
  with assms(1,3) show ?thesis by (simp add: served_def budget_def logged_def)
qed

lemma served_new:
  assumes "distinct (proposed es)" "distinct (map (map_option pid) (logged es))" "CallSync i \<notin> set es"
  shows "served i es (new_node n kv)"
proof -
  have "serve i (new_node n kv)" "callers i (new_node n kv) = 0"
    by (simp_all add: serve_def callers_def settled_def answered_ids_def new_node_defs gomap_simps)
  then show ?thesis
    using assms(3) smooth_new [of n kv] budget_new [OF assms(1,2), of n kv] count_list_distinct [OF assms(1), of i]
    by (simp add: served_def)
qed

text \<open>Where the goroutine of a proposal stands; it is never lost.\<close>

definition stage :: "CurpClientCommand \<Rightarrow> goroutine \<Rightarrow> bool" where
  "stage cmd g =
     (case g of ProposeCalled c \<Rightarrow> c = cmd | ProposeChecked c _ \<Rightarrow> c = cmd | ProposeWaits c _ \<Rightarrow> c = cmd
      | ProposeReceives c _ \<Rightarrow> c = cmd | FollowerReplied c _ \<Rightarrow> c = cmd | LeaderReplied c _ \<Rightarrow> c = cmd
      | _ \<Rightarrow> False)"

lemma goroutine_stage:
  assumes "goroutine_step tid s g = Some (u, gs)" "stage cmd g" "\<not> crashed u"
  shows "\<exists>h\<in>set gs. stage cmd h"
  using assms
  by (cases g)
    (auto simp: stage_def Propose_witness_def split: prod.splits option.splits dispatch.splits outcome.splits if_splits)

lemma stage_step:
  assumes "node_step K tid s e t" "\<not> crashed t" "(\<exists>g\<in>set (goroutines s). stage cmd g) \<or> e = CallPropose cmd"
  shows "\<exists>g\<in>set (goroutines t). stage cmd g"
proof (cases "\<exists>n. e = Sched n")
  case True
  then obtain n where e: "e = Sched n" by blast
  with assms(1) obtain u gs where n: "n < length (goroutines s)"
      and u: "goroutine_step tid s (goroutines s ! n) = Some (u, gs)"
      "t = u\<lparr>goroutines := replace_at n gs (goroutines s)\<rparr>"
    by (auto simp: sched_step)
  from assms(3) e obtain g where g: "g \<in> set (goroutines s)" "stage cmd g" by auto
  show ?thesis
  proof (cases "g = goroutines s ! n")
    case True
    with goroutine_stage [OF u(1)] g assms(2) u(2) show ?thesis by (auto simp: replace_at_def)
  next
    case False
    with in_replace_at [OF n g(1)] g u(2) show ?thesis by auto
  qed
next
  case False
  with other_frame [OF assms(1)] assms(3) show ?thesis by (auto simp: stage_def)
qed

lemma crashed_stays: "run (node_step K tid) s es t \<Longrightarrow> \<not> crashed t \<Longrightarrow> \<not> crashed s"
  by (induction rule: run.induct) (auto simp: node_step_def)

lemma stage_run:
  assumes "run (node_step K tid) s es t" "\<not> crashed t"
    and "(\<exists>g\<in>set (goroutines s). stage cmd g) \<or> CallPropose cmd \<in> set es"
  shows "\<exists>g\<in>set (goroutines t). stage cmd g"
  using assms
proof (induction rule: run.induct)
  case (run_cons s e t es u)
  then have "\<not> crashed t" using crashed_stays by blast
  with run_cons stage_step [OF run_cons.hyps(1)] show ?case by auto
qed simp


text \<open>The scheduler's own steps: nothing is called, committed or elected.\<close>

definition local_step :: "node_event \<Rightarrow> bool" where
  "local_step e \<longleftrightarrow> e \<in> {WorkerFast, WorkerSlow, WorkerContinue} \<or> (\<exists>n. e = Sched n)"

lemma local_quiet: "local_step e \<Longrightarrow> quiet e"
  by (auto simp: local_step_def quiet_def)

lemma served_local:
  assumes "run (node_step K tid) s es t" "served i [] s" "\<forall>e\<in>set es. local_step e"
  shows "served i [] t"
proof (rule served_run [OF assms(1)], rule served_quiet [OF assms(2)])
  show "\<forall>e\<in>set es. quiet e" using assms(3) local_quiet by blast
  show "CallSync i \<notin> set es" using assms(3) by (auto simp: local_step_def)
qed

lemma served_calm: "served i [] s \<Longrightarrow> \<not> crashed s \<Longrightarrow> calm s"
  by (simp add: served_def calm_def)

definition replied :: "CurpClientCommand \<Rightarrow> 'kv node \<Rightarrow> bool" where
  "replied cmd s \<longleftrightarrow> (\<exists>rep. FollowerReplied cmd rep \<in> set (goroutines s) \<or> LeaderReplied cmd rep \<in> set (goroutines s))"

definition can_reply :: "'kv KVStore \<Rightarrow> int \<Rightarrow> CurpClientCommand \<Rightarrow> 'kv node \<Rightarrow> bool" where
  "can_reply K tid cmd s \<longleftrightarrow>
     (\<exists>es t. run (node_step K tid) s es t \<and> (\<forall>e\<in>set es. local_step e) \<and> \<not> crashed t \<and> replied cmd t)"

lemma can_reply_now: "\<not> crashed s \<Longrightarrow> replied cmd s \<Longrightarrow> can_reply K tid cmd s"
  unfolding can_reply_def by (intro exI [of _ "[]"] exI [of _ s]) (auto intro: run_nil)

lemma can_reply_later:
  "run (node_step K tid) s es t \<Longrightarrow> \<forall>e\<in>set es. local_step e \<Longrightarrow> can_reply K tid cmd t \<Longrightarrow> can_reply K tid cmd s"
  unfolding can_reply_def by (metis UnE run_append set_append)

lemma sched_member:
  assumes "\<not> crashed s" "g \<in> set (goroutines s)" "goroutine_step tid s g = Some (u, gs)" "\<not> crashed u"
  obtains n t where "node_step K tid s (Sched n) t" "\<not> crashed t" "set gs \<subseteq> set (goroutines t)"
    "fastPath t = fastPath u" "\<forall>h\<in>set (goroutines s). h \<noteq> g \<longrightarrow> h \<in> set (goroutines t)"
proof -
  from assms(2) obtain n where n: "n < length (goroutines s)" "goroutines s ! n = g" by (auto simp: in_set_conv_nth)
  let ?t = "u\<lparr>goroutines := replace_at n gs (goroutines s)\<rparr>"
  show ?thesis
  proof (rule that [of n ?t])
    show "node_step K tid s (Sched n) ?t" using assms n by (auto simp: sched_step)
  qed (use assms n in_replace_at [OF n(1)] in \<open>auto simp: replace_at_def\<close>)
qed

lemma can_reply_sched:
  assumes "\<not> crashed s" "g \<in> set (goroutines s)" "goroutine_step tid s g = Some (u, gs)" "\<not> crashed u"
    and "\<And>t n. node_step K tid s (Sched n) t \<Longrightarrow> \<not> crashed t \<Longrightarrow> set gs \<subseteq> set (goroutines t) \<Longrightarrow>
           fastPath t = fastPath u \<Longrightarrow> can_reply K tid cmd t"
  shows "can_reply K tid cmd s"
proof -
  from sched_member [OF assms(1-4), of K] obtain n t where
    t: "node_step K tid s (Sched n) t" "\<not> crashed t" "set gs \<subseteq> set (goroutines t)" "fastPath t = fastPath u"
    by metis
  have "run (node_step K tid) s [Sched n] t" using t(1) by (rule run_one)
  from can_reply_later [OF this] assms(5) [OF t] show ?thesis by (simp add: local_step_def)
qed

text \<open>Once the command has been executed, its goroutine can leave.\<close>

lemma can_reply_settled:
  assumes "served (pid cmd) [] s" "\<not> crashed s" "settled (pid cmd) s"
    and "g \<in> set (goroutines s)" "g = ProposeWaits cmd cf \<or> g = ProposeReceives cmd cf"
  shows "can_reply K tid cmd s"
proof -
  from assms(1) have free: "mu (commandBoard s) = None" and s: "serve (pid cmd) s"
    by (simp_all add: served_def smooth_lock_free)
  have "\<exists>u r. goroutine_step tid s g = Some (u, [LeaderReplied cmd (Propose_reply r cf)]) \<and> \<not> crashed u"
    using assms(5)
  proof
    assume g: "g = ProposeWaits cmd cf"
    from s assms(3) obtain r where "mget (erBuffer (commandBoard s)) (pid cmd) = Some r"
      by (auto simp: serve_def mhas_def)
    with g free assms(2) show ?thesis by (auto simp: WaitForEr_enter_def)
  next
    assume g: "g = ProposeReceives cmd cf"
    with s assms(3,4) have "er_ready (commandBoard s) (pid cmd)" by (auto simp: serve_def parked_for_def)
    then obtain b r where "WaitForEr_recv (commandBoard s) (pid cmd) = Done b r" by (auto simp: er_ready_runs)
    with g assms(2) show ?thesis by auto
  qed
  then obtain u r where u: "goroutine_step tid s g = Some (u, [LeaderReplied cmd (Propose_reply r cf)])" "\<not> crashed u"
    by blast
  show ?thesis
  proof (rule can_reply_sched [OF assms(2,4) u])
    fix t :: "'a node" and n assume t: "\<not> crashed t" "set [LeaderReplied cmd (Propose_reply r cf)] \<subseteq> set (goroutines t)"
    then show "can_reply K tid cmd t" by (intro can_reply_now) (auto simp: replied_def)
  qed
qed

lemma turn_local: "turn K tid s es t \<Longrightarrow> \<forall>e\<in>set es. local_step e"
  by (auto simp: turn_def local_step_def)

lemma can_reply_drained:
  assumes "served (pid cmd) [] s" "\<not> crashed s" "\<forall>g\<in>set (goroutines s). \<not> feeds (pid cmd) g"
    and "g \<in> set (goroutines s)" "g = ProposeWaits cmd cf \<or> g = ProposeReceives cmd cf"
  shows "can_reply K tid cmd s"
proof -
  from drain_fast [OF served_calm [OF assms(1,2)], of K tid] obtain es t where
    t: "turn K tid s es t" "worker t = Selects" "cbuf (fastPath t) = []" by metis
  then have run: "run (node_step K tid) s es t" "\<not> crashed t" "goroutines t = goroutines s"
    by (simp_all add: turn_def calm_def)
  have st: "served (pid cmd) [] t" by (rule served_local [OF run(1) assms(1) turn_local [OF t(1)]])
  then have "fed (pid cmd) t" using assms(4,5) run(3) by (auto simp: served_def serve_def awaits_def)
  then have "settled (pid cmd) t" using assms(3) run(3) t(2,3) by (simp add: fed_def settled_def)
  with st run(2) have "can_reply K tid cmd t"
    using assms(4,5) run(3) can_reply_settled [of cmd t g cf] by simp
  with run(1) turn_local [OF t(1)] show ?thesis by (rule can_reply_later)
qed

lemma can_reply_waiting:
  assumes "served (pid cmd) [] s" "\<not> crashed s"
    and "g \<in> set (goroutines s)" "g = ProposeWaits cmd cf \<or> g = ProposeReceives cmd cf"
  shows "can_reply K tid cmd s"
proof (cases "\<exists>h\<in>set (goroutines s). feeds (pid cmd) h")
  case False
  with can_reply_drained [OF assms(1,2) _ assms(3,4)] show ?thesis by blast
next
  case True
  then obtain c where c: "SendsFast c \<in> set (goroutines s)" "pid c = pid cmd"
    by (auto simp: feeds_iff)
  from drain_fast [OF served_calm [OF assms(1,2)], of K tid] obtain es t where
    t: "turn K tid s es t" "worker t = Selects" "cbuf (fastPath t) = []" by metis
  then have run: "run (node_step K tid) s es t" "\<not> crashed t" "goroutines t = goroutines s" "calm t"
    by (simp_all add: turn_def calm_def)
  have st: "served (pid cmd) [] t" by (rule served_local [OF run(1) assms(1) turn_local [OF t(1)]])
  from run(4) t(3) obtain ch where ch: "chan_send (fastPath t) c = Some ch" "cbuf ch = [c]"
    by (auto simp: calm_def smooth_def path_caps_def chan_send_def)
  then have sf: "goroutine_step tid t (SendsFast c) = Some (t\<lparr>fastPath := ch\<rparr>, [])" by simp
  have m: "SendsFast c \<in> set (goroutines t)" "\<not> crashed (t\<lparr>fastPath := ch\<rparr>)" using c run by simp_all
  obtain n u where u: "node_step K tid t (Sched n) u" "\<not> crashed u" "set [] \<subseteq> set (goroutines u)"
      "fastPath u = fastPath (t\<lparr>fastPath := ch\<rparr>)"
      "\<forall>h\<in>set (goroutines t). h \<noteq> SendsFast c \<longrightarrow> h \<in> set (goroutines u)"
    by (rule sched_member [OF run(2) m(1) sf m(2), where K = K])
  have "run (node_step K tid) t [Sched n] u" using u(1) by (rule run_one)
  then have su: "served (pid cmd) [] u" using st by (rule served_local) (simp add: local_step_def)
  then have "fast_load (pid cmd) u \<le> 1" by (simp add: served_def budget_def)
  then have "filter (pre_fast (pid cmd)) (goroutines u) = []"
    using u(4) ch(2) c(2) by (simp add: fast_load_def)
  then have "\<forall>h\<in>set (goroutines u). \<not> feeds (pid cmd) h"
    by (auto simp: filter_empty_conv pre_fast_def feeds_iff)
  moreover have "g \<in> set (goroutines u)" using u(5) assms(3,4) run(3) by auto
  ultimately have "can_reply K tid cmd u" using can_reply_drained [OF su u(2) _ _ assms(4)] by blast
  moreover have "run (node_step K tid) s (es @ [Sched n]) u" using run(1) u(1) by (rule run_snoc)
  moreover have "\<forall>e\<in>set (es @ [Sched n]). local_step e" using turn_local [OF t(1)] by (auto simp: local_step_def)
  ultimately show ?thesis using can_reply_later by blast
qed


lemma sched_served: "node_step K tid s (Sched n) t \<Longrightarrow> served i [] s \<Longrightarrow> served i [] t"
  using served_local [OF run_one [where step = "node_step K tid"]] by (fastforce simp: local_step_def)

lemma checked_can_reply:
  assumes s: "served (pid cmd) [] s" "\<not> crashed s" and op: "unat (Op cmd) < 5"
    and g: "ProposeChecked cmd cf \<in> set (goroutines s)"
  shows "can_reply K tid cmd s"
proof -
  from op OpFmt_at_None [of "Op cmd"] obtain x where x: "OpFmt_at (Op cmd) = Some x"
    by (cases "OpFmt_at (Op cmd)") auto
  show ?thesis
  proof (cases "raftState s = StateLeader")
    case True
    let ?gs = "[ProposeWaits cmd cf, SendsFast cmd, SendsProposal (CurpClientCommand_Encode tid cmd)]"
    from True x have "goroutine_step tid s (ProposeChecked cmd cf) = Some (s, ?gs)"
      by (simp add: Propose_locked_def)
    then show ?thesis
    proof (rule can_reply_sched [OF s(2) g _ s(2)])
      fix u :: "'a node" and n
      assume u: "node_step K tid s (Sched n) u" "\<not> crashed u" "set ?gs \<subseteq> set (goroutines u)"
      then show "can_reply K tid cmd u"
        using can_reply_waiting [OF sched_served [OF u(1) s(1)] u(2), of "ProposeWaits cmd cf" cf] by simp
    qed
  next
    case False
    with x obtain rep where "goroutine_step tid s (ProposeChecked cmd cf) = Some (s, [FollowerReplied cmd rep])"
      by (cases cf) (auto simp: Propose_locked_def)
    then show ?thesis
    proof (rule can_reply_sched [OF s(2) g _ s(2)])
      fix u :: "'a node" assume "\<not> crashed u" "set [FollowerReplied cmd rep] \<subseteq> set (goroutines u)"
      then show "can_reply K tid cmd u" by (intro can_reply_now) (auto simp: replied_def)
    qed
  qed
qed

lemma called_can_reply:
  assumes s: "served (pid cmd) [] s" "\<not> crashed s" and op: "unat (Op cmd) < 5"
    and g: "ProposeCalled cmd \<in> set (goroutines s)"
  shows "can_reply K tid cmd s"
proof -
  obtain s' cf where w: "Propose_witness s cmd = (s', cf)" by force
  then have c: "\<not> crashed s'" using s(2) by (auto simp: Propose_witness_def split: prod.splits)
  from w have "goroutine_step tid s (ProposeCalled cmd) = Some (s', [ProposeChecked cmd cf])" by simp
  then show ?thesis
  proof (rule can_reply_sched [OF s(2) g _ c])
    fix u :: "'a node" and n
    assume u: "node_step K tid s (Sched n) u" "\<not> crashed u" "set [ProposeChecked cmd cf] \<subseteq> set (goroutines u)"
    then show "can_reply K tid cmd u" using checked_can_reply [OF sched_served [OF u(1) s(1)] u(2) op] by simp
  qed
qed

lemma stage_can_reply:
  assumes "served (pid cmd) [] s" "\<not> crashed s" "unat (Op cmd) < 5" "g \<in> set (goroutines s)" "stage cmd g"
  shows "can_reply K tid cmd s"
proof -
  from assms(5) consider "g = ProposeCalled cmd" | cf where "g = ProposeChecked cmd cf"
    | cf where "g = ProposeWaits cmd cf \<or> g = ProposeReceives cmd cf"
    | rep where "g = FollowerReplied cmd rep \<or> g = LeaderReplied cmd rep"
    by (cases g) (auto simp: stage_def)
  then show ?thesis
  proof cases
    case 1
    with called_can_reply [OF assms(1-3)] assms(4) show ?thesis by blast
  next
    case 2
    with checked_can_reply [OF assms(1-3)] assms(4) show ?thesis by blast
  next
    case 3
    with can_reply_waiting [OF assms(1,2,4)] show ?thesis by blast
  next
    case 4
    with assms show ?thesis by (intro can_reply_now) (auto simp: replied_def)
  qed
qed

section \<open>The property\<close>

text \<open>
  C12: every proposal can be answered. Take any schedule in which each identifier is proposed and
  committed at most once, a replica that has not crashed, and a proposal with a known operation
  code that has been called and for whose identifier no synchronisation has been requested: by
  running only its own goroutines and its worker, without another client, commit or election, the
  replica can reach a state in which that call has returned a reply.
\<close>

theorem proposal_can_complete:
  assumes "run (node_step K tid) (new_node n kv) es s" "\<not> crashed s"
    and "CallPropose cmd \<in> set es" "unat (Op cmd) < 5" "CallSync (pid cmd) \<notin> set es"
    and "distinct (proposed es)" "distinct (map (map_option pid) (logged es))"
  shows "\<exists>fs t rep. run (node_step K tid) s fs t \<and> (\<forall>e\<in>set fs. local_step e) \<and> \<not> crashed t \<and>
           (FollowerReplied cmd rep \<in> set (goroutines t) \<or> LeaderReplied cmd rep \<in> set (goroutines t))"
proof -
  from stage_run [OF assms(1,2)] assms(3) obtain g where "g \<in> set (goroutines s)" "stage cmd g" by blast
  with served_run [OF assms(1) served_new [OF assms(6,7,5)]] assms(2,4)
  have "can_reply K tid cmd s" by (intro stage_can_reply)
  then show ?thesis by (auto simp: can_reply_def replied_def)
qed

theorem proposal_can_complete_witness:
  "\<exists>s. run (mem_node_step 64) (new_node 1 (fst NewMemStore)) forwarded_events s \<and>
     (\<exists>fs t rep. run (mem_node_step 64) s fs t \<and> (\<forall>e\<in>set fs. local_step e) \<and> \<not> crashed t \<and>
        (FollowerReplied demo_put rep \<in> set (goroutines t) \<or> LeaderReplied demo_put rep \<in> set (goroutines t)))"
proof -
  obtain s where s: "run (mem_node_step 64) (new_node 1 (fst NewMemStore)) forwarded_events s" "\<not> crashed s"
    using forwarded_run by blast
  have "\<exists>fs t rep. run (mem_node_step 64) s fs t \<and> (\<forall>e\<in>set fs. local_step e) \<and> \<not> crashed t \<and>
        (FollowerReplied demo_put rep \<in> set (goroutines t) \<or> LeaderReplied demo_put rep \<in> set (goroutines t))"
    by (rule proposal_can_complete [OF s])
      (simp_all add: forwarded_events_def logged_def demo_fields)
  with s show ?thesis by blast
qed

end
