(* ===== verification/Sync_Progress.thy ===== *)
theory Sync_Progress
  imports Proposal_Progress
begin

text \<open>
  That the slow round ends. A client that has the leader's answer and asks for its command to be
  synchronised, as the slow round of both clients does, finds the result on the board; the
  announcement of the commit wakes it or has already been recorded; and the answer it gets is the
  result it was given before.
\<close>

section \<open>A leader that is asked to synchronise an answered command\<close>

definition fast_events :: "node_event list" where
  "fast_events =
     [StateChange StateLeader, CallPropose demo_put, Sched 0, Sched 0, Sched 1, WorkerFast, WorkerContinue, Sched 0]"

definition parked_events :: "node_event list" where
  "parked_events = [Sched 2, Commit [CurpClientCommand_Encode 64 demo_put]]"

lemma fast_run:
  "\<exists>s t. run (mem_node_step 64) (new_node 1 (fst NewMemStore)) fast_events s \<and>
     LeaderReplied demo_put \<lparr>Content = [], StatusCode = ACCEPTED, ReplySeqId = 0\<rparr> \<in> set (goroutines s) \<and>
     run (mem_node_step 64) s (CallSync (pid demo_put) # parked_events) t \<and> \<not> crashed t"
  unfolding node_performs_run [symmetric]
  by (simp add: node_eval fast_events_def parked_events_def demo_fields)

section \<open>Where a synchronisation request stands\<close>

fun sync_calls :: "node_event list \<Rightarrow> ProposeId list" where
  "sync_calls [] = []"
| "sync_calls (CallSync i # es) = i # sync_calls es"
| "sync_calls (_ # es) = sync_calls es"

lemma sync_calls_Cons: "sync_calls (e # es) = sync_calls [e] @ sync_calls es"
  by (cases e) simp_all

definition sync_stage :: "ProposeId \<Rightarrow> goroutine \<Rightarrow> bool" where
  "sync_stage i g \<longleftrightarrow> syncs i g \<or> (\<exists>rep. g = SyncReplied i rep)"

definition syncers :: "ProposeId \<Rightarrow> 'kv node \<Rightarrow> nat" where
  "syncers i s = length (filter (sync_stage i) (goroutines s))"

text \<open>The commit of the identifier has been announced on the board.\<close>

definition notified :: "ProposeId \<Rightarrow> 'kv node \<Rightarrow> bool" where
  "notified i s \<longleftrightarrow> i \<in> pid ` set (consumed s) \<and> (case worker s of NotifiesAsr c \<Rightarrow> pid c \<noteq> i | _ \<Rightarrow> True)"

text \<open>Some client has seen, or can see, the result of the identifier.\<close>

definition visible :: "ProposeId \<Rightarrow> 'kv node \<Rightarrow> bool" where
  "visible i s \<longleftrightarrow> mhas (erBuffer (commandBoard s)) i \<or> er_ready (commandBoard s) i \<or>
     (\<exists>c rep. LeaderReplied c rep \<in> set (goroutines s) \<and> pid c = i)"

definition sync_ok :: "ProposeId \<Rightarrow> 'kv node \<Rightarrow> goroutine \<Rightarrow> bool" where
  "sync_ok i s g \<longleftrightarrow>
     (syncs i g \<longrightarrow> settled i s \<and> mhas (erBuffer (commandBoard s)) i) \<and>
     (g = SyncReceives i \<longrightarrow> mhas (asrNotifiers (commandBoard s)) i \<and>
                            (notified i s \<longrightarrow> asr_busy (commandBoard s) i)) \<and>
     (\<forall>rep. g = SyncReplied i rep \<longrightarrow> (i, Content rep) \<in> node_results s)"

definition sync_inv :: "ProposeId \<Rightarrow> 'kv node \<Rightarrow> bool" where
  "sync_inv i s \<longleftrightarrow>
     (visible i s \<longrightarrow> settled i s) \<and> (\<forall>g\<in>set (goroutines s). sync_ok i s g) \<and>
     (notified i s \<longrightarrow> mhas (asrBuffer (commandBoard s)) i \<or> (\<exists>rep. SyncReplied i rep \<in> set (goroutines s)))"

lemma sync_ok_other: "\<not> sync_stage i g \<Longrightarrow> sync_ok i s g"
  by (auto simp: sync_ok_def sync_stage_def syncs_def)

lemma goroutine_syncers:
  assumes "goroutine_step tid s g = Some (u, gs)"
  shows "length (filter (sync_stage i) gs) = (if sync_stage i g then 1 else 0)"
  using assms
  by (cases g)
    (auto simp: sync_stage_def syncs_def Propose_witness_def Propose_locked_def
      split: prod.splits option.splits dispatch.splits outcome.splits if_splits)

lemma syncers_step:
  assumes "node_step K tid s e t"
  shows "syncers i t = syncers i s + count_list (sync_calls [e]) i"
proof (cases "\<exists>n. e = Sched n")
  case True
  then obtain n where e: "e = Sched n" by blast
  with assms obtain u gs where n: "n < length (goroutines s)"
      and u: "goroutine_step tid s (goroutines s ! n) = Some (u, gs)"
      "t = u\<lparr>goroutines := replace_at n gs (goroutines s)\<rparr>"
    by (auto simp: sched_step)
  with goroutine_syncers [OF u(1), of i] filter_replace_at [OF n, of "sync_stage i" gs] show ?thesis
    by (simp add: syncers_def e split: if_splits)
next
  case False
  with other_frame [OF assms] show ?thesis
    by (cases e) (auto simp: syncers_def sync_stage_def syncs_def)
qed

text \<open>A goroutine that is not a synchronisation of the identifier leaves its entries alone.\<close>

lemma goroutine_other:
  assumes "goroutine_step tid s g = Some (u, gs)" "\<not> sync_stage i g"
  shows "mget (erBuffer (commandBoard u)) i = mget (erBuffer (commandBoard s)) i"
    and "mget (asrBuffer (commandBoard u)) i = mget (asrBuffer (commandBoard s)) i"
    and "mget (asrNotifiers (commandBoard u)) i = mget (asrNotifiers (commandBoard s)) i"
    and "h \<in> set gs \<Longrightarrow> \<not> sync_stage i h"
    and "LeaderReplied c rep \<in> set gs \<Longrightarrow> pid c = i \<Longrightarrow>
         mhas (erBuffer (commandBoard s)) i \<or> er_ready (commandBoard s) i"
  using assms
  by (cases g; auto simp: sync_stage_def syncs_def board_defs Propose_witness_def er_ready_def mhas_def gomap_simps
      split: prod.splits option.splits dispatch.splits outcome.splits if_splits dest!: chan_recv_queue)+

lemma sync_sched_other:
  assumes "node_step K tid s (Sched n) t" "sync_inv i s" "\<not> sync_stage i (goroutines s ! n)"
  shows "sync_inv i t"
proof -
  from assms(1) obtain u gs where n: "n < length (goroutines s)"
      and u: "goroutine_step tid s (goroutines s ! n) = Some (u, gs)"
      and t: "t = u\<lparr>goroutines := replace_at n gs (goroutines s)\<rparr>"
    by (auto simp: sched_step)
  note fr = goroutine_step_frame [OF u] and ot = goroutine_other [OF u assms(3)]
  have same: "settled i t = settled i s" "notified i t = notified i s" "node_results t = node_results s"
    using fr t by (simp_all add: answered_ids_def settled_def notified_def node_results_def)
  have board: "mhas (erBuffer (commandBoard t)) i = mhas (erBuffer (commandBoard s)) i"
      "mhas (asrBuffer (commandBoard t)) i = mhas (asrBuffer (commandBoard s)) i"
      "mhas (asrNotifiers (commandBoard t)) i = mhas (asrNotifiers (commandBoard s)) i"
      "asr_busy (commandBoard t) i = asr_busy (commandBoard s) i"
      "er_ready (commandBoard t) i \<longrightarrow> er_ready (commandBoard s) i"
    using ot(1-3) goroutine_tokens(1) [OF u, of i] t by (simp_all add: mhas_def asr_busy_def)
  have "visible i s" if "visible i t"
    using that board(1,5) ot(5) set_replace_at [of n gs "goroutines s"] t by (fastforce simp: visible_def)
  moreover have "h \<in> set (goroutines s)" if "h \<in> set (goroutines t)" "sync_stage i h" for h
    using that ot(4) set_replace_at [of n gs "goroutines s"] t by auto
  moreover have "SyncReplied i rep \<in> set (goroutines t)" if "SyncReplied i rep \<in> set (goroutines s)" for rep
  proof -
    have "SyncReplied i rep \<noteq> goroutines s ! n" using assms(3) by (metis sync_stage_def)
    from in_replace_at [OF n that this] t show ?thesis by simp
  qed
  moreover have "sync_ok i t = sync_ok i s" using same board by (auto simp: sync_ok_def fun_eq_iff)
  ultimately show ?thesis
    using assms(2) same board(2) unfolding sync_inv_def by (metis sync_ok_other)
qed

text \<open>The turns of the synchronisation itself.\<close>

lemma sync_turn:
  assumes "goroutine_step tid s g = Some (u, gs)" "syncs i g"
    and "mhas (erBuffer (commandBoard s)) i" "results_from (node_results s) (commandBoard s)"
    and "notified i s \<longrightarrow> mhas (asrBuffer (commandBoard s)) i"
  obtains (waits) "gs = [SyncReceives i]" "g = SyncCalled i" "\<not> notified i s" "mhas (asrNotifiers (commandBoard u)) i"
      "erBuffer (commandBoard u) = erBuffer (commandBoard s)" "asrBuffer (commandBoard u) = asrBuffer (commandBoard s)"
  | (wakes) "gs = [SyncFinishes i]" "g = SyncReceives i"
      "erBuffer (commandBoard u) = erBuffer (commandBoard s)" "asrBuffer (commandBoard u) = asrBuffer (commandBoard s)"
  | (replies) rep where "gs = [SyncReplied i rep]" "(i, Content rep) \<in> node_results s" "StatusCode rep = ACCEPTED"
      "\<And>j. mhas (erBuffer (commandBoard u)) j \<Longrightarrow> mhas (erBuffer (commandBoard s)) j"
  using assms
  by (cases g)
    (auto simp: syncs_def board_defs mhas_def gomap_simps results_from_def WaitSynced_reply_def
      split: prod.splits option.splits outcome.splits if_splits)


lemma sync_sched_self:
  assumes "node_step K tid s (Sched n) t" "sync_inv i s" "replies_inv s" "syncers i s \<le> 1"
    and "sync_stage i (goroutines s ! n)"
  shows "sync_inv i t"
proof -
  from assms(1) obtain u gs where n: "n < length (goroutines s)"
      and u: "goroutine_step tid s (goroutines s ! n) = Some (u, gs)"
      and t: "t = u\<lparr>goroutines := replace_at n gs (goroutines s)\<rparr>"
    by (auto simp: sched_step)
  let ?g = "goroutines s ! n"
  note fr = goroutine_step_frame [OF u]
  have same: "settled i t = settled i s" "notified i t = notified i s" "node_results t = node_results s"
    using fr t by (simp_all add: answered_ids_def settled_def notified_def node_results_def)
  from u assms(5) have sg: "syncs i ?g" by (auto simp: sync_stage_def)
  have ok: "sync_ok i s ?g" using nth_mem [OF n] assms(2) by (simp add: sync_inv_def)
  have alone: "\<not> sync_stage i h" if "h \<in> set (take n (goroutines s)) \<or> h \<in> set (drop (Suc n) (goroutines s))" for h
  proof -
    have "length (filter (sync_stage i) (take n (goroutines s) @ drop (Suc n) (goroutines s))) = 0"
      using filter_replace_at [OF n, of "sync_stage i" "[]"] assms(4,5)
      by (simp add: syncers_def replace_at_def del: length_0_conv)
    with that show ?thesis by (auto simp: filter_empty_conv)
  qed
  then have rest: "sync_ok i t h" if "h \<in> set (goroutines t)" "h \<notin> set gs" for h
    using that t by (intro sync_ok_other) (auto simp: replace_at_def)
  have "SyncReplied i rep \<notin> set (goroutines s)" for rep
  proof
    assume "SyncReplied i rep \<in> set (goroutines s)"
    moreover have "set (goroutines s) = set (take n (goroutines s)) \<union> {?g} \<union> set (drop (Suc n) (goroutines s))"
      using id_take_nth_drop [OF n] by (metis list.set(2) set_append sup_assoc insert_is_Un)
    ultimately have "?g = SyncReplied i rep" using alone by (auto simp: sync_stage_def)
    with sg show False by (simp add: syncs_def)
  qed
  then have asr: "notified i s \<longrightarrow> mhas (asrBuffer (commandBoard s)) i" using assms(2) by (auto simp: sync_inv_def)
  have res: "results_from (node_results s) (commandBoard s)" using assms(3) by (simp add: replies_inv_def)
  from ok sg have er: "mhas (erBuffer (commandBoard s)) i" "settled i s" by (simp_all add: sync_ok_def)
  have gs: "set gs \<subseteq> set (goroutines t)" using t by (auto simp: replace_at_def)
  from u sg er(1) res asr show ?thesis
  proof (cases rule: sync_turn)
    case waits
    then have "sync_ok i t (SyncReceives i)" using er same t by (simp add: sync_ok_def)
    with waits rest same er(2) asr t show ?thesis by (auto simp: sync_inv_def)
  next
    case wakes
    then have "sync_ok i t (SyncFinishes i)" using er same t by (simp add: sync_ok_def)
    with wakes rest same er(2) asr t show ?thesis by (auto simp: sync_inv_def)
  next
    case (replies rep)
    then have "sync_ok i t (SyncReplied i rep)" using same by (simp add: sync_ok_def syncs_def)
    with replies rest same er(2) gs show ?thesis by (auto simp: sync_inv_def)
  qed
qed


lemma sync_continue:
  assumes "worker_continue s = Some t" "smooth s" "sync_inv i s" shows "sync_inv i t"
proof -
  have "worker s \<noteq> Selects" using assms(1) by (auto simp: worker_continue_def)
  with assms(2) show ?thesis
  proof (cases rule: smooth_continue_cases)
    case (insert c r b)
    with assms(1) have t: "t = s\<lparr>commandBoard := b, worker := Selects\<rparr>" by simp
    have st: "settled i t \<longleftrightarrow> i \<in> set (answered_ids s)" "settled i s \<longrightarrow> settled i t" "notified i t = notified i s"
        "node_results t = node_results s"
      using insert(1) by (simp_all add: t settled_def notified_def answered_ids_def node_results_def)
    have "pid c \<in> set (answered_ids s)" using assms(2) insert(1) by (simp add: smooth_def worker_smooth_def)
    then have "visible i t \<longrightarrow> settled i t"
      using assms(3) st InsertEr_er(1) [OF insert(2), of i] InsertEr_tokens(1) [OF insert(2), of i] t
      by (auto simp: visible_def sync_inv_def)
    moreover have "sync_ok i t g" if "sync_ok i s g" for g
      using that st(2-4) InsertEr_er(1) [OF insert(2), of i] InsertEr_asr [OF insert(2)] t
      by (auto simp: sync_ok_def asr_busy_def)
    ultimately show ?thesis using assms(3) st(3) InsertEr_asr [OF insert(2)] t by (simp add: sync_inv_def)
  next
    case (notify c b)
    with assms(1) have t: "t = s\<lparr>commandBoard := b, worker := RemovesRecord c\<rparr>" by simp
    have st: "settled i t = settled i s" "node_results t = node_results s"
        "notified i t \<longleftrightarrow> i \<in> pid ` set (consumed s)" "notified i s \<longleftrightarrow> i \<in> pid ` set (consumed s) \<and> pid c \<noteq> i"
      using notify(1) by (simp_all add: t settled_def notified_def answered_ids_def node_results_def)
    have v: "visible i t = visible i s"
      using NotifyAsr_er [OF notify(2)] t by (simp add: visible_def er_ready_def)
    have b: "mhas (asrBuffer (commandBoard t)) i \<longleftrightarrow> i = pid c \<or> mhas (asrBuffer (commandBoard s)) i"
        "mhas (asrNotifiers (commandBoard t)) i = mhas (asrNotifiers (commandBoard s)) i"
        "asr_busy (commandBoard t) i \<longleftrightarrow> asr_busy (commandBoard s) i \<or> i = pid c \<and> mhas (asrNotifiers (commandBoard s)) i"
        "erBuffer (commandBoard t) = erBuffer (commandBoard s)" "goroutines t = goroutines s"
      using NotifyAsr_asr [OF notify(2), of i] NotifyAsr_er [OF notify(2)] t by auto
    have "sync_ok i t g" if "sync_ok i s g" for g
      using that st b unfolding sync_ok_def by metis
    with assms(3) st v b show ?thesis unfolding sync_inv_def by metis
  next
    case (remove c)
    with assms(1) have t: "t = removeRecord (s\<lparr>worker := Selects\<rparr>) c" by simp
    have "settled i t = settled i s" "node_results t = node_results s" "notified i t = notified i s"
        "visible i t = visible i s" "commandBoard t = commandBoard s" "goroutines t = goroutines s"
      using remove(1)
      by (simp_all add: t settled_def notified_def answered_ids_def node_results_def visible_def removeRecord_def)
    with assms(3) show ?thesis by (simp add: sync_inv_def sync_ok_def)
  qed
qed

lemma sync_fast:
  assumes "worker_fast K s = Some t" "smooth s" "budget [] s" "sync_inv i s" shows "sync_inv i t"
  using assms(1)
proof (cases rule: worker_fast_cases)
  case (skipped cmd ch)
  then have "settled i t = settled i s" "node_results t = node_results s" "notified i t = notified i s"
      "visible i t = visible i s" "commandBoard t = commandBoard s" "goroutines t = goroutines s"
    by (simp_all add: settled_def notified_def answered_ids_def node_results_def visible_def)
  with assms(4) show ?thesis by (simp add: sync_inv_def sync_ok_def)
next
  case (run cmd ch s2 s3 r)
  then obtain kv where t: "t = s\<lparr>fastPath := ch, commandSet := mset_to (pid cmd) () (commandSet s), sm_KVStore := kv,
      worker := InsertsEr cmd r, executed := executed s @ [cmd], answers := answers s @ [(cmd, length (executed s), r)]\<rparr>"
    using execute_frame [OF disjI1 [OF run(5)]] by auto
  have new: "pid cmd \<notin> set (answered_ids s)" by (rule budget_fast_head [OF assms(3) run(2)])
  have "settled i s \<longleftrightarrow> i \<in> set (answered_ids s)" using run(1) by (simp add: settled_def)
  moreover have a: "answered_ids t = answered_ids s @ [pid cmd]" by (simp add: t answered_ids_def)
  moreover have "settled i t \<longleftrightarrow> i \<in> set (answered_ids s) \<and> pid cmd \<noteq> i"
    unfolding settled_def a by (auto simp: t)
  ultimately have st: "settled i t = settled i s" using new by auto
  have "notified i t = notified i s" "visible i t = visible i s" "node_results s \<subseteq> node_results t"
    using run(1) by (auto simp: t notified_def visible_def node_results_def)
  with assms(4) st show ?thesis by (auto simp: sync_inv_def sync_ok_def t)
qed

lemma sync_slow:
  assumes "worker_slow K s = Some t" "smooth s" "sync_inv i s" shows "sync_inv i t"
proof -
  obtain cmd where f: "answers t = answers s" "worker s = Selects" "worker t = NotifiesAsr cmd"
      "consumed t = consumed s @ [cmd]" "commandBoard t = commandBoard s" "goroutines t = goroutines s"
    using assms(1) by (auto elim!: worker_slow_cases dest!: execute_frame [OF disjI2])
  then have "settled i t = settled i s" "node_results t = node_results s" "visible i t = visible i s"
    by (simp_all add: settled_def answered_ids_def node_results_def visible_def)
  moreover from f have "notified i t \<longrightarrow> notified i s" by (auto simp: notified_def)
  ultimately show ?thesis using f assms(3) by (auto simp: sync_inv_def sync_ok_def)
qed

lemma sync_env:
  assumes "sync_inv i s" "goroutines t = goroutines s @ gs" "\<forall>g\<in>set gs. sync_ok i s g \<and> (\<forall>c rep. g \<noteq> LeaderReplied c rep)"
    and "commandBoard t = commandBoard s \<and> commandSet t = commandSet s \<and> worker t = worker s \<and>
         answers t = answers s \<and> fastPath t = fastPath s" "consumed t = consumed s"
  shows "sync_inv i t"
proof -
  have "settled i t = settled i s" "node_results t = node_results s" "notified i t = notified i s"
      "visible i t = visible i s"
    using assms(2-5) by (auto simp: settled_def answered_ids_def notified_def node_results_def visible_def)
  moreover from this assms(4) have "sync_ok i t = sync_ok i s" by (auto simp: sync_ok_def fun_eq_iff)
  ultimately show ?thesis using assms by (auto simp: sync_inv_def)
qed

text \<open>The request itself finds the result on the board.\<close>

lemma sync_step:
  assumes "node_step K tid s e t" "smooth s" "budget [] s" "replies_inv s" "sync_inv i s" "syncers i s \<le> 1"
    and "e = CallSync i \<longrightarrow> settled i s \<and> mhas (erBuffer (commandBoard s)) i"
  shows "sync_inv i t"
proof -
  consider n where "e = Sched n" | "e \<in> {WorkerFast, WorkerSlow, WorkerContinue}"
    | "e \<notin> {WorkerFast, WorkerSlow, WorkerContinue} \<and> (\<forall>n. e \<noteq> Sched n)" by blast
  then show ?thesis
  proof cases
    case 1
    with assms sync_sched_other [of K tid s n t i] sync_sched_self [of K tid s n t i] show ?thesis by blast
  next
    case 2
    with assms sync_fast [of K s t i] sync_slow [of K s t i] sync_continue [of s t i] show ?thesis
      by (auto simp: node_step_def)
  next
    case 3
    show ?thesis
    proof (rule sync_env [OF assms(5) other_frame [OF assms(1)]])
      show "\<forall>g\<in>set (case e of CallPropose c \<Rightarrow> [ProposeCalled c] | CallSync i \<Rightarrow> [SyncCalled i] | _ \<Rightarrow> []).
          sync_ok i s g \<and> (\<forall>c rep. g \<noteq> LeaderReplied c rep)"
        using assms(7) by (auto simp: sync_ok_def syncs_def split: node_event.splits)
    qed (use 3 env_frame [OF assms(1)] exec_frame [OF assms(1)] in auto)
  qed
qed

text \<open>Along a run in which the identifier is synchronised once, after its result was seen.\<close>

definition synced :: "ProposeId \<Rightarrow> node_event list \<Rightarrow> 'kv node \<Rightarrow> bool" where
  "synced i es s \<longleftrightarrow>
     smooth s \<and> budget es s \<and> replies_inv s \<and> sync_inv i s \<and> syncers i s + count_list (sync_calls es) i \<le> 1"

lemma synced_step:
  assumes "node_step K tid s e t" "synced i (e # es) s"
    and "e = CallSync i \<longrightarrow> settled i s \<and> mhas (erBuffer (commandBoard s)) i"
  shows "synced i es t"
proof -
  from assms(2) have s: "smooth s" "budget (e # es) s" "replies_inv s" "sync_inv i s"
      "syncers i s + count_list (sync_calls [e] @ sync_calls es) i \<le> 1"
    using sync_calls_Cons [of e es] by (simp_all add: synced_def)
  then have "syncers i s \<le> 1" "budget [] s" by (auto dest: budget_drop)
  with s sync_step [OF assms(1) _ _ _ _ _ assms(3)] smooth_step [OF assms(1)] budget_step [OF assms(1)]
    replies_step [OF assms(1)] syncers_step [OF assms(1), of i]
  show ?thesis by (auto simp: synced_def)
qed

lemma synced_run:
  "run (node_step K tid) s es t \<Longrightarrow> synced i es s \<Longrightarrow> CallSync i \<notin> set es \<Longrightarrow> synced i [] t"
proof (induction rule: run.induct)
  case (run_cons s e t es u)
  then show ?case using synced_step [OF run_cons.hyps(1)] by auto
qed simp

lemma synced_prefix:
  "run (node_step K tid) s es t \<Longrightarrow> synced i (es @ fs) s \<Longrightarrow> CallSync i \<notin> set es \<Longrightarrow> synced i fs t"
proof (induction rule: run.induct)
  case (run_cons s e t es u)
  then show ?case using synced_step [OF run_cons.hyps(1)] by auto
qed simp

lemma synced_new:
  assumes "distinct (proposed es)" "distinct (map (map_option pid) (logged es))" "count_list (sync_calls es) i \<le> 1"
  shows "synced i es (new_node n kv)"
proof -
  have "sync_inv i (new_node n kv)" "syncers i (new_node n kv) = 0"
    by (simp_all add: sync_inv_def syncers_def visible_def notified_def er_ready_def new_node_defs NewBoard_def gomap_simps)
  then show ?thesis
    using assms(3) smooth_new [of n kv] budget_new [OF assms(1,2), of n kv] new_node_invs(3) [of n kv]
    by (simp add: synced_def)
qed


section \<open>A synchronisation can always be answered\<close>

definition progress_step :: "node_event \<Rightarrow> bool" where
  "progress_step e \<longleftrightarrow> own_step e \<or> (\<exists>n. e = Sched n)"

definition can_sync :: "'kv KVStore \<Rightarrow> int \<Rightarrow> ProposeId \<Rightarrow> 'kv node \<Rightarrow> bool" where
  "can_sync K tid i s \<longleftrightarrow>
     (\<exists>es t rep. run (node_step K tid) s es t \<and> (\<forall>e\<in>set es. progress_step e) \<and> \<not> crashed t \<and>
        SyncReplied i rep \<in> set (goroutines t))"

lemma can_sync_now: "\<not> crashed s \<Longrightarrow> SyncReplied i rep \<in> set (goroutines s) \<Longrightarrow> can_sync K tid i s"
  unfolding can_sync_def by (intro exI [of _ "[]"] exI [of _ s]) (auto intro: run_nil)

lemma can_sync_later:
  "run (node_step K tid) s es t \<Longrightarrow> \<forall>e\<in>set es. progress_step e \<Longrightarrow> can_sync K tid i t \<Longrightarrow> can_sync K tid i s"
  unfolding can_sync_def by (metis UnE run_append set_append)

lemma can_sync_sched:
  assumes "\<not> crashed s" "g \<in> set (goroutines s)" "goroutine_step tid s g = Some (u, gs)" "\<not> crashed u"
    and "\<And>t n. node_step K tid s (Sched n) t \<Longrightarrow> \<not> crashed t \<Longrightarrow> set gs \<subseteq> set (goroutines t) \<Longrightarrow> can_sync K tid i t"
  shows "can_sync K tid i s"
proof -
  from sched_member [OF assms(1-4), of K] obtain n t where
    t: "node_step K tid s (Sched n) t" "\<not> crashed t" "set gs \<subseteq> set (goroutines t)"
    by metis
  have "run (node_step K tid) s [Sched n] t" using t(1) by (rule run_one)
  from can_sync_later [OF this] assms(5) [OF t] show ?thesis by (simp add: progress_step_def)
qed

lemma finishes_can_sync:
  assumes "synced i [] s" "\<not> crashed s" "SyncFinishes i \<in> set (goroutines s)"
  shows "can_sync K tid i s"
proof -
  have free: "mu (commandBoard s) = None" using assms(1) by (simp add: synced_def smooth_lock_free)
  obtain b r where "WaitForAsr_finish (commandBoard s) i = (b, r)" by force
  with free have g: "goroutine_step tid s (SyncFinishes i) =
      Some (s\<lparr>commandBoard := b\<rparr>, [SyncReplied i (WaitSynced_reply r)])" by simp
  have "\<not> crashed (s\<lparr>commandBoard := b\<rparr>)" using assms(2) by simp
  from assms(2,3) g this show ?thesis
  proof (rule can_sync_sched)
    fix u :: "'a node" assume "\<not> crashed u" "set [SyncReplied i (WaitSynced_reply r)] \<subseteq> set (goroutines u)"
    then show "can_sync K tid i u" by (intro can_sync_now) auto
  qed
qed

lemma sched_synced: "node_step K tid s (Sched n) t \<Longrightarrow> synced i [] s \<Longrightarrow> synced i [] t"
  using synced_step [of K tid s "Sched n" t i "[]"]
  by (simp add: synced_def budget_def logged_def)

lemma notified_can_sync:
  assumes "synced i [] s" "\<not> crashed s" "notified i s" "g \<in> set (goroutines s)" "sync_stage i g"
  shows "can_sync K tid i s"
proof -
  have free: "mu (commandBoard s) = None" and inv: "sync_inv i s" using assms(1) by (simp_all add: synced_def smooth_lock_free)
  with assms(4) have ok: "sync_ok i s g" by (simp add: sync_inv_def)
  from assms(5) consider "g = SyncCalled i" | "g = SyncReceives i" | "g = SyncFinishes i" | rep where "g = SyncReplied i rep"
    by (cases g) (auto simp: sync_stage_def syncs_def)
  then show ?thesis
  proof cases
    case 1
    show ?thesis
    proof (cases "mhas (asrBuffer (commandBoard s)) i")
      case True
      with 1 ok obtain b r where w: "WaitForAsr_enter (commandBoard s) i = (b, Some r)"
        by (auto simp: sync_ok_def syncs_def mhas_def WaitForAsr_enter_def)
      with 1 free have gs: "goroutine_step tid s g = Some (s\<lparr>commandBoard := b\<rparr>, [SyncReplied i (WaitSynced_reply r)])"
        by simp
      have "\<not> crashed (s\<lparr>commandBoard := b\<rparr>)" using assms(2) by simp
      from assms(2,4) gs this show ?thesis
      proof (rule can_sync_sched)
        fix u :: "'a node" assume "\<not> crashed u" "set [SyncReplied i (WaitSynced_reply r)] \<subseteq> set (goroutines u)"
        then show "can_sync K tid i u" by (intro can_sync_now) auto
      qed
    next
      case False
      with inv assms(2,3) show ?thesis by (auto simp: sync_inv_def intro: can_sync_now)
    qed
  next
    case 2
    with ok assms(3) obtain b where "WaitForAsr_recv (commandBoard s) i = Done b ()"
      by (auto simp: sync_ok_def asr_busy_runs)
    with 2 have gs: "goroutine_step tid s g = Some (s\<lparr>commandBoard := b\<rparr>, [SyncFinishes i])" by simp
    have "\<not> crashed (s\<lparr>commandBoard := b\<rparr>)" using assms(2) by simp
    from assms(2,4) gs this show ?thesis
    proof (rule can_sync_sched)
      fix u :: "'a node" and n
      assume u: "node_step K tid s (Sched n) u" "\<not> crashed u" "set [SyncFinishes i] \<subseteq> set (goroutines u)"
      then show "can_sync K tid i u" using finishes_can_sync [OF sched_synced [OF u(1) assms(1)] u(2)] by simp
    qed
  next
    case 3
    with finishes_can_sync [OF assms(1,2)] assms(4) show ?thesis by blast
  next
    case 4
    with assms(2,4) show ?thesis by (auto intro: can_sync_now)
  qed
qed

lemma own_goroutines: "run (node_step K tid) s es t \<Longrightarrow> \<forall>e\<in>set es. own_step e \<Longrightarrow> goroutines t = goroutines s"
proof (induction rule: run.induct)
  case (run_cons s e t es u)
  with other_frame [OF run_cons.hyps(1)] show ?case by auto
qed simp

text \<open>An identifier that is proposed once has one result.\<close>

lemma result_unique:
  assumes "budget [] s" "(i, r) \<in> node_results s" "(i, r') \<in> node_results s"
  shows "r = r'"
proof -
  let ?f = "\<lambda>(c, n, r). pid c"
  have "count_list (map ?f (answers s)) i \<le> 1"
    using assms(1) unfolding budget_def fast_load_def answered_ids_def by (metis add_leE)
  then have "length (filter (\<lambda>x. ?f x = i) (answers s)) \<le> 1"
    by (simp add: count_list_eq_length_filter filter_map o_def eq_commute)
  moreover from assms(2,3) obtain c n c' n' where
    "(c, n, r) \<in> set (filter (\<lambda>x. ?f x = i) (answers s))" "(c', n', r') \<in> set (filter (\<lambda>x. ?f x = i) (answers s))"
    by (auto simp: node_results_def)
  ultimately show ?thesis by (cases "filter (\<lambda>x. ?f x = i) (answers s)") auto
qed

lemma results_grow_run: "run (node_step K tid) s es t \<Longrightarrow> node_results s \<subseteq> node_results t"
  by (induction rule: run.induct) (auto dest: node_answers_grow)


lemma sync_stage_stays:
  assumes "node_step K tid s e t" "syncers i s \<noteq> 0" shows "syncers i t \<noteq> 0"
  using syncers_step [OF assms(1), of i] assms(2) by simp

lemma sync_stage_run: "run (node_step K tid) s es t \<Longrightarrow> syncers i s \<noteq> 0 \<Longrightarrow> syncers i t \<noteq> 0"
  by (induction rule: run.induct) (auto dest: sync_stage_stays)

lemma synced_progress:
  assumes "run (node_step K tid) s es t" "synced i [] s" "\<forall>e\<in>set es. progress_step e"
  shows "synced i [] t"
proof -
  have "proposed es = [] \<and> logged es = [] \<and> sync_calls es = [] \<and> CallSync i \<notin> set es"
    using assms(3) by (induction es) (auto simp: logged_def progress_step_def)
  then show ?thesis using assms(2) synced_run [OF assms(1), of i] by (simp add: synced_def budget_def logged_def)
qed

lemma caught_up_sync:
  assumes "synced i [] s" "\<not> crashed s" "syncers i s \<noteq> 0" "pipeline s = map Some log" "i \<in> pid ` set log"
  shows "can_sync K tid i s"
proof -
  have "calm s" using assms(1,2) by (simp add: synced_def calm_def)
  moreover have "None \<notin> set (map DecodeClientCommand (case reading s of None \<Rightarrow> [] | Some ds \<Rightarrow> ds))"
    using assms(4) by (metis UnCI imageE list.set_map option.distinct(1) pipeline_def set_append)
  ultimately obtain es t where t: "run (node_step K tid) s es t" "\<forall>e\<in>set es. own_step e" "calm t"
      "worker t = Selects" "cbuf (slowPath t) = []" "reading t = None"
    using push_all by blast
  have "pipeline t = map Some log" using pipeline_run [OF t(1)] own_steps_deliver [OF t(2)] assms(4) by simp
  with t(5,6) have "map Some (consumed t) = map Some log" by (simp add: pipeline_def)
  then have "notified i t" using assms(5) t(4) by (simp add: notified_def inj_map_eq_map)
  have "synced i [] t" using synced_progress [OF t(1) assms(1)] t(2) by (auto simp: progress_step_def)
  moreover have "syncers i t \<noteq> 0" using sync_stage_run [OF t(1) assms(3)] .
  then obtain g where "g \<in> set (goroutines t)" "sync_stage i g" by (auto simp: syncers_def filter_empty_conv)
  ultimately have "can_sync K tid i t" using notified_can_sync \<open>notified i t\<close> t(3) by (auto simp: calm_def)
  with t(1,2) show ?thesis by (auto simp: progress_step_def intro: can_sync_later)
qed

lemma replied_settled:
  assumes "sync_inv i s" "serve i s" "LeaderReplied c rep \<in> set (goroutines s)" "pid c = i"
  shows "settled i s \<and> mhas (erBuffer (commandBoard s)) i"
  using assms by (auto simp: sync_inv_def visible_def serve_def)

lemmas event_lists_append =
  append_from_Cons [of proposed, OF _ proposed_Cons, simplified]
  append_from_Cons [of commit_data, OF _ commit_data_Cons, simplified]
  append_from_Cons [of sync_calls, OF _ sync_calls_Cons, simplified]

lemma in_sync_calls: "i \<in> set (sync_calls es) \<longleftrightarrow> CallSync i \<in> set es"
proof (induction es)
  case (Cons e es)
  then show ?case by (cases e) auto
qed simp

lemma synced_request:
  assumes "run (node_step K tid) (new_node n kv) es s" "LeaderReplied c rep \<in> set (goroutines s)" "pid c = i"
    and "run (node_step K tid) s (CallSync i # fs) t" "CallSync i \<notin> set (es @ fs)"
    and "distinct (proposed (es @ fs))" "distinct (map (map_option pid) (logged (es @ fs)))"
  shows "synced i [] t" "syncers i t \<noteq> 0" "pipeline t = logged (es @ fs)" "(i, Content rep) \<in> node_results t"
proof -
  let ?all = "es @ CallSync i # fs"
  from assms(4) obtain t0 where t0: "node_step K tid s (CallSync i) t0" "run (node_step K tid) t0 fs t"
    by (rule run_consE)
  have lists: "proposed ?all = proposed (es @ fs)" "logged ?all = logged (es @ fs)"
    using event_lists_append [of es] proposed_Cons [of "CallSync i" fs] commit_data_Cons [of "CallSync i" fs]
    by (simp_all add: logged_def)
  have "count_list (sync_calls ?all) i \<le> 1"
    using assms(5) in_sync_calls [of i es] in_sync_calls [of i fs] sync_calls_Cons [of "CallSync i" fs]
    by (simp add: event_lists_append count_list_0_iff)
  then have "synced i ?all (new_node n kv)" using assms(6,7) lists by (intro synced_new) simp_all
  then have s: "synced i (CallSync i # fs) s" using synced_prefix [OF assms(1)] assms(5) by auto
  have "serve i s"
    using served_run [OF assms(1) served_new [of es i n kv]] assms(5-7)
    by (simp add: event_lists_append logged_def served_def)
  with s assms(2,3) have "settled i s \<and> mhas (erBuffer (commandBoard s)) i"
    by (intro replied_settled) (simp_all add: synced_def)
  with s have t0s: "synced i fs t0" using synced_step [OF t0(1)] by blast
  with synced_run [OF t0(2)] assms(5) show "synced i [] t" by auto
  have "syncers i t0 \<noteq> 0" using syncers_step [OF t0(1), of i] by simp
  then show "syncers i t \<noteq> 0" using sync_stage_run [OF t0(2)] by blast
  show "pipeline t = logged (es @ fs)"
    using pipeline_run [OF run_append [OF assms(1,4)]] lists(2) by (simp add: new_node_invs(7) logged_def)
  from s assms(2,3) have "(i, Content rep) \<in> node_results s" by (auto simp: synced_def replies_inv_def reply_from_def)
  then show "(i, Content rep) \<in> node_results t" using results_grow_run [OF assms(4)] by blast
qed

section \<open>The property\<close>

text \<open>
  C11: the slow round ends, with the result of the fast round. When a leader has answered a proposal
  and is then asked to synchronise its identifier, and raft has committed the command at any time
  before or after, then, in every schedule in which each identifier is proposed, committed and
  synchronised at most once, the replica can by its own steps reach a state in which the request
  has been answered, and the content of the answer is the content of the first one.
\<close>

theorem sync_can_complete:
  assumes "run (node_step K tid) (new_node n kv) es s" "LeaderReplied c rep \<in> set (goroutines s)"
    and "run (node_step K tid) s (CallSync (pid c) # fs) t" "\<not> crashed t"
    and "CallSync (pid c) \<notin> set (es @ fs)" "distinct (proposed (es @ fs))"
    and "map DecodeClientCommand (commit_data (es @ fs)) = map Some log" "distinct (map pid log)" "pid c \<in> pid ` set log"
  shows "\<exists>gs u rep'. run (node_step K tid) t gs u \<and> (\<forall>e\<in>set gs. progress_step e) \<and> \<not> crashed u \<and>
           SyncReplied (pid c) rep' \<in> set (goroutines u) \<and> Content rep' = Content rep"
proof -
  have l: "logged (es @ fs) = map Some log" using assms(7) by (simp add: logged_def)
  then have "distinct (map (map_option pid) (logged (es @ fs)))"
    using assms(8) by (auto simp: distinct_map comp_inj_on_iff inj_on_def)
  note r = synced_request [OF assms(1,2) refl assms(3,5,6) this]
  from caught_up_sync [OF r(1) assms(4) r(2) _ assms(9)] r(3) l obtain gs u rep' where
    u: "run (node_step K tid) t gs u" "\<forall>e\<in>set gs. progress_step e" "\<not> crashed u"
      "SyncReplied (pid c) rep' \<in> set (goroutines u)"
    by (metis can_sync_def)
  have su: "synced (pid c) [] u" by (rule synced_progress [OF u(1) r(1) u(2)])
  then have "(pid c, Content rep') \<in> node_results u" using u(4) by (auto simp: synced_def sync_inv_def sync_ok_def)
  moreover have "(pid c, Content rep) \<in> node_results u" using r(4) results_grow_run [OF u(1)] by blast
  ultimately have "Content rep' = Content rep" using su result_unique by (metis synced_def)
  with u show ?thesis by blast
qed

theorem sync_can_complete_witness:
  "\<exists>t gs u rep'. run (mem_node_step 64) t gs u \<and> SyncReplied (pid demo_put) rep' \<in> set (goroutines u) \<and> Content rep' = []"
proof -
  obtain s t where s: "run (mem_node_step 64) (new_node 1 (fst NewMemStore)) fast_events s"
      "LeaderReplied demo_put \<lparr>Content = [], StatusCode = ACCEPTED, ReplySeqId = 0\<rparr> \<in> set (goroutines s)"
      "run (mem_node_step 64) s (CallSync (pid demo_put) # parked_events) t" "\<not> crashed t"
    using fast_run by blast
  have "\<exists>gs u rep'. run (mem_node_step 64) t gs u \<and> (\<forall>e\<in>set gs. progress_step e) \<and> \<not> crashed u \<and>
      SyncReplied (pid demo_put) rep' \<in> set (goroutines u) \<and>
      Content rep' = Content \<lparr>Content = [], StatusCode = ACCEPTED, ReplySeqId = 0\<rparr>"
    by (rule sync_can_complete [OF s, of "[demo_put]"])
      (simp_all add: fast_events_def parked_events_def)
  then show ?thesis by auto
qed

end
