(* ===== verification/Go_Json.thy ===== *)
theory Go_Json
  imports KV_Store "HOL-Library.Char_ord" "HOL-Library.List_Lexorder"
begin

text \<open>
  Go's \<open>encoding/json\<close> for maps from strings to strings, which is what the in-memory store is saved
  as. Encoding writes the keys in order and escapes what JSON and HTML require; bytes that are not
  UTF-8 become the replacement character. Decoding checks the syntax of the whole text first and
  then stores the members of the outermost object in the map it is given. The text is cut into
  tokens, and a pushdown automaton over the tokens is grammar and decoder in one; the nesting depth
  is limited as in the library. Errors are values of the library; the program passes them on.
\<close>

section \<open>UTF-8\<close>

text \<open>A byte within bounds.\<close>

definition cont :: "nat \<Rightarrow> nat \<Rightarrow> char \<Rightarrow> bool" where
  "cont lo hi c \<longleftrightarrow> lo \<le> (of_char c :: nat) \<and> (of_char c :: nat) \<le> hi"

text \<open>The well-formed sequences of two, three and four bytes.\<close>

definition seq2 :: "char \<Rightarrow> char \<Rightarrow> bool" where
  "seq2 c c1 \<longleftrightarrow> cont 194 223 c \<and> cont 128 191 c1"

definition seq3 :: "char \<Rightarrow> char \<Rightarrow> char \<Rightarrow> bool" where
  "seq3 c c1 c2 \<longleftrightarrow> cont 224 239 c \<and>
     cont (if c = CHR 0xE0 then 160 else 128) (if c = CHR 0xED then 159 else 191) c1 \<and> cont 128 191 c2"

definition seq4 :: "char \<Rightarrow> char \<Rightarrow> char \<Rightarrow> char \<Rightarrow> bool" where
  "seq4 c c1 c2 c3 \<longleftrightarrow> cont 240 244 c \<and>
     cont (if c = CHR 0xF0 then 144 else 128) (if c = CHR 0xF4 then 143 else 191) c1 \<and>
     cont 128 191 c2 \<and> cont 128 191 c3"

text \<open>The number of bytes of the rune a string starts with, 0 when it starts with none.\<close>

fun rune_len :: "string \<Rightarrow> nat" where
  "rune_len [] = 0"
| "rune_len (c # cs) =
     (if (of_char c :: nat) < 128 then 1
      else case cs of
        [] \<Rightarrow> 0
      | c1 # cs1 \<Rightarrow>
          if seq2 c c1 then 2
          else (case cs1 of
                  [] \<Rightarrow> 0
                | c2 # cs2 \<Rightarrow>
                    if seq3 c c1 c2 then 3
                    else (case cs2 of [] \<Rightarrow> 0 | c3 # _ \<Rightarrow> if seq4 c c1 c2 c3 then 4 else 0)))"

declare rune_len.simps(2) [simp del]

lemma rune_len_le: "rune_len s \<le> length s"
  by (cases s) (auto simp: rune_len.simps(2) split: list.splits)

lemma rune_len_ascii: "(of_char c :: nat) < 128 \<Longrightarrow> rune_len (c # cs) = 1"
  by (simp add: rune_len.simps(2))

text \<open>UTF-8 text.\<close>

function utf8_valid :: "string \<Rightarrow> bool" where
  "utf8_valid s = (if s = [] then True else if rune_len s = 0 then False else utf8_valid (drop (rune_len s) s))"
  by pat_completeness auto
termination
  by (relation "measure length") auto

declare utf8_valid.simps [simp del]

text \<open>The bytes of a rune; one that is not a character is replaced.\<close>

definition encode_rune :: "nat \<Rightarrow> string" where
  "encode_rune r =
     (if r < 128 then [char_of r]
      else if r < 2048 then [char_of (192 + r div 64), char_of (128 + r mod 64)]
      else if 1114112 \<le> r \<or> 55296 \<le> r \<and> r < 57344 then [char_of (239 :: nat), char_of (191 :: nat), char_of (189 :: nat)]
      else if r < 65536 then
        [char_of (224 + r div 4096), char_of (128 + r div 64 mod 64), char_of (128 + r mod 64)]
      else
        [char_of (240 + r div 262144), char_of (128 + r div 4096 mod 64), char_of (128 + r div 64 mod 64),
         char_of (128 + r mod 64)])"

section \<open>Encoding\<close>

definition hexdigit :: "nat \<Rightarrow> char" where
  "hexdigit n = (if n < 10 then char_of (48 + n) else char_of (87 + n))"

definition html_safe :: "char \<Rightarrow> bool" where
  "html_safe c \<longleftrightarrow> (of_char c :: nat) \<ge> 32 \<and> c \<notin> {CHR 0x22, CHR 0x5C, CHR ''<'', CHR ''>'', CHR ''&''}"

text \<open>The escapes of bytes below 128.\<close>

definition json_escape :: "char \<Rightarrow> string" where
  "json_escape c =
     (if html_safe c then [c]
      else if c = CHR 0x5C \<or> c = CHR 0x22 then [CHR 0x5C, c]
      else if c = CHR 0x08 then [CHR 0x5C, CHR ''b'']
      else if c = CHR 0x0C then [CHR 0x5C, CHR ''f'']
      else if c = CHR 0x0A then [CHR 0x5C, CHR ''n'']
      else if c = CHR 0x0D then [CHR 0x5C, CHR ''r'']
      else if c = CHR 0x09 then [CHR 0x5C, CHR ''t'']
      else [CHR 0x5C, CHR ''u'', CHR ''0'', CHR ''0'', hexdigit (of_char c div 16), hexdigit (of_char c mod 16)])"

definition line_separator :: "string \<Rightarrow> bool" where
  "line_separator s \<longleftrightarrow> take 3 s \<in> {[CHR 0xE2, CHR 0x80, CHR 0xA8], [CHR 0xE2, CHR 0x80, CHR 0xA9]}"

function json_body :: "string \<Rightarrow> string" where
  "json_body [] = []"
| "json_body (c # cs) =
     (if (of_char c :: nat) < 128 then json_escape c @ json_body cs
      else if rune_len (c # cs) = 0 then [CHR 0x5C, CHR ''u'', CHR ''f'', CHR ''f'', CHR ''f'', CHR ''d''] @ json_body cs
      else if line_separator (c # cs) then
        [CHR 0x5C, CHR ''u'', CHR ''2'', CHR ''0'', CHR ''2'', hexdigit (of_char (cs ! 1) mod 16)] @ json_body (drop 2 cs)
      else take (rune_len (c # cs)) (c # cs) @ json_body (drop (rune_len (c # cs)) (c # cs)))"
  by pat_completeness auto
termination
  by (relation "measure length") auto

declare json_body.simps(2) [simp del]

definition json_string :: "string \<Rightarrow> string" where
  "json_string s = [CHR 0x22] @ json_body s @ [CHR 0x22]"

fun json_members :: "(string \<times> string) list \<Rightarrow> string" where
  "json_members [] = []"
| "json_members [(k, v)] = json_string k @ '':'' @ json_string v"
| "json_members ((k, v) # es) = json_string k @ '':'' @ json_string v @ '','' @ json_members es"

definition json_Marshal :: "(string, string) gomap \<Rightarrow> string" where
  "json_Marshal m = ''{'' @ json_members (sort_key fst m) @ ''}''"

section \<open>Decoding\<close>

definition hexval :: "char \<Rightarrow> nat option" where
  "hexval c =
     (let b = (of_char c :: nat) in
      if 48 \<le> b \<and> b \<le> 57 then Some (b - 48)
      else if 97 \<le> b \<and> b \<le> 102 then Some (b - 87)
      else if 65 \<le> b \<and> b \<le> 70 then Some (b - 55)
      else None)"

definition getu4 :: "string \<Rightarrow> nat option" where
  "getu4 s =
     (case s of
        h1 # h2 # h3 # h4 # _ \<Rightarrow>
          (case (hexval h1, hexval h2, hexval h3, hexval h4) of
             (Some a, Some b, Some c, Some d) \<Rightarrow> Some (((a * 16 + b) * 16 + c) * 16 + d)
           | _ \<Rightarrow> None)
      | _ \<Rightarrow> None)"

text \<open>The text of a string up to its closing quote, and what follows; \<open>None\<close> is a syntax error.\<close>

function lex_string :: "string \<Rightarrow> (string \<times> string) option" where
  "lex_string [] = None"
| "lex_string (c # cs) =
     (if c = CHR 0x22 then Some ([], cs)
      else if (of_char c :: nat) < 32 then None
      else if c = CHR 0x5C then
        (case cs of
           [] \<Rightarrow> None
         | e # es \<Rightarrow>
             if e \<in> {CHR ''b'', CHR ''f'', CHR ''n'', CHR ''r'', CHR ''t'', CHR 0x5C, CHR ''/'', CHR 0x22}
             then map_option (\<lambda>(b, r). (c # e # b, r)) (lex_string es)
             else if e = CHR ''u'' \<and> getu4 es \<noteq> None
             then map_option (\<lambda>(b, r). (c # e # take 4 es @ b, r)) (lex_string (drop 4 es))
             else None)
      else map_option (\<lambda>(b, r). (c # b, r)) (lex_string cs))"
  by pat_completeness auto
termination
  by (relation "measure length") auto

declare lex_string.simps(2) [simp del]

definition unescape :: "char \<Rightarrow> char" where
  "unescape e =
     (if e = CHR ''b'' then CHR 0x08 else if e = CHR ''f'' then CHR 0x0C else if e = CHR ''n'' then CHR 0x0A
      else if e = CHR ''r'' then CHR 0x0D else if e = CHR ''t'' then CHR 0x09 else e)"

definition surrogate :: "nat \<Rightarrow> bool" where
  "surrogate r \<longleftrightarrow> 55296 \<le> r \<and> r < 57344"

definition utf16_pair :: "nat \<Rightarrow> nat \<Rightarrow> nat option" where
  "utf16_pair r1 r2 =
     (if r1 < 56320 \<and> 56320 \<le> r2 \<and> r2 < 57344 then Some ((r1 - 55296) * 1024 + (r2 - 56320) + 65536) else None)"

definition replacement :: nat where "replacement = 65533"

text \<open>The second half of a surrogate pair, when the text that follows is one.\<close>

definition low_half :: "nat \<Rightarrow> string \<Rightarrow> nat option" where
  "low_half r s =
     (case s of
        c # u # hs \<Rightarrow> if c = CHR 0x5C \<and> u = CHR ''u'' then
            (case getu4 hs of Some r2 \<Rightarrow> utf16_pair r r2 | None \<Rightarrow> None) else None
      | _ \<Rightarrow> None)"

text \<open>
  The string a text stands for. An escape outside the pairs of UTF-16 gives its rune, half a pair
  the replacement character, and so do bytes that are not UTF-8.
\<close>

function unquote :: "string \<Rightarrow> string" where
  "unquote [] = []"
| "unquote (c # cs) =
     (if c = CHR 0x5C then
        (case cs of
           [] \<Rightarrow> []
         | e # es \<Rightarrow>
             if e = CHR ''u'' then
               (case getu4 es of
                  None \<Rightarrow> []
                | Some r \<Rightarrow>
                    if surrogate r then
                      (case low_half r (drop 4 es) of
                         Some d \<Rightarrow> encode_rune d @ unquote (drop 10 es)
                       | None \<Rightarrow> encode_rune replacement @ unquote (drop 4 es))
                    else encode_rune r @ unquote (drop 4 es))
             else unescape e # unquote es)
      else if (of_char c :: nat) < 128 then c # unquote cs
      else if rune_len (c # cs) = 0 then encode_rune replacement @ unquote cs
      else take (rune_len (c # cs)) (c # cs) @ unquote (drop (rune_len (c # cs)) (c # cs)))"
  by pat_completeness auto
termination
  by (relation "measure length") auto

declare unquote.simps(2) [simp del]


definition json_digit :: "char \<Rightarrow> bool" where
  "json_digit c \<longleftrightarrow> 48 \<le> (of_char c :: nat) \<and> (of_char c :: nat) \<le> 57"

definition lex_exp :: "string \<Rightarrow> string option" where
  "lex_exp s =
     (case s of
        [] \<Rightarrow> Some []
      | c # cs \<Rightarrow>
          if c = CHR ''e'' \<or> c = CHR ''E'' then
            let ds = (case cs of [] \<Rightarrow> [] | d # r \<Rightarrow> if d = CHR ''+'' \<or> d = CHR ''-'' then r else cs) in
            case ds of [] \<Rightarrow> None | d # r \<Rightarrow> if json_digit d then Some (dropWhile json_digit r) else None
          else Some s)"

definition lex_frac :: "string \<Rightarrow> string option" where
  "lex_frac s =
     (case s of
        [] \<Rightarrow> Some []
      | c # cs \<Rightarrow>
          if c = CHR ''.'' then
            (case cs of [] \<Rightarrow> None | d # r \<Rightarrow> if json_digit d then lex_exp (dropWhile json_digit r) else None)
          else lex_exp s)"

definition lex_number :: "string \<Rightarrow> string option" where
  "lex_number s =
     (let s1 = (case s of [] \<Rightarrow> [] | c # cs \<Rightarrow> if c = CHR ''-'' then cs else s) in
      case s1 of
        [] \<Rightarrow> None
      | c # cs \<Rightarrow>
          if c = CHR ''0'' then lex_frac cs
          else if json_digit c then lex_frac (dropWhile json_digit cs)
          else None)"

lemma lex_string_length: "lex_string s = Some (b, r) \<Longrightarrow> length r < length s"
proof (induction "length s" arbitrary: s b r rule: less_induct)
  case less
  have IH: "length q < length x" if "length x < length s" "lex_string x = Some (d, q)" for x d q
    using less.hyps that by blast
  from less.prems obtain c cs where s: "s = c # cs" by (cases s) simp_all
  show ?case
  proof (cases "c = CHR 0x22 \<or> (of_char c :: nat) < 32 \<or> c \<noteq> CHR 0x5C")
    case True
    moreover have "length q < Suc (length cs)" if "lex_string cs = Some (d, q)" for d q
      using IH [of cs d q] s that by simp
    ultimately show ?thesis using less.prems s by (auto simp: lex_string.simps(2) split: if_splits)
  next
    case False
    then obtain e es where cs: "cs = e # es" using less.prems s by (cases cs) (auto simp: lex_string.simps(2))
    from False less.prems obtain x d where "x = es \<or> x = drop 4 es" "lex_string x = Some (d, r)"
      unfolding s cs lex_string.simps(2) by (auto split: if_splits)
    moreover from this have "length x < length s" using s cs by auto
    ultimately show ?thesis using IH [of x d r] by simp
  qed
qed

lemma lex_exp_length: "lex_exp s = Some r \<Longrightarrow> length r \<le> length s"
  by (auto simp: lex_exp_def Let_def split: list.splits if_splits intro: le_SucI order_trans [OF length_dropWhile_le])

lemma lex_frac_length: "lex_frac s = Some r \<Longrightarrow> length r \<le> length s"
  by (auto simp: lex_frac_def split: list.splits if_splits dest!: lex_exp_length
      intro: le_SucI order_trans [OF _ length_dropWhile_le])

lemma lex_number_length: "lex_number s = Some r \<Longrightarrow> length r < length s"
  by (auto simp: lex_number_def Let_def less_Suc_eq_le split: list.splits if_splits dest!: lex_frac_length
      intro: le_SucI order_trans [OF _ length_dropWhile_le])

datatype jtoken =
  TObj | TEndObj | TArr | TEndArr | TColon | TComma | TStr string | TNum | TTrue | TFalse | TNull

definition json_space :: "char \<Rightarrow> bool" where
  "json_space c \<longleftrightarrow> c \<in> {CHR '' '', CHR 0x09, CHR 0x0D, CHR 0x0A}"

definition punct :: "char \<Rightarrow> jtoken option" where
  "punct c =
     (if c = CHR ''{'' then Some TObj else if c = CHR ''}'' then Some TEndObj
      else if c = CHR ''['' then Some TArr else if c = CHR '']'' then Some TEndArr
      else if c = CHR '':'' then Some TColon else if c = CHR '','' then Some TComma else None)"

text \<open>The tokens of a text.\<close>

function json_lex :: "string \<Rightarrow> jtoken list option" where
  "json_lex [] = Some []"
| "json_lex (c # cs) =
     (if json_space c then json_lex cs
      else case punct c of
        Some t \<Rightarrow> map_option ((#) t) (json_lex cs)
      | None \<Rightarrow>
          if c = CHR 0x22 then
            (case lex_string cs of None \<Rightarrow> None | Some (b, r) \<Rightarrow> map_option ((#) (TStr (unquote b))) (json_lex r))
          else if take 4 (c # cs) = ''true'' then map_option ((#) TTrue) (json_lex (drop 3 cs))
          else if take 5 (c # cs) = ''false'' then map_option ((#) TFalse) (json_lex (drop 4 cs))
          else if take 4 (c # cs) = ''null'' then map_option ((#) TNull) (json_lex (drop 3 cs))
          else (case lex_number (c # cs) of None \<Rightarrow> None | Some r \<Rightarrow> map_option ((#) TNum) (json_lex r)))"
  by pat_completeness auto
termination
  by (relation "measure length") (auto dest: lex_string_length lex_number_length)

declare json_lex.simps(2) [simp del]

text \<open>
  The grammar as a pushdown automaton over the tokens, which at the same time does what the decoder
  does for a target of type \<open>map[string]string\<close>: a member of the outermost object whose value is a
  string is stored, one whose value is null or of another type is stored as the empty string, and
  another type is remembered as an error.
\<close>

datatype jctx = InObj | InArr

datatype jexp = ExpValue | ExpKeyOrEnd | ExpKey | ExpColon | ExpCommaOrEnd | ExpValueOrEnd | ExpDone

record jstate =
  jexp :: jexp
  jstack :: "jctx list"
  jkey :: string
  jentries :: "(string \<times> string) list"
  jwrong :: bool
  jnil :: bool

definition jstart :: jstate where
  "jstart = \<lparr>jexp = ExpValue, jstack = [], jkey = [], jentries = [], jwrong = False, jnil = False\<rparr>"

definition after_value :: "jctx list \<Rightarrow> jexp" where
  "after_value st = (if st = [] then ExpDone else ExpCommaOrEnd)"

definition jscalar :: "jstate \<Rightarrow> jtoken \<Rightarrow> jstate" where
  "jscalar j t =
     (let j' = j\<lparr>jexp := after_value (jstack j)\<rparr> in
      if jstack j = [] then (if t = TNull then j'\<lparr>jnil := True\<rparr> else j'\<lparr>jwrong := True\<rparr>)
      else if jstack j = [InObj] then
        (case t of
           TStr s \<Rightarrow> j'\<lparr>jentries := jentries j @ [(jkey j, s)]\<rparr>
         | TNull \<Rightarrow> j'\<lparr>jentries := jentries j @ [(jkey j, [])]\<rparr>
         | _ \<Rightarrow> j'\<lparr>jentries := jentries j @ [(jkey j, [])], jwrong := True\<rparr>)
      else j')"

definition maxNestingDepth :: nat where "maxNestingDepth = 10000"

definition jopen :: "jstate \<Rightarrow> jctx \<Rightarrow> jstate option" where
  "jopen j x =
     (if maxNestingDepth \<le> length (jstack j) then None
      else
        let j' = j\<lparr>jstack := x # jstack j, jexp := (if x = InObj then ExpKeyOrEnd else ExpValueOrEnd)\<rparr> in
        if jstack j = [] then Some (if x = InArr then j'\<lparr>jwrong := True\<rparr> else j')
        else if jstack j = [InObj] then Some (j'\<lparr>jentries := jentries j @ [(jkey j, [])], jwrong := True\<rparr>)
        else Some j')"

definition jclose :: "jstate \<Rightarrow> jstate" where
  "jclose j = j\<lparr>jstack := tl (jstack j), jexp := after_value (tl (jstack j))\<rparr>"

fun jstep :: "jstate \<Rightarrow> jtoken \<Rightarrow> jstate option" where
  "jstep j TObj = (if jexp j \<in> {ExpValue, ExpValueOrEnd} then jopen j InObj else None)"
| "jstep j TArr = (if jexp j \<in> {ExpValue, ExpValueOrEnd} then jopen j InArr else None)"
| "jstep j TEndObj =
     (if jexp j \<in> {ExpKeyOrEnd, ExpCommaOrEnd} \<and> take 1 (jstack j) = [InObj] then Some (jclose j) else None)"
| "jstep j TEndArr =
     (if jexp j \<in> {ExpValueOrEnd, ExpCommaOrEnd} \<and> take 1 (jstack j) = [InArr] then Some (jclose j) else None)"
| "jstep j TColon = (if jexp j = ExpColon then Some (j\<lparr>jexp := ExpValue\<rparr>) else None)"
| "jstep j TComma =
     (if jexp j = ExpCommaOrEnd
      then Some (j\<lparr>jexp := (if take 1 (jstack j) = [InObj] then ExpKey else ExpValue)\<rparr>) else None)"
| "jstep j (TStr s) =
     (if jexp j \<in> {ExpKey, ExpKeyOrEnd}
      then Some (j\<lparr>jkey := (if jstack j = [InObj] then s else jkey j), jexp := ExpColon\<rparr>)
      else if jexp j \<in> {ExpValue, ExpValueOrEnd} then Some (jscalar j (TStr s)) else None)"
| "jstep j t = (if jexp j \<in> {ExpValue, ExpValueOrEnd} then Some (jscalar j t) else None)"

fun jsteps :: "jstate \<Rightarrow> jtoken list \<Rightarrow> jstate option" where
  "jsteps j [] = Some j"
| "jsteps j (t # ts) = (case jstep j t of None \<Rightarrow> None | Some j' \<Rightarrow> jsteps j' ts)"

definition SyntaxError :: error where "SyntaxError = LibError ''json: syntax error''"
definition UnmarshalTypeError :: error where "UnmarshalTypeError = LibError ''json: cannot unmarshal value into string''"

text \<open>\<open>None\<close> is the nil map, which \<open>null\<close> leaves behind.\<close>

definition json_Unmarshal :: "string \<Rightarrow> (string, string) gomap \<Rightarrow> (string, string) gomap option \<times> err" where
  "json_Unmarshal data m =
     (case json_lex data of
        None \<Rightarrow> (Some m, Some SyntaxError)
      | Some ts \<Rightarrow>
          (case jsteps jstart ts of
             None \<Rightarrow> (Some m, Some SyntaxError)
           | Some j \<Rightarrow>
               if jexp j \<noteq> ExpDone then (Some m, Some SyntaxError)
               else if jnil j then (None, nil)
               else (Some (fold (\<lambda>(k, v). mset_to k v) (jentries j) m),
                     if jwrong j then Some UnmarshalTypeError else nil)))"


section \<open>Round trip\<close>

lemma of_char_hexdigit: "n < 16 \<Longrightarrow> (of_char (hexdigit n) :: nat) = (if n < 10 then 48 + n else 87 + n)"
  by (simp add: hexdigit_def)

lemma hexval_hexdigit [simp]: "n < 16 \<Longrightarrow> hexval (hexdigit n) = Some n"
  by (simp add: hexval_def of_char_hexdigit Let_def)

lemma hexval_numerals [simp]: "hexval CHR ''0'' = Some 0" "hexval CHR ''2'' = Some 2"
  by (simp_all add: hexval_def Let_def)

lemma char_of_nat_of_char [simp]: "char_of (of_char c :: nat) = c"
  by simp

lemma escape_u:
  fixes c :: char
  assumes "(of_char c :: nat) < 128"
  shows "getu4 ([CHR ''0'', CHR ''0'', hexdigit (of_char c div 16), hexdigit (of_char c mod 16)] @ x) = Some (of_char c)"
proof -
  have "of_char c div 16 < (16 :: nat)" using assms by simp
  then show ?thesis by (simp add: getu4_def)
qed

lemma escape_cases:
  obtains (safe) "html_safe c" "json_escape c = [c]"
  | (short) e where "json_escape c = [CHR 0x5C, e]" "unescape e = c" "e \<noteq> CHR ''u''"
      "e \<in> {CHR ''b'', CHR ''f'', CHR ''n'', CHR ''r'', CHR ''t'', CHR 0x5C, CHR ''/'', CHR 0x22}"
  | (hex) "json_escape c =
      [CHR 0x5C, CHR ''u'', CHR ''0'', CHR ''0'', hexdigit (of_char c div 16), hexdigit (of_char c mod 16)]"
proof (cases "html_safe c")
  case False
  consider "c = CHR 0x5C" | "c = CHR 0x22" | "c = CHR 0x08" | "c = CHR 0x0C" | "c = CHR 0x0A" | "c = CHR 0x0D" | "c = CHR 0x09"
    | "c \<notin> {CHR 0x5C, CHR 0x22, CHR 0x08, CHR 0x0C, CHR 0x0A, CHR 0x0D, CHR 0x09}" by blast
  then show ?thesis
  proof cases
    case 8
    with False hex show ?thesis by (simp add: json_escape_def)
  qed (use False in \<open>auto intro!: short simp: json_escape_def unescape_def\<close>)
qed (use safe in \<open>simp add: json_escape_def\<close>)

lemma lex_escape:
  assumes "(of_char c :: nat) < 128"
  shows "lex_string (json_escape c @ x) = map_option (\<lambda>(b, r). (json_escape c @ b, r)) (lex_string x)"
proof (cases c rule: escape_cases)
  case safe
  then show ?thesis by (simp add: lex_string.simps(2) html_safe_def)
next
  case (short e)
  then show ?thesis by (simp add: lex_string.simps(2))
next
  case hex
  then show ?thesis using escape_u [OF assms, of x] by (simp add: lex_string.simps(2))
qed

lemma unquote_escape:
  assumes "(of_char c :: nat) < 128"
  shows "unquote (json_escape c @ x) = c # unquote x"
proof (cases c rule: escape_cases)
  case safe
  then show ?thesis using assms by (simp add: unquote.simps(2) html_safe_def)
next
  case (short e)
  then show ?thesis by (simp add: unquote.simps(2))
next
  case hex
  moreover have "\<not> surrogate (of_char c)" "encode_rune (of_char c) = [c]"
    using assms by (simp_all add: surrogate_def encode_rune_def)
  ultimately show ?thesis using escape_u [OF assms, of x] by (simp add: unquote.simps(2))
qed

lemma seq_high:
  "seq2 c c1 \<Longrightarrow> 128 \<le> (of_char c1 :: nat)"
  "seq3 c c1 c2 \<Longrightarrow> 128 \<le> (of_char c1 :: nat) \<and> 128 \<le> (of_char c2 :: nat) \<and> \<not> seq2 c d"
  "seq4 c c1 c2 c3 \<Longrightarrow> 128 \<le> (of_char c1 :: nat) \<and> 128 \<le> (of_char c2 :: nat) \<and> 128 \<le> (of_char c3 :: nat) \<and>
     \<not> seq2 c d \<and> \<not> seq3 c d e"
  by (auto simp: seq2_def seq3_def seq4_def cont_def split: if_splits)

text \<open>A rune of several bytes.\<close>

lemma rune_cases:
  assumes "rune_len (c # cs) \<noteq> 0" "128 \<le> (of_char c :: nat)"
  obtains p q where "cs = p @ q" "rune_len (c # cs) = Suc (length p)" "\<forall>d\<in>set p. 128 \<le> (of_char d :: nat)"
    "\<forall>x. rune_len (c # p @ x) = Suc (length p)"
proof -
  from assms consider c1 cs1 where "cs = c1 # cs1" "seq2 c c1"
    | c1 c2 cs2 where "cs = c1 # c2 # cs2" "seq3 c c1 c2" "\<not> seq2 c c1"
    | c1 c2 c3 cs3 where "cs = c1 # c2 # c3 # cs3" "seq4 c c1 c2 c3" "\<not> seq2 c c1" "\<not> seq3 c c1 c2"
    by (auto simp: rune_len.simps(2) split: list.splits if_splits)
  then show ?thesis
  proof cases
    case 1
    with that [of "[c1]" cs1] assms(2) seq_high(1) show ?thesis by (simp add: rune_len.simps(2))
  next
    case 2
    with that [of "[c1, c2]" cs2] assms(2) seq_high(2) show ?thesis by (simp add: rune_len.simps(2))
  next
    case 3
    with that [of "[c1, c2, c3]" cs3] assms(2) seq_high(3) show ?thesis by (simp add: rune_len.simps(2))
  qed
qed

lemma lex_high:
  "\<forall>d\<in>set p. 128 \<le> (of_char d :: nat) \<Longrightarrow>
   lex_string (p @ x) = map_option (\<lambda>(b, r). (p @ b, r)) (lex_string x)"
proof (induction p)
  case Nil
  show ?case by (cases "lex_string x") auto
next
  case (Cons d p)
  then have "128 \<le> (of_char d :: nat)" by simp
  then have "d \<noteq> CHR 0x22 \<and> d \<noteq> CHR 0x5C \<and> \<not> (of_char d :: nat) < 32" by auto
  with Cons show ?case by (cases "lex_string x") (auto simp: lex_string.simps(2))
qed

lemma line_separatorE:
  assumes "line_separator s"
  obtains d ds where "s = CHR 0xE2 # CHR 0x80 # d # ds" "d = CHR 0xA8 \<or> d = CHR 0xA9"
proof -
  have "s = take 3 s @ drop 3 s" by simp
  with assms that show ?thesis unfolding line_separator_def by (metis append_Cons append_Nil insert_iff singletonD)
qed

lemma json_body_steps:
  assumes "utf8_valid s" "s \<noteq> []"
  obtains (ascii) c cs where "s = c # cs" "(of_char c :: nat) < 128" "json_body s = json_escape c @ json_body cs" "utf8_valid cs"
  | (separator) c cs where "s = CHR 0xE2 # CHR 0x80 # c # cs" "c = CHR 0xA8 \<or> c = CHR 0xA9" "utf8_valid cs"
      "json_body s = [CHR 0x5C, CHR ''u'', CHR ''2'', CHR ''0'', CHR ''2'', hexdigit (of_char c mod 16)] @ json_body cs"
  | (rune) c p cs where "s = (c # p) @ cs" "\<forall>d\<in>set (c # p). 128 \<le> (of_char d :: nat)" "utf8_valid cs"
      "\<forall>x. rune_len (c # p @ x) = Suc (length p)" "json_body s = (c # p) @ json_body cs"
proof -
  from assms(2) obtain c cs where s: "s = c # cs" by (cases s) simp_all
  with assms have n: "rune_len (c # cs) \<noteq> 0" "utf8_valid (drop (rune_len (c # cs)) (c # cs))"
    by (simp_all only: utf8_valid.simps [of "c # cs"] split: if_splits)
  show ?thesis
  proof (cases "(of_char c :: nat) < 128")
    case True
    with n ascii s show ?thesis by (simp add: json_body.simps(2) rune_len_ascii)
  next
    case False
    then have "128 \<le> (of_char c :: nat)" by simp
    from n(1) this obtain p q where pq: "cs = p @ q" "rune_len (c # cs) = Suc (length p)"
      "\<forall>d\<in>set p. 128 \<le> (of_char d :: nat)" "\<forall>x. rune_len (c # p @ x) = Suc (length p)"
      by (rule rune_cases)
    show ?thesis
    proof (cases "line_separator s")
      case True
      then obtain d ds where "s = CHR 0xE2 # CHR 0x80 # d # ds" "d = CHR 0xA8 \<or> d = CHR 0xA9"
        by (rule line_separatorE)
      moreover from this have "rune_len s = 3" by (auto simp: rune_len.simps(2) seq2_def seq3_def cont_def)
      ultimately show ?thesis using separator [of d ds] n s True \<open>\<not> of_char c < 128\<close>
        by (simp add: json_body.simps(2))
    next
      case False
      with \<open>\<not> of_char c < 128\<close> n(1) pq s have "json_body s = (c # p) @ json_body q"
        by (simp add: json_body.simps(2))
      with rune [of c p q] pq n s \<open>128 \<le> of_char c\<close> show ?thesis by simp
    qed
  qed
qed


lemma separator_bytes:
  "char_of (226 :: nat) = CHR 0xE2" "char_of (128 :: nat) = CHR 0x80"
  "char_of (168 :: nat) = CHR 0xA8" "char_of (169 :: nat) = CHR 0xA9"
  "char_of (239 :: nat) = CHR 0xEF" "char_of (191 :: nat) = CHR 0xBF" "char_of (189 :: nat) = CHR 0xBD"
  by code_simp+

lemma json_body_roundtrip:
  "utf8_valid s \<Longrightarrow> lex_string (json_body s @ CHR 0x22 # x) = Some (json_body s, x) \<and> unquote (json_body s) = s"
proof (induction "length s" arbitrary: s rule: less_induct)
  case less
  show ?case
  proof (cases "s = []")
    case True
    then show ?thesis by (simp add: lex_string.simps(2))
  next
    case False
    with less.prems show ?thesis
    proof (cases rule: json_body_steps)
      case (ascii c cs)
      with less.hyps [of cs] lex_escape [OF ascii(2)] unquote_escape [OF ascii(2)] show ?thesis by simp
    next
      case (separator c cs)
      with less.hyps [of cs] show ?thesis
        by (auto simp: lex_string.simps(2) unquote.simps(2) getu4_def surrogate_def encode_rune_def separator_bytes)
    next
      case (rune c p cs)
      have "unquote ((c # p) @ json_body cs) = (c # p) @ unquote (json_body cs)"
        using rune(2,4) by (auto simp: unquote.simps(2))
      with rune less.hyps [of cs] lex_high [OF rune(2)] show ?thesis by simp
    qed
  qed
qed

lemma lex_json_string:
  assumes "utf8_valid s"
  shows "json_lex (json_string s @ x) = map_option ((#) (TStr s)) (json_lex x)"
  using json_body_roundtrip [OF assms, of x]
  by (simp add: json_string_def json_lex.simps(2) json_space_def punct_def)

fun member_tokens :: "(string \<times> string) list \<Rightarrow> jtoken list" where
  "member_tokens [] = []"
| "member_tokens [(k, v)] = [TStr k, TColon, TStr v]"
| "member_tokens ((k, v) # es) = [TStr k, TColon, TStr v, TComma] @ member_tokens es"

lemma lex_punct: "punct c = Some t \<Longrightarrow> json_lex (c # cs) = map_option ((#) t) (json_lex cs)"
  by (auto simp: json_lex.simps(2) json_space_def punct_def split: if_splits)

lemma lex_members:
  assumes "\<forall>(k, v)\<in>set es. utf8_valid k \<and> utf8_valid v"
  shows "json_lex (json_members es @ x) = map_option ((@) (member_tokens es)) (json_lex x)"
  using assms
proof (induction es rule: json_members.induct)
  case 1
  then show ?case by (cases "json_lex x") auto
next
  case (2 k v)
  then show ?case
    by (cases "json_lex x") (auto simp: lex_json_string lex_punct punct_def)
next
  case (3 k v e es)
  then show ?case
    by (cases "json_lex x") (auto simp: lex_json_string lex_punct punct_def)
qed

lemma jsteps_append: "jsteps j (ts @ us) = (case jsteps j ts of None \<Rightarrow> None | Some j' \<Rightarrow> jsteps j' us)"
  by (induction ts arbitrary: j) (auto split: option.splits)

lemma jsteps_members:
  assumes "jstack j = [InObj]" "jexp j = ExpKey \<or> jexp j = ExpKeyOrEnd" "es \<noteq> []"
  shows "\<exists>k. jsteps j (member_tokens es) = Some (j\<lparr>jexp := ExpCommaOrEnd, jkey := k, jentries := jentries j @ es\<rparr>)"
  using assms
proof (induction es arbitrary: j rule: member_tokens.induct)
  case (2 k v)
  then show ?case by (intro exI [of _ k]) (auto simp: jscalar_def after_value_def Let_def)
next
  case (3 k v e es)
  let ?j = "j\<lparr>jkey := k, jentries := jentries j @ [(k, v)], jexp := ExpKey\<rparr>"
  have "jsteps j (member_tokens ((k, v) # e # es)) = jsteps ?j (member_tokens (e # es))"
    using "3.prems" by (auto simp: jscalar_def after_value_def Let_def)
  with "3.IH" [of ?j] "3.prems" show ?case by auto
qed simp

lemma Marshal_tokens:
  assumes "\<forall>(k, v)\<in>set m. utf8_valid k \<and> utf8_valid v"
  shows "json_lex (json_Marshal m) = Some ([TObj] @ member_tokens (sort_key fst m) @ [TEndObj])"
  using assms by (simp add: json_Marshal_def lex_punct punct_def lex_members)

lemma Marshal_steps:
  "\<exists>j. jsteps jstart ([TObj] @ member_tokens es @ [TEndObj]) = Some j \<and> jexp j = ExpDone \<and> \<not> jnil j \<and> \<not> jwrong j \<and>
     jentries j = es"
proof (cases "es = []")
  case True
  then show ?thesis
    by (simp add: jstart_def jopen_def jclose_def after_value_def maxNestingDepth_def Let_def)
next
  case False
  let ?j = "jstart\<lparr>jstack := [InObj], jexp := ExpKeyOrEnd\<rparr>"
  obtain k where "jsteps ?j (member_tokens es) = Some (?j\<lparr>jexp := ExpCommaOrEnd, jkey := k, jentries := jentries ?j @ es\<rparr>)"
    using jsteps_members [of ?j es] False by auto
  moreover have "jstep jstart TObj = Some ?j"
    by (simp add: jstart_def jopen_def maxNestingDepth_def Let_def)
  ultimately show ?thesis
    by (simp add: jsteps_append jclose_def after_value_def jstart_def)
qed

lemma Unmarshal_Marshal:
  assumes "\<forall>(k, v)\<in>set m. utf8_valid k \<and> utf8_valid v"
  shows "json_Unmarshal (json_Marshal m) m' = (Some (fold (\<lambda>(k, v). mset_to k v) (sort_key fst m) m'), nil)"
proof -
  from Marshal_steps [of "sort_key fst m"] obtain j where
    "jsteps jstart ([TObj] @ member_tokens (sort_key fst m) @ [TEndObj]) = Some j"
    "jexp j = ExpDone" "\<not> jnil j" "\<not> jwrong j" "jentries j = sort_key fst m" by blast
  with Marshal_tokens [OF assms] show ?thesis by (simp add: json_Unmarshal_def)
qed

end
