(* ===== verification/Mem_Snapshot.thy ===== *)
theory Mem_Snapshot
  imports Go_Json
begin

text \<open>
  The snapshot functions of the in-memory store of \<open>kv/mem_kv.go\<close>: its contents as JSON and back,
  and its printed form.
\<close>

definition MemStore_GetSnapshot :: "MemStore \<Rightarrow> string \<times> err" where
  "MemStore_GetSnapshot m = (json_Marshal (mem_kv m), nil)"

text \<open>\<open>None\<close> is the store whose map is nil: it reads as empty, and the next put panics.\<close>

definition MemStore_RecoverFromSnapshot :: "MemStore \<Rightarrow> string \<Rightarrow> MemStore option \<times> err" where
  "MemStore_RecoverFromSnapshot m snapshot =
     (case json_Unmarshal snapshot (mem_kv m) of
        (kv, e) \<Rightarrow> (map_option (\<lambda>kv. m\<lparr>mem_kv := kv\<rparr>) kv, if e \<noteq> nil then e else nil))"

text \<open>What \<open>Printf\<close> writes: \<open>fmt\<close> prints the entries of a map in the order of its keys.\<close>

fun printed_entries :: "(string \<times> string) list \<Rightarrow> string" where
  "printed_entries [] = []"
| "printed_entries [(k, v)] = k @ '':'' @ v"
| "printed_entries ((k, v) # es) = k @ '':'' @ v @ '' '' @ printed_entries es"

definition MemStore_Printf :: "MemStore \<Rightarrow> string" where
  "MemStore_Printf m = ''map['' @ printed_entries (sort_key fst (mem_kv m)) @ '']'' @ [CHR 0x0A]"

lemma fold_mset_to:
  "mget (fold (\<lambda>(k, v). mset_to k v) es m) = mget m ++ map_of (rev es)"
  "mwf m \<Longrightarrow> mwf (fold (\<lambda>(k, v). mset_to k v) es m)"
  by (induction es arbitrary: m) (auto simp: gm.get_put_fun gomap_simps map_add_def fun_eq_iff split: option.splits)

lemma map_of_sorted:
  assumes "mwf m" shows "map_of (rev (sort_key fst m)) = mget m"
proof -
  have "distinct (map fst (rev (sort_key fst m)))"
    using assms by (simp add: mwf_def distinct_map rev_map[symmetric])
  then have "map_of (rev (sort_key fst m)) = map_of m"
    using assms by (intro map_of_eqI) (auto simp: mwf_def map_of_eq_Some_iff)
  then show ?thesis by (simp add: mget_def fun_eq_iff)
qed

lemma fold_mset_dom: "dom (mget m) \<subseteq> dom (mget (fold (\<lambda>(k, v). mset_to k v) es m))"
  by (simp add: fold_mset_to(1))

lemma Unmarshal_adds:
  "json_Unmarshal data m = (Some m', e) \<Longrightarrow>
   m' = m \<or> (\<exists>es. m' = fold (\<lambda>(k, v). mset_to k v) es m) \<and> e \<noteq> Some SyntaxError"
  by (auto simp: json_Unmarshal_def SyntaxError_def UnmarshalTypeError_def split: option.splits if_splits)

text \<open>The stores whose keys and values are UTF-8 text.\<close>

definition utf8_store :: "MemStore \<Rightarrow> bool" where
  "utf8_store m = list_all (\<lambda>(k, v). utf8_valid k \<and> utf8_valid v) (mem_kv m)"

section \<open>Properties\<close>

text \<open>
  C20: a snapshot can be recovered. For a store whose keys and values are UTF-8 text, recovering its
  snapshot succeeds on every store, and what results is the recovering store overridden by the one
  the snapshot was taken of: on a new store, exactly that one. This covers every character the
  encoder escapes, among them quotes, control characters, the characters of HTML and the line
  separators of Unicode.
\<close>

theorem snapshot_roundtrip:
  assumes "mem_ok m" "mem_ok m'" "utf8_store m"
  shows "\<exists>m''. MemStore_RecoverFromSnapshot m' (fst (MemStore_GetSnapshot m)) = (Some m'', nil) \<and> mem_ok m'' \<and>
           mem_view m'' = mem_view m' ++ mem_view m"
proof -
  have "\<forall>(k, v)\<in>set (mem_kv m). utf8_valid k \<and> utf8_valid v" using assms(3) by (simp add: utf8_store_def list_all_iff)
  from Unmarshal_Marshal [OF this, of "mem_kv m'"] assms(1,2) show ?thesis
    by (simp add: MemStore_RecoverFromSnapshot_def MemStore_GetSnapshot_def mem_ok_def mem_view_def fold_mset_to map_of_sorted)
qed

theorem snapshot_roundtrip_witness:
  "\<exists>m''. MemStore_RecoverFromSnapshot \<lparr>mem_kv = [(''y'', ''2'')]\<rparr>
      (fst (MemStore_GetSnapshot \<lparr>mem_kv = [(''x'', [CHR 0x22, CHR 0xE2, CHR 0x80, CHR 0xA8])]\<rparr>)) = (Some m'', nil) \<and>
     mem_view m'' ''y'' = Some ''2'' \<and> mem_view m'' ''x'' = Some [CHR 0x22, CHR 0xE2, CHR 0x80, CHR 0xA8]"
proof -
  have "utf8_store \<lparr>mem_kv = [(''x'', [CHR 0x22, CHR 0xE2, CHR 0x80, CHR 0xA8])]\<rparr>" by code_simp
  moreover have "mem_view \<lparr>mem_kv = [(k, v)]\<rparr> = [k \<mapsto> v]" for k v by (simp add: mem_view_def mget_def fun_eq_iff)
  ultimately show ?thesis
    using snapshot_roundtrip [of "\<lparr>mem_kv = [(''x'', [CHR 0x22, CHR 0xE2, CHR 0x80, CHR 0xA8])]\<rparr>" "\<lparr>mem_kv = [(''y'', ''2'')]\<rparr>"]
    by (auto simp: mem_ok_def mwf_def)
qed

text \<open>
  Recovering never forgets. Whatever bytes it is given, a recovery that leaves a map behind
  keeps every key the store had, since the decoder adds to the existing map, and one that fails on
  the syntax of the snapshot changes nothing. A store that has gone past a snapshot is therefore
  not taken back to it.
\<close>

theorem snapshot_only_adds:
  assumes "MemStore_RecoverFromSnapshot m snapshot = (Some m', e)"
  shows "dom (mem_view m) \<subseteq> dom (mem_view m') \<and> (e = Some SyntaxError \<longrightarrow> m' = m)"
proof -
  from assms obtain kv where kv: "json_Unmarshal snapshot (mem_kv m) = (Some kv, e)" "m' = m\<lparr>mem_kv := kv\<rparr>"
    by (auto simp: MemStore_RecoverFromSnapshot_def split: prod.splits if_splits)
  have "dom (mget (mem_kv m)) \<subseteq> dom (mget kv)"
    using Unmarshal_adds [OF kv(1)] fold_mset_dom by (metis subset_refl)
  moreover have "e = Some SyntaxError \<longrightarrow> m' = m" using Unmarshal_adds [OF kv(1)] kv(2) by auto
  ultimately show ?thesis using kv(2) by (simp add: mem_view_def)
qed

theorem snapshot_only_adds_witness:
  "dom (mem_view \<lparr>mem_kv = [(''y'', ''2'')]\<rparr>) \<subseteq> dom (mem_view \<lparr>mem_kv = [(''y'', ''2''), (''x'', [])]\<rparr>)"
  by (rule snapshot_only_adds [where snapshot = "[CHR ''{'', CHR 0x22, CHR ''x'', CHR 0x22, CHR '':'', CHR ''1'', CHR ''}'']"
      and e = "Some UnmarshalTypeError", THEN conjunct1])
    code_simp

text \<open>
  Bytes that are not UTF-8 do not survive: the encoder writes the replacement character for them.
\<close>

theorem snapshot_replaces_bytes:
  "MemStore_RecoverFromSnapshot \<lparr>mem_kv = []\<rparr> (fst (MemStore_GetSnapshot \<lparr>mem_kv = [(''x'', [CHR 0xFF])]\<rparr>)) =
   (Some \<lparr>mem_kv = [(''x'', [CHR 0xEF, CHR 0xBF, CHR 0xBD])]\<rparr>, nil)"
  by (simp add: MemStore_RecoverFromSnapshot_def MemStore_GetSnapshot_def json_Unmarshal_def json_Marshal_def json_string_def
      json_body.simps json_escape_def html_safe_def rune_len.simps json_lex.simps json_space_def punct_def lex_string.simps
      unquote.simps getu4_def hexval_def Let_def surrogate_def encode_rune_def
      jstart_def jopen_def jclose_def jscalar_def after_value_def maxNestingDepth_def mset_to_def separator_bytes)

text \<open>The snapshot \<open>null\<close> is accepted and leaves no map behind.\<close>

theorem snapshot_null:
  "MemStore_RecoverFromSnapshot m ''null'' = (None, nil)"
  by (simp add: MemStore_RecoverFromSnapshot_def json_Unmarshal_def json_lex.simps json_space_def punct_def
      jstart_def jscalar_def after_value_def Let_def)

end
