(* ===== verification/Trace_Log.thy ===== *)
theory Trace_Log
  imports Go_Strings
begin

text \<open>
  Tracing, \<open>curp/trace/log.go\<close>. The threshold of the source is the constant 0, so a call writes
  nothing; its arguments are evaluated all the same, which is why a proposal with an unknown
  operation code panics at its trace call (\<open>Propose_locked\<close>).
\<close>

section \<open>Topics and lines\<close>

datatype logTopic =
  ClientTopic | CommitTopic | ErrorTopic | InfoTopic | LeaderTopic | VoteTopic | FollowerTopic | FastTopic
  | SlowTopic | LogTopic | TermTopic | WarnTopic

fun topic_string :: "logTopic \<Rightarrow> string" where
  "topic_string ClientTopic = ''CLNT''"
| "topic_string CommitTopic = ''CMIT''"
| "topic_string ErrorTopic = ''ERRO''"
| "topic_string InfoTopic = ''INFO''"
| "topic_string LeaderTopic = ''LEAD''"
| "topic_string VoteTopic = ''VOTE''"
| "topic_string FollowerTopic = ''FOLW''"
| "topic_string FastTopic = ''FAST''"
| "topic_string SlowTopic = ''SLOW''"
| "topic_string LogTopic = ''LOG1''"
| "topic_string TermTopic = ''TERM''"
| "topic_string WarnTopic = ''WARN''"

definition debug1 :: int where
  "debug1 = 0"

text \<open>\<open>init\<close>: the flags of the standard logger without date (1) and time (2).\<close>

definition trace_init :: "uint64 \<Rightarrow> uint64" where
  "trace_init flags = and flags (not 3)"

text \<open>The calls of \<open>log.Printf\<close> for a threshold and a formatted time: format and arguments.\<close>

definition Trace_at :: "int \<Rightarrow> string \<Rightarrow> logTopic \<Rightarrow> int \<Rightarrow> string \<Rightarrow> 'a list \<Rightarrow> (string \<times> 'a list) list" where
  "Trace_at debug now topic nodeId format a =
     (if 1 \<le> debug then
        let prefix = ''['' @ now @ ''] '' @ topic_string topic @ '' ['' @ itoa nodeId @ ''] '' in
        [(prefix @ format, a)]
      else [])"

definition Trace :: "string \<Rightarrow> logTopic \<Rightarrow> int \<Rightarrow> string \<Rightarrow> 'a list \<Rightarrow> (string \<times> 'a list) list" where
  "Trace now topic nodeId format a = Trace_at debug1 now topic nodeId format a"

lemma trace_off: "Trace now topic nodeId format a = []"
  by (simp add: Trace_def Trace_at_def debug1_def)

text \<open>The topics are told apart by four letters each.\<close>

lemma topic_letters: "length (topic_string t) = 4" "topic_string s = topic_string t \<Longrightarrow> s = t"
proof -
  show "length (topic_string t) = 4" by (cases t) simp_all
  show "topic_string s = topic_string t \<Longrightarrow> s = t" by (cases s; cases t) simp_all
qed

end
