(* ===== verification/Gob_Nested.thy ===== *)
theory Gob_Nested
  imports Gob
begin

text \<open>
  \<open>encoding/gob\<close> for structs that hold structs and slices of structs: what \<open>command/command.go\<close>
  writes and reads, and what the benchmark server answers to a get. A stream is one message for the
  type of the value and for every struct and slice type inside it, each behind its length, and then
  the value. The numbers and names the process has given to its types are part of the type here.
\<close>

section \<open>Types and values\<close>

datatype gotype = TInt | TUint | TString | TStruct int string "(string \<times> gotype) list" | TSlice int string gotype

datatype gdata = DInt int | DUint nat | DString string | DStruct "(string \<times> gdata) list" | DSlice "gdata list"

text \<open>What a type message says: the fields of a struct or the elements of a slice, by type number.\<close>

datatype wire = WStruct "(string \<times> int) list" | WSlice int

fun type_id :: "gotype \<Rightarrow> int" where
  "type_id TInt = 2"
| "type_id TUint = 3"
| "type_id TString = 6"
| "type_id (TStruct i _ _) = i"
| "type_id (TSlice i _ _) = i"

section \<open>Encoding\<close>

text \<open>The name of a type is left out when it is empty, like every zero value.\<close>

definition enc_common :: "string \<Rightarrow> int \<Rightarrow> string" where
  "enc_common name i =
     (if name = [] then encodeUint 2 else encodeUint 1 @ enc_string name @ encodeUint 1) @
     encodeInt i @ encodeUint 0"

fun wire_message :: "int \<times> string \<times> wire \<Rightarrow> string" where
  "wire_message (i, name, WStruct fs) =
     encodeInt (- i) @ encodeUint 3 @ encodeUint 1 @ enc_common name i @
     encodeUint 1 @ encodeUint (length fs) @ concat (map enc_field_descr fs) @ encodeUint 0 @ encodeUint 0"
| "wire_message (i, name, WSlice e) =
     encodeInt (- i) @ encodeUint 2 @ encodeUint 1 @ enc_common name i @
     encodeUint 1 @ encodeInt e @ encodeUint 0 @ encodeUint 0"

text \<open>
  \<open>sendType\<close>: the messages for a type and the types inside it, outer types first, without those that
  were sent before; the numbers of all types sent so far.
\<close>

fun sendType :: "gotype \<Rightarrow> int list \<Rightarrow> string list \<times> int list"
  and sendFields :: "(string \<times> gotype) list \<Rightarrow> int list \<Rightarrow> string list \<times> int list" where
  "sendType (TStruct i name fs) sent =
     (if i \<in> set sent then ([], sent)
      else case sendFields fs (i # sent) of (ms, sent') \<Rightarrow>
        (wire_message (i, name, WStruct (map (\<lambda>(n, t). (n, type_id t)) fs)) # ms, sent'))"
| "sendType (TSlice i name e) sent =
     (if i \<in> set sent then ([], sent)
      else case sendType e (i # sent) of (ms, sent') \<Rightarrow> (wire_message (i, name, WSlice (type_id e)) # ms, sent'))"
| "sendType t sent = ([], sent)"
| "sendFields [] sent = ([], sent)"
| "sendFields ((n, t) # fs) sent =
     (case sendType t sent of (ms, sent') \<Rightarrow>
      case sendFields fs sent' of (ms', sent'') \<Rightarrow> (ms @ ms', sent''))"

text \<open>A field is left out when it is zero; a struct is always sent.\<close>

fun omitted :: "gdata \<Rightarrow> bool" where
  "omitted (DInt i) = (i = 0)"
| "omitted (DUint n) = (n = 0)"
| "omitted (DString s) = (s = [])"
| "omitted (DStruct _) = False"
| "omitted (DSlice vs) = (vs = [])"

fun enc_data :: "gdata \<Rightarrow> string"
  and enc_struct :: "nat \<Rightarrow> (string \<times> gdata) list \<Rightarrow> string"
  and enc_elems :: "gdata list \<Rightarrow> string" where
  "enc_data (DInt i) = encodeInt i"
| "enc_data (DUint n) = encodeUint n"
| "enc_data (DString s) = enc_string s"
| "enc_data (DStruct fs) = enc_struct 0 fs"
| "enc_data (DSlice vs) = encodeUint (length vs) @ enc_elems vs"
| "enc_struct d [] = encodeUint 0"
| "enc_struct d ((n, v) # fs) =
     (if omitted v then enc_struct (Suc d) fs else encodeUint (Suc d) @ enc_data v @ enc_struct 0 fs)"
| "enc_elems [] = []"
| "enc_elems (v # vs) = enc_data v @ enc_elems vs"

definition gob_Encode :: "gotype \<Rightarrow> gdata \<Rightarrow> string" where
  "gob_Encode t v = concat (map enc_string (fst (sendType t []))) @ enc_string (encodeInt (type_id t) @ enc_data v)"

section \<open>Decoding\<close>

definition dec_common :: "string \<Rightarrow> string option" where
  "dec_common s = do {
     (d, r) \<leftarrow> decodeUint s;
     r1 \<leftarrow> (if d = 2 then Some r
           else if d = 1 then do { (name, q) \<leftarrow> dec_string r; expect_uint 1 q }
           else None);
     (i, r2) \<leftarrow> decodeInt r1;
     expect_uint 0 r2 }"

definition dec_wire :: "string \<Rightarrow> wire option" where
  "dec_wire s = do {
     (k, r) \<leftarrow> decodeUint s;
     r1 \<leftarrow> expect_uint 1 r;
     r2 \<leftarrow> dec_common r1;
     r3 \<leftarrow> expect_uint 1 r2;
     if k = 3 then do {
       (n, r4) \<leftarrow> decodeUint r3;
       (fs, r5) \<leftarrow> dec_field_descrs n r4;
       Some (WStruct fs) }
     else if k = 2 then do {
       (e, r4) \<leftarrow> decodeInt r3;
       Some (WSlice e) }
     else None }"

text \<open>The decoder reads type messages until a value comes: the types, the number of the value's type and its bytes.\<close>

lemma decodeUint_shorter: "decodeUint s = Some (n, r) \<Longrightarrow> length r < length s"
  by (auto simp: decodeUint_def Let_def split: list.splits if_splits)

lemma dec_string_shorter: "dec_string s = Some (m, r) \<Longrightarrow> length r < length s"
  by (auto simp: dec_string_def dest!: decodeUint_shorter split: Option.bind_splits if_splits)

function decodeTypeSequence :: "(int \<times> wire) list \<Rightarrow> string \<Rightarrow> ((int \<times> wire) list \<times> int \<times> string) option" where
  "decodeTypeSequence tb s =
     (case dec_string s of None \<Rightarrow> None
      | Some (m, r) \<Rightarrow>
          (case decodeInt m of None \<Rightarrow> None
           | Some (i, b) \<Rightarrow>
               if 0 \<le> i then Some (tb, i, b)
               else if - i \<in> fst ` set tb then None
               else case dec_wire b of None \<Rightarrow> None
                 | Some w \<Rightarrow> decodeTypeSequence ((- i, w) # tb) r))"
  by pat_completeness auto
termination
  by (relation "measure (\<lambda>(tb, s). length s)") (auto dest: dec_string_shorter)

declare decodeTypeSequence.simps [simp del]

text \<open>A struct is decoded to the fields that were sent; the others keep their zero value.\<close>

function dec_struct :: "(int \<Rightarrow> string \<Rightarrow> ('v \<times> string) option) \<Rightarrow> (string \<times> int) list \<Rightarrow> string \<Rightarrow>
  ((string \<times> 'v) list \<times> string) option" where
  "dec_struct dv ws s =
     (case decodeUint s of None \<Rightarrow> None
      | Some (d, r) \<Rightarrow>
          if d = 0 then Some ([], r)
          else if length ws < d then None
          else case dv (snd (ws ! (d - 1))) r of None \<Rightarrow> None
            | Some (v, r') \<Rightarrow>
                (case dec_struct dv (drop d ws) r' of None \<Rightarrow> None
                 | Some (vs, q) \<Rightarrow> Some ((fst (ws ! (d - 1)), v) # vs, q)))"
  by pat_completeness auto
termination
  by (relation "measure (\<lambda>(dv, ws, s). length ws)") auto

declare dec_struct.simps [simp del]

fun dec_elems :: "(string \<Rightarrow> ('v \<times> string) option) \<Rightarrow> nat \<Rightarrow> string \<Rightarrow> ('v list \<times> string) option" where
  "dec_elems dv 0 s = Some ([], s)"
| "dec_elems dv (Suc n) s = do { (v, r) \<leftarrow> dv s; (vs, q) \<leftarrow> dec_elems dv n r; Some (v # vs, q) }"

text \<open>
  The fuel bounds the nesting of types, which can be cyclic. Every level takes a byte at least, so the
  length of the value is enough (\<open>dec_data_fuel\<close>).
\<close>

primrec dec_data :: "(int \<times> wire) list \<Rightarrow> nat \<Rightarrow> int \<Rightarrow> string \<Rightarrow> (gdata \<times> string) option" where
  "dec_data tb 0 t s = None"
| "dec_data tb (Suc f) t s =
     (if t = 2 then map_option (\<lambda>(i, r). (DInt i, r)) (decodeInt s)
      else if t = 3 then map_option (\<lambda>(n, r). (DUint n, r)) (decodeUint s)
      else if t = 6 then map_option (\<lambda>(x, r). (DString x, r)) (dec_string s)
      else case map_of tb t of
        None \<Rightarrow> None
      | Some (WStruct ws) \<Rightarrow> map_option (\<lambda>(fs, r). (DStruct fs, r)) (dec_struct (dec_data tb f) ws s)
      | Some (WSlice e) \<Rightarrow> do {
          (n, r) \<leftarrow> decodeUint s;
          map_option (\<lambda>(vs, q). (DSlice vs, q)) (dec_elems (dec_data tb f e) n r) })"

text \<open>
  The type that was sent has to fit the one that is decoded into: fields are matched by name, and
  fields one of the two does not have do not matter.
\<close>

fun compatible :: "(int \<times> wire) list \<Rightarrow> gotype \<Rightarrow> int \<Rightarrow> bool"
  and fields_compatible :: "(int \<times> wire) list \<Rightarrow> (string \<times> gotype) list \<Rightarrow> (string \<times> int) list \<Rightarrow> bool" where
  "compatible tb TInt i = (i = 2)"
| "compatible tb TUint i = (i = 3)"
| "compatible tb TString i = (i = 6)"
| "compatible tb (TStruct _ _ fs) i =
     (case map_of tb i of Some (WStruct ws) \<Rightarrow> fields_compatible tb fs ws | _ \<Rightarrow> False)"
| "compatible tb (TSlice _ _ t) i = (case map_of tb i of Some (WSlice e) \<Rightarrow> compatible tb t e | _ \<Rightarrow> False)"
| "fields_compatible tb [] ws = True"
| "fields_compatible tb ((n, t) # fs) ws =
     (list_all (\<lambda>(m, j). m = n \<longrightarrow> compatible tb t j) ws \<and> fields_compatible tb fs ws)"

text \<open>A struct none of whose fields was sent is refused.\<close>

fun matched :: "(int \<times> wire) list \<Rightarrow> gotype \<Rightarrow> int \<Rightarrow> bool" where
  "matched tb (TStruct _ _ fs) i =
     (case map_of tb i of
        Some (WStruct ws) \<Rightarrow> fs = [] \<or> ws = [] \<or> list_ex (\<lambda>(m, _). m \<in> fst ` set fs) ws
      | _ \<Rightarrow> False)"
| "matched tb t i = True"

definition gob_Decode :: "gotype \<Rightarrow> string \<Rightarrow> gdata option" where
  "gob_Decode local s = do {
     (tb, i, b) \<leftarrow> decodeTypeSequence [] s;
     if compatible tb local i \<and> matched tb local i then map_option fst (dec_data tb (Suc (length b)) i b) else None }"

section \<open>Decoding consumes its input\<close>

lemma decodeInt_shorter: "decodeInt s = Some (i, r) \<Longrightarrow> length r < length s"
  by (auto simp: decodeInt_def dest: decodeUint_shorter split: option.splits)

lemma dec_struct_shorter:
  "dec_struct dv ws s = Some (vs, q) \<Longrightarrow> (\<And>t s v r. dv t s = Some (v, r) \<Longrightarrow> length r < length s) \<Longrightarrow>
   length q < length s"
proof (induction dv ws s arbitrary: vs q rule: dec_struct.induct)
  case (1 dv ws s)
  from "1.prems"(1) obtain d r where d: "decodeUint s = Some (d, r)"
    by (cases "decodeUint s") (auto simp: dec_struct.simps [of dv ws s])
  show ?case
  proof (cases "d = 0")
    case True
    with "1.prems"(1) d have "q = r" by (simp add: dec_struct.simps [of dv ws s])
    with d show ?thesis by (simp add: decodeUint_shorter)
  next
    case False
    with "1.prems"(1) d obtain v r' vs' where
      r: "\<not> length ws < d" "dv (snd (ws ! (d - 1))) r = Some (v, r')" "dec_struct dv (drop d ws) r' = Some (vs', q)"
      by (simp add: dec_struct.simps [of dv ws s] split: option.splits if_splits prod.splits)
    have "length q < length r'" using "1.prems"(2) by (rule "1.IH" [OF d refl False r(1,2) refl r(3)])
    with "1.prems"(2) [OF r(2)] decodeUint_shorter [OF d] show ?thesis by simp
  qed
qed

lemma dec_elems_shorter:
  assumes "\<And>s v r. dv s = Some (v, r) \<Longrightarrow> length r < length s"
  shows "dec_elems dv n s = Some (vs, q) \<Longrightarrow> length q \<le> length s"
proof (induction n arbitrary: s vs)
  case (Suc n)
  then obtain v r vs' where "dv s = Some (v, r)" "dec_elems dv n r = Some (vs', q)"
    by (auto split: Option.bind_splits)
  with assms [of s v r] Suc.IH [of r vs'] show ?case by simp
qed simp

lemma dec_data_shorter: "dec_data tb f t s = Some (v, r) \<Longrightarrow> length r < length s"
proof (induction f arbitrary: t s v r)
  case (Suc f)
  have "length q < length s" if "dec_struct (dec_data tb f) ws s = Some (vs, q)" for ws vs q
    using that by (rule dec_struct_shorter) (rule Suc.IH)
  moreover have "length q \<le> length p" if "dec_elems (dec_data tb f e) n p = Some (vs, q)" for e n vs p q
    by (rule dec_elems_shorter [OF _ that]) (rule Suc.IH)
  ultimately show ?case using Suc.prems
    by (fastforce dest: decodeUint_shorter decodeInt_shorter dec_string_shorter
        split: if_splits option.splits wire.splits Option.bind_splits)
qed simp

lemma dec_struct_cong:
  assumes "\<And>t s v r. dv t s = Some (v, r) \<Longrightarrow> length r < length s"
  shows "(\<And>t r. length r < length s \<Longrightarrow> dv t r = dv' t r) \<Longrightarrow> dec_struct dv ws s = dec_struct dv' ws s"
  using assms
proof (induction dv ws s rule: dec_struct.induct)
  case (1 dv ws s)
  show ?case
  proof (cases "decodeUint s")
    case (Some a)
    then obtain d r where a: "decodeUint s = Some (d, r)" by (cases a) simp
    then have r: "length r < length s" by (rule decodeUint_shorter)
    then have eq: "dv t r = dv' t r" for t by (rule "1.prems"(1))
    have "dec_struct dv (drop d ws) r' = dec_struct dv' (drop d ws) r'"
      if "d \<noteq> 0" "\<not> length ws < d" "dv (snd (ws ! (d - 1))) r = Some (v, r')" for v r'
    proof -
      have "length r' < length s" using "1.prems"(2) [OF that(3)] r by simp
      then have "dv t p = dv' t p" if "length p < length r'" for t p using that by (intro "1.prems"(1)) simp
      then show ?thesis using "1.prems"(2) by (rule "1.IH" [OF a refl that refl])
    qed
    with a eq show ?thesis
      by (simp add: dec_struct.simps [of dv ws s] dec_struct.simps [of dv' ws s] split: option.splits)
  qed (simp add: dec_struct.simps [of dv ws s] dec_struct.simps [of dv' ws s])
qed

lemma dec_elems_cong:
  assumes "\<And>s v r. dv s = Some (v, r) \<Longrightarrow> length r < length s"
  shows "(\<And>r. length r \<le> length s \<Longrightarrow> dv r = dv' r) \<Longrightarrow> dec_elems dv n s = dec_elems dv' n s"
proof (induction n arbitrary: s)
  case (Suc n)
  have "dec_elems dv n r = dec_elems dv' n r" if "dv s = Some (v, r)" for v r
    using assms [OF that] Suc.prems by (intro Suc.IH) simp
  with Suc.prems [of s] show ?case by (cases "dv' s") auto
qed simp

lemma dec_data_fuel: "length s < f \<Longrightarrow> length s < g \<Longrightarrow> dec_data tb f t s = dec_data tb g t s"
proof (induction f arbitrary: g t s)
  case (Suc f)
  then obtain h where h: "g = Suc h" by (cases g) simp_all
  have eq: "dec_data tb f e r = dec_data tb h e r" if "length r < length s" for e r
    using Suc.prems that h by (intro Suc.IH) simp_all
  then have "dec_struct (dec_data tb f) ws s = dec_struct (dec_data tb h) ws s" for ws
    using dec_data_shorter by (intro dec_struct_cong) blast+
  moreover have "dec_elems (dec_data tb f e) n r = dec_elems (dec_data tb h e) n r" if "decodeUint s = Some (n, r)" for e n r
    using dec_data_shorter eq decodeUint_shorter [OF that] by (intro dec_elems_cong) auto
  ultimately show ?case unfolding h
    by (auto split: option.splits wire.splits Option.bind_splits)
qed simp

section \<open>Round trip\<close>

text \<open>What arrives: the value without the fields that are left out.\<close>

fun sent :: "gdata \<Rightarrow> gdata"
  and sent_fields :: "(string \<times> gdata) list \<Rightarrow> (string \<times> gdata) list"
  and sent_elems :: "gdata list \<Rightarrow> gdata list" where
  "sent (DStruct fs) = DStruct (sent_fields fs)"
| "sent (DSlice vs) = DSlice (sent_elems vs)"
| "sent v = v"
| "sent_fields [] = []"
| "sent_fields ((n, v) # fs) = (if omitted v then sent_fields fs else (n, sent v) # sent_fields fs)"
| "sent_elems [] = []"
| "sent_elems (v # vs) = sent v # sent_elems vs"

text \<open>The values of a type whose numbers and lengths fit 64 bits.\<close>

fun fits :: "gotype \<Rightarrow> gdata \<Rightarrow> bool"
  and fields_fit :: "(string \<times> gotype) list \<Rightarrow> (string \<times> gdata) list \<Rightarrow> bool"
  and elems_fit :: "gotype \<Rightarrow> gdata list \<Rightarrow> bool" where
  "fits TInt (DInt i) = (- (2 ^ 63) \<le> i \<and> i < 2 ^ 63)"
| "fits TUint (DUint n) = (n < 2 ^ 64)"
| "fits TString (DString s) = (length s < 2 ^ 64)"
| "fits (TStruct _ _ ts) (DStruct fs) = (length fs < 2 ^ 64 \<and> fields_fit ts fs)"
| "fits (TSlice _ _ t) (DSlice vs) = (length vs < 2 ^ 64 \<and> elems_fit t vs)"
| "fits _ _ = False"
| "fields_fit [] [] = True"
| "fields_fit ((n, t) # ts) ((m, v) # fs) = (n = m \<and> fits t v \<and> fields_fit ts fs)"
| "fields_fit _ _ = False"
| "elems_fit t [] = True"
| "elems_fit t (v # vs) = (fits t v \<and> elems_fit t vs)"

text \<open>The struct and slice types of a type, in the order in which they are sent.\<close>

fun descriptors :: "gotype \<Rightarrow> (int \<times> string \<times> wire) list"
  and field_descriptors :: "(string \<times> gotype) list \<Rightarrow> (int \<times> string \<times> wire) list" where
  "descriptors (TStruct i name fs) = (i, name, WStruct (map (\<lambda>(n, t). (n, type_id t)) fs)) # field_descriptors fs"
| "descriptors (TSlice i name e) = (i, name, WSlice (type_id e)) # descriptors e"
| "descriptors _ = []"
| "field_descriptors [] = []"
| "field_descriptors ((n, t) # fs) = descriptors t @ field_descriptors fs"

definition descriptor_ok :: "int \<times> string \<times> wire \<Rightarrow> bool" where
  "descriptor_ok d = (case d of (i, name, w) \<Rightarrow>
     6 < i \<and> i < 2 ^ 62 \<and> length name < 2 ^ 64 \<and> length (wire_message d) < 2 ^ 64 \<and>
     (case w of WSlice e \<Rightarrow> - (2 ^ 62) \<le> e \<and> e < 2 ^ 62
      | WStruct fs \<Rightarrow> length fs < 2 ^ 64 \<and>
          (\<forall>(n, e)\<in>set fs. length n < 2 ^ 64 \<and> - (2 ^ 62) \<le> e \<and> e < 2 ^ 62)))"

text \<open>A table that knows the types inside a type.\<close>

fun wired :: "(int \<times> wire) list \<Rightarrow> gotype \<Rightarrow> bool"
  and fields_wired :: "(int \<times> wire) list \<Rightarrow> (string \<times> gotype) list \<Rightarrow> bool" where
  "wired tb (TStruct i _ fs) \<longleftrightarrow>
     6 < i \<and> map_of tb i = Some (WStruct (map (\<lambda>(n, t). (n, type_id t)) fs)) \<and> fields_wired tb fs"
| "wired tb (TSlice i _ e) \<longleftrightarrow> 6 < i \<and> map_of tb i = Some (WSlice (type_id e)) \<and> wired tb e"
| "wired tb _ \<longleftrightarrow> True"
| "fields_wired tb [] \<longleftrightarrow> True"
| "fields_wired tb ((n, t) # fs) \<longleftrightarrow> wired tb t \<and> fields_wired tb fs"

lemma decode_encodeInt64:
  assumes "- (2 ^ 63) \<le> i" "i < 2 ^ 63" shows "decodeInt (encodeInt i @ r) = Some (i, r)"
proof (cases "i < 0")
  case True
  with assms have "2 * nat (- i - 1) + 1 < (2::nat) ^ 64" by auto
  with True show ?thesis by (simp add: encodeInt_def decodeInt_def)
next
  case False
  with assms have "2 * nat i < (2::nat) ^ 64" by auto
  with False show ?thesis by (simp add: encodeInt_def decodeInt_def)
qed

lemma encodeUint_nonempty [simp]: "encodeUint x \<noteq> []"
  by (simp add: encodeUint_def Let_def)

lemma enc_struct_nonempty [simp]: "enc_struct d fs \<noteq> []"
  by (induction fs arbitrary: d) (auto split: if_splits)

lemma dec_struct_field:
  assumes "dv i (x @ r) = Some (v, r)" "dec_struct dv ws r = Some (vs, q)" "length ps < 2 ^ 64 - 1"
  shows "dec_struct dv (ps @ (n, i) # ws) (encodeUint (Suc (length ps)) @ x @ r) = Some ((n, v) # vs, q)"
proof -
  have "decodeUint (encodeUint (Suc (length ps)) @ x @ r) = Some (Suc (length ps), x @ r)" using assms(3) by simp
  with assms(1,2) show ?thesis by (simp add: dec_struct.simps [of dv "ps @ (n, i) # ws"] nth_append)
qed

lemma dec_enc_data:
  "fits t v \<Longrightarrow> wired tb t \<Longrightarrow> length (enc_data v) < f \<Longrightarrow> dec_data tb f (type_id t) (enc_data v @ r) = Some (sent v, r)"
  "fields_fit ts fs \<Longrightarrow> fields_wired tb ts \<Longrightarrow> length (enc_struct (length ps) fs) \<le> f \<Longrightarrow> length ps + length fs < 2 ^ 64 \<Longrightarrow>
   dec_struct (dec_data tb f) (ps @ map (\<lambda>(n, t). (n, type_id t)) ts) (enc_struct (length ps) fs @ r) = Some (sent_fields fs, r)"
  "elems_fit t vs \<Longrightarrow> wired tb t \<Longrightarrow> length (enc_elems vs) < f \<Longrightarrow>
   dec_elems (dec_data tb f (type_id t)) (length vs) (enc_elems vs @ r) = Some (sent_elems vs, r)"
proof (induction t v and ts fs and t vs arbitrary: f r and f r ps and f r rule: fits_fields_fit_elems_fit.induct)
  case (1 i)
  then show ?case by (cases f) (simp_all add: decode_encodeInt64)
next
  case (4 i name ts fs)
  then obtain g where g: "f = Suc g" by (cases f) simp_all
  with 4 show ?case using "4.IH" [of "[]" g r] by simp
next
  case (5 i name t vs)
  then obtain g where g: "f = Suc g" by (cases f) simp_all
  have "0 < length (encodeUint (length vs))" by simp
  then have "length (enc_elems vs) < g" using "5.prems" g by (simp del: length_greater_0_conv)
  with "5.IH" [of g r] "5.prems" g show ?case by simp
next
  case 7
  then show ?case by (simp add: dec_struct.simps)
next
  case (8 n t ts m v fs)
  show ?case
  proof (cases "omitted v")
    case True
    with "8.prems" "8.IH"(2) [of "ps @ [(n, type_id t)]" f r] show ?thesis by simp
  next
    case False
    have "0 < length (encodeUint (Suc (length ps)))" by simp
    then have "length (enc_data v) < f" "length (enc_struct 0 fs) < f" using "8.prems"(3) False by (simp_all del: length_greater_0_conv)
    then have "dec_data tb f (type_id t) (enc_data v @ enc_struct 0 fs @ r) = Some (sent v, enc_struct 0 fs @ r)"
      "dec_struct (dec_data tb f) (map (\<lambda>(n, t). (n, type_id t)) ts) (enc_struct 0 fs @ r) = Some (sent_fields fs, r)"
      using "8.prems" "8.IH"(1) [of f "enc_struct 0 fs @ r"] "8.IH"(2) [of "[]" f r] by simp_all
    with False "8.prems" dec_struct_field [of "dec_data tb f" "type_id t"] show ?thesis by simp
  qed
qed (auto simp: decode_encodeInt64 gr0_conv_Suc dest!: less_imp_Suc_add)

text \<open>The type messages.\<close>

lemma dec_common_enc [simp]:
  "6 < i \<Longrightarrow> i < 2 ^ 62 \<Longrightarrow> length name < 2 ^ 64 \<Longrightarrow> dec_common (enc_common name i @ r) = Some r"
  by (simp add: dec_common_def enc_common_def)

lemma dec_field_descrs_enc:
  "\<forall>(n, e)\<in>set fs. length n < 2 ^ 64 \<and> - (2 ^ 62) \<le> e \<and> e < 2 ^ 62 \<Longrightarrow>
   dec_field_descrs (length fs) (concat (map enc_field_descr fs) @ r) = Some (fs, r)"
  by (induction fs) (auto simp: dec_field_descr_def enc_field_descr_def)

lemma dec_wire_message:
  assumes "descriptor_ok (i, name, w)"
  obtains b where "decodeInt (wire_message (i, name, w)) = Some (- i, b)" "dec_wire b = Some w"
proof (cases w)
  case (WStruct fs)
  with assms have fs: "\<forall>(n, e)\<in>set fs. length n < 2 ^ 64 \<and> - (2 ^ 62) \<le> e \<and> e < 2 ^ 62" by (simp add: descriptor_ok_def)
  from that assms WStruct dec_field_descrs_enc [OF fs] show ?thesis
    by (simp add: descriptor_ok_def dec_wire_def)
next
  case (WSlice e)
  with that assms show ?thesis by (simp add: descriptor_ok_def dec_wire_def)
qed

abbreviation table_of :: "(int \<times> string \<times> wire) list \<Rightarrow> (int \<times> wire) list" where
  "table_of ds \<equiv> rev (map (\<lambda>(i, _, w). (i, w)) ds)"

lemma decodeTypeSequence_messages:
  assumes "0 \<le> i" "i < 2 ^ 62" "length (encodeInt i @ b) < 2 ^ 64"
  shows "list_all descriptor_ok ds \<Longrightarrow> distinct (map fst ds) \<Longrightarrow> fst ` set ds \<inter> fst ` set tb = {} \<Longrightarrow>
    decodeTypeSequence tb (concat (map (enc_string \<circ> wire_message) ds) @ enc_string (encodeInt i @ b)) =
    Some (table_of ds @ tb, i, b)"
proof (induction ds arbitrary: tb)
  case Nil
  from assms dec_enc_string [of "encodeInt i @ b" "[]"] show ?case
    by (simp add: decodeTypeSequence.simps)
next
  case (Cons d ds)
  obtain j name w where d: "d = (j, name, w)" by (cases d)
  with Cons.prems have ok: "descriptor_ok (j, name, w)" by simp
  then obtain c where c: "decodeInt (wire_message d) = Some (- j, c)" "dec_wire c = Some w"
    unfolding d by (rule dec_wire_message)
  from ok have j: "0 < j" "length (wire_message d) < 2 ^ 64" by (auto simp: descriptor_ok_def d)
  from Cons.prems d have "j \<notin> fst ` set tb" by auto
  moreover have "decodeTypeSequence ((j, w) # tb) (concat (map (enc_string \<circ> wire_message) ds) @ enc_string (encodeInt i @ b)) =
    Some (table_of ds @ (j, w) # tb, i, b)"
    using Cons.prems d by (intro Cons.IH) auto
  ultimately show ?case using c j
    by (subst decodeTypeSequence.simps) (simp add: d)
qed

lemma sendType_messages:
  "distinct (map fst (descriptors t)) \<Longrightarrow> set (map fst (descriptors t)) \<inter> set old = {} \<Longrightarrow>
   sendType t old = (map wire_message (descriptors t), rev (map fst (descriptors t)) @ old)"
  "distinct (map fst (field_descriptors fs)) \<Longrightarrow> set (map fst (field_descriptors fs)) \<inter> set old = {} \<Longrightarrow>
   sendFields fs old = (map wire_message (field_descriptors fs), rev (map fst (field_descriptors fs)) @ old)"
proof (induction t old and fs old rule: sendType_sendFields.induct)
  case (5 n t fs old)
  then have "sendType t old = (map wire_message (descriptors t), rev (map fst (descriptors t)) @ old)" by auto
  moreover have "set (map fst (field_descriptors fs)) \<inter> set (rev (map fst (descriptors t)) @ old) = {}"
    using "5.prems" by auto
  ultimately show ?case using "5.IH"(2) "5.prems"(1) by simp
qed auto

lemma wired_by_descriptors:
  "\<forall>(i, _, w)\<in>set (descriptors t). 6 < i \<and> map_of tb i = Some w \<Longrightarrow> wired tb t"
  "\<forall>(i, _, w)\<in>set (field_descriptors fs). 6 < i \<and> map_of tb i = Some w \<Longrightarrow> fields_wired tb fs"
  by (induction t and fs rule: descriptors_field_descriptors.induct) auto

lemma table_of_descriptors:
  assumes "distinct (map fst ds)" "(i, name, w) \<in> set ds" shows "map_of (table_of ds) i = Some w"
proof -
  have "map fst (map (\<lambda>(i, _, w). (i, w)) ds) = map fst ds" by auto
  with assms(1) have "distinct (map fst (table_of ds))" by (simp only: rev_map [symmetric] distinct_rev)
  moreover have "(i, w) \<in> set (table_of ds)" using assms(2) by force
  ultimately show ?thesis by (rule map_of_is_SomeI)
qed

fun well_named :: "gotype \<Rightarrow> bool"
  and fields_named :: "(string \<times> gotype) list \<Rightarrow> bool" where
  "well_named (TStruct _ _ fs) \<longleftrightarrow> distinct (map fst fs) \<and> fields_named fs"
| "well_named (TSlice _ _ t) \<longleftrightarrow> well_named t"
| "well_named _ \<longleftrightarrow> True"
| "fields_named [] \<longleftrightarrow> True"
| "fields_named ((n, t) # fs) \<longleftrightarrow> well_named t \<and> fields_named fs"

lemma wired_compatible:
  "wired tb t \<Longrightarrow> well_named t \<Longrightarrow> compatible tb t (type_id t)"
  "fields_wired tb fs \<Longrightarrow> fields_named fs \<Longrightarrow> distinct (map fst ws) \<Longrightarrow> set (map (\<lambda>(n, t). (n, type_id t)) fs) \<subseteq> set ws \<Longrightarrow>
   fields_compatible tb fs ws"
proof (induction tb t and tb fs arbitrary: and ws rule: wired_fields_wired.induct)
  case (5 tb n t fs)
  then have "m = n \<Longrightarrow> (m, j) \<in> set ws \<Longrightarrow> j = type_id t" for m j by (auto dest: eq_key_imp_eq_value)
  with 5 show ?case by (auto simp: list_all_iff)
qed (auto simp: comp_def case_prod_beta)

lemma wired_matched: "wired tb t \<Longrightarrow> matched tb t (type_id t)"
proof (cases t)
  case (TStruct i name fs)
  moreover assume "wired tb t"
  ultimately show ?thesis by (cases fs) auto
qed auto

lemma gob_roundtrip_nested:
  assumes "list_all descriptor_ok (descriptors t)" "distinct (map fst (descriptors t))" "well_named t" "descriptors t \<noteq> []"
    and "fits t v" "length (enc_data v) < 2 ^ 63"
  shows "gob_Decode t (gob_Encode t v) = Some (sent v)"
proof -
  let ?ds = "descriptors t"
  have id: "6 < type_id t" "type_id t < 2 ^ 62" using assms(1,4) by (cases t; auto simp: descriptor_ok_def)+
  have "\<forall>(i, _, w)\<in>set ?ds. 6 < i \<and> map_of (table_of ?ds) i = Some w"
    using assms(1) table_of_descriptors [OF assms(2)] by (fastforce simp: list_all_iff descriptor_ok_def)
  then have w: "wired (table_of ?ds) t" by (rule wired_by_descriptors)
  then have "compatible (table_of ?ds) t (type_id t)" using assms(3) by (intro wired_compatible)
  moreover have "matched (table_of ?ds) t (type_id t)" using w by (rule wired_matched)
  moreover have "length (encodeInt (type_id t) @ enc_data v) < 2 ^ 64"
    using id length_encodeInt [of "type_id t"] assms(6) by simp
  with id decodeTypeSequence_messages [of "type_id t" "enc_data v" ?ds "[]"] assms(1,2)
  have "decodeTypeSequence [] (gob_Encode t v) = Some (table_of ?ds, type_id t, enc_data v)"
    by (simp add: gob_Encode_def sendType_messages o_def)
  moreover have "dec_data (table_of ?ds) (Suc (length (enc_data v))) (type_id t) (enc_data v) = Some (sent v, [])"
    using dec_enc_data(1) [OF assms(5) w, of "Suc (length (enc_data v))" "[]"] by simp
  ultimately show ?thesis by (simp add: gob_Decode_def)
qed

text \<open>How long the encoding can get.\<close>

fun data_size :: "gdata \<Rightarrow> nat"
  and fields_size :: "(string \<times> gdata) list \<Rightarrow> nat"
  and elems_size :: "gdata list \<Rightarrow> nat" where
  "data_size (DString s) = 9 + length s"
| "data_size (DStruct fs) = fields_size fs"
| "data_size (DSlice vs) = 9 + elems_size vs"
| "data_size _ = 9"
| "fields_size [] = 9"
| "fields_size ((n, v) # fs) = 9 + data_size v + fields_size fs"
| "elems_size [] = 0"
| "elems_size (v # vs) = data_size v + elems_size vs"

lemma length_encodeInt64: "- (2 ^ 63) \<le> i \<Longrightarrow> i < 2 ^ 63 \<Longrightarrow> length (encodeInt i) \<le> 9"
  by (cases "i < 0") (auto simp: encodeInt_def intro!: length_encodeUint)

lemma length_enc_data:
  "fits t v \<Longrightarrow> length (enc_data v) \<le> data_size v"
  "fields_fit ts fs \<Longrightarrow> d + length fs < 2 ^ 64 \<Longrightarrow> length (enc_struct d fs) \<le> fields_size fs"
  "elems_fit t vs \<Longrightarrow> length (enc_elems vs) \<le> elems_size vs"
proof (induction t v and ts fs and t vs arbitrary: and d rule: fits_fields_fit_elems_fit.induct)
  case (5 i name t vs)
  then show ?case using length_encodeUint [of "length vs"] by simp
next
  case (8 n t ts m v fs)
  have "length (enc_struct (Suc d) fs) \<le> fields_size fs" "length (enc_struct 0 fs) \<le> fields_size fs"
    using "8.prems" by (intro "8.IH"; simp)+
  moreover have "length (encodeUint (Suc d)) \<le> 9" using "8.prems" by (intro length_encodeUint) simp
  ultimately show ?case using "8.IH"(1) "8.prems" by simp
qed (auto simp: length_encodeUint length_encodeInt64 length_enc_string)

section \<open>Fields of a decoded struct\<close>

text \<open>
  A field that was not sent has its zero value; a number that does not fit its field is an error. An
  encoder names each field once.
\<close>

definition uint_field :: "nat \<Rightarrow> string \<Rightarrow> (string \<times> gdata) list \<Rightarrow> nat option" where
  "uint_field w n fs =
     (case map_of fs n of None \<Rightarrow> Some 0
      | Some (DUint x) \<Rightarrow> if x < 2 ^ w then Some x else None
      | Some _ \<Rightarrow> None)"

definition string_field :: "string \<Rightarrow> (string \<times> gdata) list \<Rightarrow> string option" where
  "string_field n fs = (case map_of fs n of None \<Rightarrow> Some [] | Some (DString x) \<Rightarrow> Some x | Some _ \<Rightarrow> None)"

definition struct_field :: "string \<Rightarrow> (string \<times> gdata) list \<Rightarrow> (string \<times> gdata) list option" where
  "struct_field n fs = (case map_of fs n of None \<Rightarrow> Some [] | Some (DStruct gs) \<Rightarrow> Some gs | Some _ \<Rightarrow> None)"

fun struct_fields :: "gdata \<Rightarrow> (string \<times> gdata) list option" where
  "struct_fields (DStruct fs) = Some fs"
| "struct_fields _ = None"

lemma map_of_sent:
  "distinct (map fst fs) \<Longrightarrow>
   map_of (sent_fields fs) n = Option.bind (map_of fs n) (\<lambda>v. if omitted v then None else Some (sent v))"
proof (induction fs)
  case (Cons f fs)
  then show ?case by (cases f) (auto simp: map_of_eq_None_iff [symmetric])
qed simp

lemma sent_field:
  assumes "distinct (map fst fs)"
  shows "map_of fs n = Some (DUint x) \<Longrightarrow> x < 2 ^ w \<Longrightarrow> uint_field w n (sent_fields fs) = Some x"
    and "map_of fs n = Some (DString s) \<Longrightarrow> string_field n (sent_fields fs) = Some s"
    and "map_of fs n = Some (DStruct gs) \<Longrightarrow> struct_field n (sent_fields fs) = Some (sent_fields gs)"
  by (auto simp: uint_field_def string_field_def struct_field_def map_of_sent [OF assms])

section \<open>The command of \<open>command/command.go\<close>\<close>

record ClientCommand =
  cc_ProposeId :: ProposeId
  cc_Op :: uint32
  cc_Key :: string
  cc_Value :: string

definition ProposeId_fields :: "ProposeId \<Rightarrow> (string \<times> gdata) list" where
  "ProposeId_fields i = [(''ClientId'', DUint (unat (ClientId i))), (''SeqId'', DUint (unat (SeqId i)))]"

definition ClientCommand_fields :: "ClientCommand \<Rightarrow> (string \<times> gdata) list" where
  "ClientCommand_fields c =
     [(''ProposeId'', DStruct (ProposeId_fields (cc_ProposeId c))), (''Op'', DUint (unat (cc_Op c))),
      (''Key'', DString (cc_Key c)), (''Value'', DString (cc_Value c))]"

definition ClientCommand_type :: "int \<Rightarrow> int \<Rightarrow> gotype" where
  "ClientCommand_type tid pidt =
     TStruct tid ''ClientCommand''
       [(''ProposeId'', TStruct pidt ''ProposeId'' [(''ClientId'', TUint), (''SeqId'', TUint)]),
        (''Op'', TUint), (''Key'', TString), (''Value'', TString)]"

definition ClientCommand_Encode :: "int \<Rightarrow> int \<Rightarrow> ClientCommand \<Rightarrow> string" where
  "ClientCommand_Encode tid pidt c = gob_Encode (ClientCommand_type tid pidt) (DStruct (ClientCommand_fields c))"

text \<open>\<open>None\<close> is the \<open>log.Fatalf\<close>. The numbers of the types do not matter to the decoder.\<close>

definition ClientCommand_Decode :: "string \<Rightarrow> ClientCommand option" where
  "ClientCommand_Decode content = do {
     v \<leftarrow> gob_Decode (ClientCommand_type 0 0) content;
     fs \<leftarrow> struct_fields v;
     ps \<leftarrow> struct_field ''ProposeId'' fs;
     ci \<leftarrow> uint_field 64 ''ClientId'' ps;
     si \<leftarrow> uint_field 64 ''SeqId'' ps;
     op \<leftarrow> uint_field 32 ''Op'' fs;
     k \<leftarrow> string_field ''Key'' fs;
     v \<leftarrow> string_field ''Value'' fs;
     Some \<lparr>cc_ProposeId = \<lparr>ClientId = of_nat ci, SeqId = of_nat si\<rparr>, cc_Op = of_nat op, cc_Key = k, cc_Value = v\<rparr> }"

text \<open>The local type numbers do not matter.\<close>

lemma gob_Decode_ids: "gob_Decode (ClientCommand_type a b) = gob_Decode (ClientCommand_type c d)"
proof -
  have "compatible tb (ClientCommand_type a b) i = compatible tb (ClientCommand_type c d) i"
    "matched tb (ClientCommand_type a b) i = matched tb (ClientCommand_type c d) i" for tb i
    by (simp_all add: ClientCommand_type_def split: option.splits wire.splits)
  then show ?thesis by (simp add: fun_eq_iff gob_Decode_def)
qed

lemma ClientCommand_sent:
  assumes "6 < tid" "tid < 2 ^ 31" "6 < pidt" "pidt < 2 ^ 31" "tid \<noteq> pidt" "length (cc_Key c) + length (cc_Value c) < 2 ^ 32"
  shows "gob_Decode (ClientCommand_type tid pidt) (ClientCommand_Encode tid pidt c) =
         Some (DStruct (sent_fields (ClientCommand_fields c)))"
proof -
  let ?t = "ClientCommand_type tid pidt" and ?v = "DStruct (ClientCommand_fields c)"
  note u = unat_less_64 [of "ClientId (cc_ProposeId c)"] unat_less_64 [of "SeqId (cc_ProposeId c)"] unat_less_32 [of "cc_Op c"]
  have "list_all descriptor_ok (descriptors ?t)"
    using assms(1-4) length_encodeInt [of "- tid"] length_encodeInt [of tid] length_encodeInt [of "- pidt"] length_encodeInt [of pidt]
    by (simp add: ClientCommand_type_def descriptor_ok_def enc_common_def enc_field_descr_def enc_string_def encodeUint_def
        encodeInt_def [of 3] encodeInt_def [of 6])
  moreover have "fits ?t ?v" using u assms(6)
    by (simp add: ClientCommand_type_def ClientCommand_fields_def ProposeId_fields_def)
  moreover from this have "length (enc_data ?v) < 2 ^ 63"
    using length_enc_data(1) [of ?t ?v] assms(6) by (simp add: ClientCommand_fields_def ProposeId_fields_def)
  ultimately show ?thesis using assms(5) unfolding ClientCommand_Encode_def
    by (subst gob_roundtrip_nested) (simp_all add: ClientCommand_type_def)
qed

lemma ClientCommand_lookup:
  "struct_field ''ProposeId'' (sent_fields (ClientCommand_fields c)) = Some (sent_fields (ProposeId_fields (cc_ProposeId c)))"
  "uint_field 64 ''ClientId'' (sent_fields (ProposeId_fields i)) = Some (unat (ClientId i))"
  "uint_field 64 ''SeqId'' (sent_fields (ProposeId_fields i)) = Some (unat (SeqId i))"
  "uint_field 32 ''Op'' (sent_fields (ClientCommand_fields c)) = Some (unat (cc_Op c))"
  "string_field ''Key'' (sent_fields (ClientCommand_fields c)) = Some (cc_Key c)"
  "string_field ''Value'' (sent_fields (ClientCommand_fields c)) = Some (cc_Value c)"
  using unat_less_64 [of "ClientId i"] unat_less_64 [of "SeqId i"] unat_less_32 [of "cc_Op c"]
  by (intro sent_field; simp add: ClientCommand_fields_def ProposeId_fields_def)+

text \<open>
  A command in the older format reads back, whatever numbers the process has given to the two types.
\<close>

theorem legacy_command_roundtrip:
  assumes "6 < tid" "tid < 2 ^ 31" "6 < pidt" "pidt < 2 ^ 31" "tid \<noteq> pidt" "length (cc_Key c) + length (cc_Value c) < 2 ^ 32"
  shows "ClientCommand_Decode (ClientCommand_Encode tid pidt c) = Some c"
proof -
  have "gob_Decode (ClientCommand_type 0 0) (ClientCommand_Encode tid pidt c) = Some (DStruct (sent_fields (ClientCommand_fields c)))"
    using ClientCommand_sent [OF assms] gob_Decode_ids by metis
  then show ?thesis by (simp add: ClientCommand_Decode_def ClientCommand_lookup)
qed

theorem legacy_command_roundtrip_witness:
  "ClientCommand_Decode (ClientCommand_Encode 64 65
     \<lparr>cc_ProposeId = \<lparr>ClientId = 1, SeqId = 2 ^ 40\<rparr>, cc_Op = 0, cc_Key = ''k'', cc_Value = []\<rparr>) =
   Some \<lparr>cc_ProposeId = \<lparr>ClientId = 1, SeqId = 2 ^ 40\<rparr>, cc_Op = 0, cc_Key = ''k'', cc_Value = []\<rparr>"
  by (rule legacy_command_roundtrip) simp_all

end
