(* ===== verification/Bench_Answer.thy ===== *)
theory Bench_Answer
  imports Bench Gob_Nested
begin

text \<open>
  The bytes the benchmark server of \<open>curp_client/main.go\<close> answers a get with, and that a program with
  the same types reads the result out of them.
\<close>

section \<open>Encoding\<close>

definition bench_Command_fields :: "bench_Command \<Rightarrow> (string \<times> gdata) list" where
  "bench_Command_fields c =
     [(''Op'', DUint (unat (bench_Op c))), (''Key'', DString (bench_Key c)), (''Value'', DString (bench_Value c))]"

definition GetResponse_fields :: "GetResponse \<Rightarrow> (string \<times> gdata) list" where
  "GetResponse_fields g =
     [(''Count'', DInt (Count g)), (''Kvs'', DSlice (map (\<lambda>c. DStruct (bench_Command_fields c)) (Kvs g)))]"

text \<open>What the library has given to the three types: their numbers, and the name of the element type.\<close>

record answer_types =
  response_id :: int
  slice_id :: int
  command_id :: int
  command_name :: string

definition GetResponse_type :: "answer_types \<Rightarrow> gotype" where
  "GetResponse_type ids =
     TStruct (response_id ids) ''GetResponse''
       [(''Count'', TInt),
        (''Kvs'', TSlice (slice_id ids) ''[]*main.Command''
           (TStruct (command_id ids) (command_name ids) [(''Op'', TUint), (''Key'', TString), (''Value'', TString)]))]"

definition GetResponse_Encode :: "answer_types \<Rightarrow> GetResponse \<Rightarrow> string" where
  "GetResponse_Encode ids g = gob_Encode (GetResponse_type ids) (DStruct (GetResponse_fields g))"

text \<open>\<open>conn.Write\<close> of an answer.\<close>

fun conn_Write :: "answer_types \<Rightarrow> written \<Rightarrow> string" where
  "conn_Write ids (WriteGob resp) = GetResponse_Encode ids resp"
| "conn_Write ids (WriteRaw b) = b"

section \<open>Reading an answer\<close>

definition read_command :: "gdata \<Rightarrow> bench_Command option" where
  "read_command v = do {
     fs \<leftarrow> struct_fields v;
     op \<leftarrow> uint_field 8 ''Op'' fs;
     k \<leftarrow> string_field ''Key'' fs;
     x \<leftarrow> string_field ''Value'' fs;
     Some \<lparr>bench_Op = of_nat op, bench_Key = k, bench_Value = x\<rparr> }"

fun read_commands :: "gdata list \<Rightarrow> bench_Command list option" where
  "read_commands [] = Some []"
| "read_commands (v # vs) = do { c \<leftarrow> read_command v; cs \<leftarrow> read_commands vs; Some (c # cs) }"

definition read_answer :: "answer_types \<Rightarrow> string \<Rightarrow> GetResponse option" where
  "read_answer ids b = do {
     v \<leftarrow> gob_Decode (GetResponse_type ids) b;
     fs \<leftarrow> struct_fields v;
     n \<leftarrow> (case map_of fs ''Count'' of None \<Rightarrow> Some 0 | Some (DInt i) \<Rightarrow> Some i | _ \<Rightarrow> None);
     cs \<leftarrow> (case map_of fs ''Kvs'' of None \<Rightarrow> Some [] | Some (DSlice vs) \<Rightarrow> read_commands vs | _ \<Rightarrow> None);
     Some \<lparr>Count = n, Kvs = cs\<rparr> }"

definition types_ok :: "answer_types \<Rightarrow> bool" where
  "types_ok ids \<longleftrightarrow>
     distinct [response_id ids, slice_id ids, command_id ids] \<and>
     list_all (\<lambda>i. 6 < i \<and> i < 2 ^ 31) [response_id ids, slice_id ids, command_id ids] \<and>
     length (command_name ids) < 2 ^ 32"

definition answer_fits :: "GetResponse \<Rightarrow> bool" where
  "answer_fits g \<longleftrightarrow>
     - (2 ^ 63) \<le> Count g \<and> Count g < 2 ^ 63 \<and> length (Kvs g) < 2 ^ 16 \<and>
     (\<forall>c\<in>set (Kvs g). length (bench_Key c) < 2 ^ 32 \<and> length (bench_Value c) < 2 ^ 32)"

lemma read_command_sent: "read_command (sent (DStruct (bench_Command_fields c))) = Some c"
proof -
  let ?fs = "sent_fields (bench_Command_fields c)"
  have "uint_field 8 ''Op'' ?fs = Some (unat (bench_Op c))" "string_field ''Key'' ?fs = Some (bench_Key c)"
    "string_field ''Value'' ?fs = Some (bench_Value c)"
    using unat_less_8 [of "bench_Op c"] by (intro sent_field; simp add: bench_Command_fields_def)+
  then show ?thesis by (simp add: read_command_def)
qed

lemma read_commands_sent:
  "read_commands (sent_elems (map (\<lambda>c. DStruct (bench_Command_fields c)) cs)) = Some cs"
  by (induction cs) (simp_all add: read_command_sent del: sent.simps)

lemma answer_descriptors:
  assumes "types_ok ids" shows "list_all descriptor_ok (descriptors (GetResponse_type ids))"
  using assms length_enc_string [of "command_name ids"]
    length_encodeInt [of "response_id ids"] length_encodeInt [of "- response_id ids"]
    length_encodeInt [of "slice_id ids"] length_encodeInt [of "- slice_id ids"]
    length_encodeInt [of "command_id ids"] length_encodeInt [of "- command_id ids"]
  by (simp add: types_ok_def GetResponse_type_def descriptor_ok_def enc_common_def enc_field_descr_def enc_string_def
      encodeUint_def encodeInt_def [of 2] encodeInt_def [of 3] encodeInt_def [of 6])

lemma elems_of_commands:
  assumes "\<forall>c\<in>set cs. length (bench_Key c) < 2 ^ 32 \<and> length (bench_Value c) < 2 ^ 32"
  shows "elems_fit (TStruct k name [(''Op'', TUint), (''Key'', TString), (''Value'', TString)]) (map (\<lambda>c. DStruct (bench_Command_fields c)) cs)"
    "elems_size (map (\<lambda>c. DStruct (bench_Command_fields c)) cs) \<le> length cs * 2 ^ 34"
  using assms
proof (induction cs)
  case (Cons c cs)
  { case 1 then show ?case using Cons.IH(1) unat_less_8 [of "bench_Op c"] by (simp add: bench_Command_fields_def) }
  { case 2 then show ?case using Cons.IH(2) by (simp add: bench_Command_fields_def) }
qed simp_all

lemma read_answer_Encode:
  assumes "types_ok ids" "answer_fits g"
  shows "read_answer ids (GetResponse_Encode ids g) = Some g"
proof -
  let ?t = "GetResponse_type ids" and ?v = "DStruct (GetResponse_fields g)"
  note es = elems_of_commands [of "Kvs g"]
  have "fits ?t ?v" using assms(2) es(1) by (simp add: GetResponse_type_def GetResponse_fields_def answer_fits_def)
  moreover from this have "length (enc_data ?v) < 2 ^ 63"
    using length_enc_data(1) [of ?t ?v] es(2) assms(2) by (simp add: GetResponse_fields_def answer_fits_def)
  ultimately have "gob_Decode ?t (GetResponse_Encode ids g) = Some (sent ?v)"
    using assms(1) answer_descriptors [OF assms(1)] unfolding GetResponse_Encode_def
    by (intro gob_roundtrip_nested) (simp_all add: GetResponse_type_def types_ok_def)
  then show ?thesis
    by (simp add: read_answer_def GetResponse_fields_def read_commands_sent)
qed

section \<open>The property\<close>

text \<open>
  C31: the answer to a get can be read. When a get of at most 4096 bytes arrives over TCP and the client
  of the cluster returns a value for its key, the bytes the server writes decode, in a program with
  the same types, to one command with that key and that value, whatever bytes these hold.
\<close>

theorem get_answer_readable:
  assumes "0 < tid" "tid < 2 ^ 31" "bench_fits c" "bench_Op c = bench_GET" "length (bench_request tid c) \<le> 4096"
    and "Grpc_Get cl sync es (bench_Key c) = (cl', Returned (v, e))" "length v < 2 ^ 32" "types_ok ids"
  shows "\<exists>w. handleRequest (bench_request tid c) (Some cl) sync es = (Some cl', Returned (Some w)) \<and>
           read_answer ids (conn_Write ids w) = Some \<lparr>Count = 1, Kvs = [c\<lparr>bench_Value := v\<rparr>]\<rparr>"
proof -
  have "answer_fits \<lparr>Count = 1, Kvs = [c\<lparr>bench_Value := v\<rparr>]\<rparr>" using assms(3,7) by (simp add: answer_fits_def bench_fits_def)
  with read_answer_Encode [OF assms(8)] bench_request_dispatched [OF assms(1-3), of cl sync es] assms(4-6)
  show ?thesis by simp
qed

theorem get_answer_readable_witness:
  "\<exists>w. handleRequest (bench_request 65 \<lparr>bench_Op = 0, bench_Key = ''k'', bench_Value = []\<rparr>) (Some demo_client) (\<lambda>_ _. None)
         (acks [(2, demo_ack []), (1, demo_ack ''v''), (0, demo_ack [])]) =
       (Some (demo_client\<lparr>gc_SeqId := 1, gc_static := \<lparr>fast = 1, slow = 0\<rparr>\<rparr>), Returned (Some w)) \<and>
     read_answer \<lparr>response_id = 66, slice_id = 67, command_id = 65, command_name = []\<rparr>
       (conn_Write \<lparr>response_id = 66, slice_id = 67, command_id = 65, command_name = []\<rparr> w) =
     Some \<lparr>Count = 1, Kvs = [\<lparr>bench_Op = 0, bench_Key = ''k'', bench_Value = ''v''\<rparr>]\<rparr>"
proof -
  let ?c = "\<lparr>bench_Op = 0, bench_Key = ''k'', bench_Value = []\<rparr>"
  have "length (bench_request 65 ?c) \<le> 4096"
    by (simp add: bench_request_def gob_encode_def bench_fields_def descriptor_def enc_field_descr_def enc_string_def
        encodeUint_def encodeInt_def be_bytes.simps)
  then show ?thesis
    using get_answer_readable [of 65 ?c demo_client "\<lambda>_ _. None" "acks [(2, demo_ack []), (1, demo_ack ''v''), (0, demo_ack [])]"
        "demo_client\<lparr>gc_SeqId := 1, gc_static := \<lparr>fast = 1, slow = 0\<rparr>\<rparr>" "''v''" nil
        "\<lparr>response_id = 66, slice_id = 67, command_id = 65, command_name = []\<rparr>"]
    by (simp add: bench_fits_def bench_GET_def types_ok_def Grpc_Get_def Grpc_Get_command_def Grpc_Propose_def Grpc_fastRound_def demo_quorum
        demo_client_def demo_ack_def at_int_def Let_def Grpc_superQuorom_def quorum_of_eq Grpc_GetProposeId_def)
qed

end
