(* ===== verification/Conflict_Free.thy ===== *)
theory Conflict_Free
  imports Replica_Properties
begin

text \<open>
  Commands that do not conflict, which is what the fast path is for: the replica may execute them from
  the fast path, from the log or from both, in any order, and still ends with the store of its log.
\<close>

section \<open>Where commands come from\<close>

text \<open>The commands of a schedule: those that clients propose and those that raft commits.\<close>

definition commands_of :: "node_event list \<Rightarrow> CurpClientCommand set" where
  "commands_of es = {c. CallPropose c \<in> set es} \<union> {c. Some c \<in> set (map DecodeClientCommand (commit_data es))}"

fun carries :: "goroutine \<Rightarrow> CurpClientCommand set" where
  "carries (ProposeCalled c) = {c}"
| "carries (ProposeChecked c _) = {c}"
| "carries (SendsFast c) = {c}"
| "carries _ = {}"

definition from_set :: "CurpClientCommand set \<Rightarrow> 'kv node \<Rightarrow> bool" where
  "from_set C s \<longleftrightarrow>
     (\<forall>g\<in>set (goroutines s). carries g \<subseteq> C) \<and> set (cbuf (fastPath s)) \<subseteq> C \<and> set (executed s) \<subseteq> C \<and>
     {c. Some c \<in> set (pipeline s)} \<subseteq> C"

lemma commands_of_Cons: "commands_of (e # es) = commands_of [e] \<union> commands_of es"
  using commit_data_Cons [of e es] by (auto simp: commands_of_def)

lemma goroutine_carries:
  assumes "goroutine_step tid s g = Some (t, gs)"
  shows "\<forall>h\<in>set gs. carries h \<subseteq> carries g" "set (cbuf (fastPath t)) \<subseteq> set (cbuf (fastPath s)) \<union> carries g"
  using assms
  by (cases g; auto simp: Propose_witness_def Propose_locked_def Let_def split: prod.splits option.splits dispatch.splits
      outcome.splits if_splits dest!: chan_send_queue)+

lemma from_set_goroutines:
  assumes "node_step K tid s e t" "from_set C s" "commands_of [e] \<subseteq> C"
  shows "(\<forall>g\<in>set (goroutines t). carries g \<subseteq> C) \<and> set (cbuf (fastPath t)) \<subseteq> C"
proof (cases e)
  case (Sched n)
  with assms(1) obtain u gs where u: "n < length (goroutines s)" "goroutine_step tid s (goroutines s ! n) = Some (u, gs)"
      "t = u\<lparr>goroutines := replace_at n gs (goroutines s)\<rparr>" by (auto simp: sched_step)
  have g: "carries (goroutines s ! n) \<subseteq> C" using assms(2) nth_mem [OF u(1)] by (simp add: from_set_def)
  have "carries h \<subseteq> C" if "h \<in> set (goroutines t)" for h
  proof -
    have "h \<in> set gs \<or> h \<in> set (goroutines s)" using that u(3) set_replace_at [of n gs "goroutines s"] by auto
    with g goroutine_carries(1) [OF u(2)] assms(2) show ?thesis unfolding from_set_def by blast
  qed
  moreover have "set (cbuf (fastPath t)) \<subseteq> C"
    using u(3) g goroutine_carries(2) [OF u(2)] assms(2) by (auto simp: from_set_def)
  ultimately show ?thesis by blast
next
  case (TakeProposal b)
  with assms(1) have "goroutines t = goroutines s" "fastPath t = fastPath s"
    by (auto simp: node_step_def split: option.splits if_splits)
  with assms(2) show ?thesis by (simp add: from_set_def)
next
  case (CallPropose c)
  with assms show ?thesis by (auto simp: node_step_def from_set_def commands_of_def)
next
  case WorkerFast
  with assms show ?thesis
    by (auto simp: node_step_def from_set_def elim!: worker_fast_cases dest!: execute_frame [OF disjI1] chan_recv_queue)
next
  case WorkerSlow
  with assms show ?thesis
    by (auto simp: node_step_def from_set_def elim!: worker_slow_cases dest!: execute_frame [OF disjI2])
qed (use assms in \<open>auto simp: node_step_def from_set_def listenRaftState_def worker_continue_frame readCommits_frames
    split: option.splits if_splits\<close>)

lemma from_set_executed:
  assumes "node_step K tid s e t" "from_set C s" shows "set (executed t) \<subseteq> C"
proof (cases e)
  case WorkerFast
  with assms show ?thesis
    by (auto simp: node_step_def from_set_def elim!: worker_fast_cases dest!: execute_frame [OF disjI1] chan_recv_queue)
next
  case WorkerSlow
  with assms show ?thesis
    by (auto simp: node_step_def from_set_def pipeline_def elim!: worker_slow_cases dest!: execute_frame [OF disjI2] chan_recv_queue)
qed (use assms exec_frame [OF assms(1)] in \<open>auto simp: from_set_def\<close>)

lemma from_set_step:
  assumes "node_step K tid s e t" "from_set C s" "commands_of [e] \<subseteq> C" shows "from_set C t"
proof -
  have "{c. Some c \<in> set (pipeline t)} \<subseteq> C"
    using pipeline_step [OF assms(1)] assms(2,3) by (auto simp: from_set_def commands_of_def)
  with from_set_goroutines [OF assms] from_set_executed [OF assms(1,2)] show ?thesis by (simp add: from_set_def)
qed

lemma from_set_run: "run (node_step K tid) s es t \<Longrightarrow> from_set C s \<Longrightarrow> commands_of es \<subseteq> C \<Longrightarrow> from_set C t"
proof (induction rule: run.induct)
  case (run_cons s l t ls u)
  then show ?case using from_set_step [of K tid s l t C] commands_of_Cons [of l ls] by simp
qed simp

lemma run_commands:
  assumes "run (node_step K tid) (new_node n kv) es s"
  shows "set (executed s) \<subseteq> commands_of es" "set (consumed s) \<subseteq> commands_of es"
proof -
  have "from_set (commands_of es) (new_node n kv :: 'a node)"
    by (simp add: from_set_def new_node_defs pipeline_def make_chan_def)
  from from_set_run [OF assms this] show "set (executed s) \<subseteq> commands_of es" "set (consumed s) \<subseteq> commands_of es"
    by (auto simp: from_set_def pipeline_def)
qed

section \<open>The property\<close>

text \<open>
  C16: without conflicts it does not matter which path a command took. Take any schedule in which no two of
  the commands that are proposed or committed conflict or share an identifier, on a replica that leads,
  follows or changes between the two. Once every command it has executed is among those it has taken from the
  log, its store is the one the log produces, although it may have executed commands in another order
  than the log's, and some of them twice.
\<close>

theorem conflict_free_replica_agrees:
  assumes "run (mem_node_step tid) (new_node n (fst NewMemStore)) es s" "conflict_free (commands_of es)"
    and "pid ` set (executed s) \<subseteq> pid ` set (consumed s)"
  shows "mem_view (sm_KVStore s) = apply_all (consumed s) Map.empty"
proof -
  let ?C = "commands_of es"
  note sets = run_commands [OF assms(1)]
  have "reach mem_start (mem_node_step tid) s" by (rule reach_run [OF assms(1)], rule reach_init) blast
  from node_executed.holds_reachable [OF this] have "pid ` set (consumed s) \<subseteq> pid ` set (executed s)"
    unfolding executed_inv_def by blast
  with assms(3) have "pid ` set (executed s) = pid ` set (consumed s)" by blast
  moreover have "inj_on pid ?C" using assms(2) unfolding conflict_free_def inj_on_def by blast
  ultimately have "set (executed s) = set (consumed s)" using inj_on_image_eq_iff [OF _ sets, of pid] by blast
  from conflict_free_same_store [OF assms(2) sets(1) this [symmetric], of Map.empty] show ?thesis
    unfolding mem_run_store [OF assms(1)] .
qed

text \<open>
  A leader that executes a put of one client from the fast path and takes a put of another client to
  another key from the log first.
\<close>

definition free_events :: "node_event list" where
  "free_events =
     [StateChange StateLeader, CallPropose demo_put, Sched 0, Sched 0, Sched 1, WorkerFast, WorkerContinue, Sched 0,
      Commit [CurpClientCommand_Encode 64 demo_other, CurpClientCommand_Encode 64 demo_put],
      PushCommit, WorkerSlow, WorkerContinue, WorkerContinue, PushCommit, WorkerSlow, WorkerContinue, WorkerContinue]"

lemma demo_other_facts:
  "Op demo_other = 0" "CmdClientId demo_other = 1" "CmdSeqId demo_other = 2" "Key demo_other = ''y''" "Value demo_other = ''2''" "pid demo_other = \<lparr>ClientId = 1, SeqId = 2\<rparr>"
  "DecodeClientCommand (CurpClientCommand_Encode 64 demo_other) = Some demo_other"
  by (simp_all add: demo_other_def CurpClientCommand_ProposeId_def opcode_simps,
      rule DecodeClientCommand_Encode, simp_all add: command_fits_def)

theorem conflict_free_replica_agrees_witness:
  "\<exists>s. run (mem_node_step 64) (new_node 1 (fst NewMemStore)) free_events s \<and>
     executed s = [demo_put, demo_other] \<and> consumed s = [demo_other, demo_put] \<and>
     mem_view (sm_KVStore s) = apply_all [demo_other, demo_put] Map.empty"
proof -
  have "\<exists>s. run (mem_node_step 64) (new_node 1 (fst NewMemStore)) free_events s \<and>
      executed s = [demo_put, demo_other] \<and> consumed s = [demo_other, demo_put]"
    unfolding node_performs_run [symmetric]
    by (simp add: node_eval free_events_def demo_fields demo_other_facts)
  then obtain s where s: "run (mem_node_step 64) (new_node 1 (fst NewMemStore)) free_events s"
      "executed s = [demo_put, demo_other]" "consumed s = [demo_other, demo_put]" by blast
  have "commands_of free_events = {demo_put, demo_other}"
    by (auto simp: commands_of_def free_events_def demo_other_facts)
  then have "conflict_free (commands_of free_events)"
    by (simp add: conflict_free_def Conflict_iff demo_fields demo_other_facts)
  from conflict_free_replica_agrees [OF s(1) this] s show ?thesis by auto
qed

end
