(* ===== verification/Spec2Isabelle.thy ===== *)
theory Spec2Isabelle
  imports Prelude Go_Runtime Command Gob KV_Store Command_Order Witness Board State_Machine
    Replica_Properties Client Cluster Raft_Node Raft_Start Disk_Stores
    Go_Strings Config Bench Server
    Progress Proposal_Progress Sync_Progress Go_Json Mem_Snapshot Trace_Log
    Gob_Nested Bench_Answer Conflict_Free
begin

text \<open>
  \<^bold>\<open>CURP replication: a verification development\<close>

  The program replicates a key-value store with raft and answers commands that do not
  conflict in one round trip, before they are ordered (the CURP protocol). A client sends a
  command to all replicas (\<open>curp/client_grpc.go\<close>, \<open>curp/client.go\<close>). Each replica asks its
  witness (\<open>curp/witness\<close>) whether a command it accepted and has not seen committed conflicts
  with it. The leader also executes the command at once (\<open>curp/state.go\<close>, the fast path),
  publishes the result on its command board (\<open>curp/command/cmd_board.go\<close>) and hands the encoded
  command to its raft node (\<open>curp/raft.go\<close>). Committed entries come back over a channel; the
  worker of every replica executes those it has not executed (the slow path), wakes the clients
  that wait for synchronisation, and removes the command from the witness. A client is done when
  a super quorum accepted, and otherwise asks the leader to synchronise.

  \<^bold>\<open>Theories\<close>

  \<^item> \<open>Prelude\<close>: sized integers, Go errors, reachability, runs and the locale \<open>invariant_of\<close>, which
    every invariant of the development interprets.
  \<^item> \<open>Go_Runtime\<close>: Go maps (association lists, locale \<open>finite_table\<close>) and buffered channels (locale
    \<open>bounded_fifo\<close>), each interpreted on the model's operations.
  \<^item> \<open>Command\<close>, \<open>Gob\<close>: identifiers, codes, messages, \<open>Conflict\<close> (\<open>curp_proto/command_extend.go\<close>)
    and the gob stream that \<open>Encode\<close> writes and the commit reader decodes, byte by byte. The type
    number the encoder assigns is the parameter \<open>tid\<close>.
  \<^item> \<open>Gob_Nested\<close>: the same for structs that hold structs and slices, with the type messages and the
    matching of fields by name, and the older command of \<open>command/command.go\<close>, which nothing uses.
  \<^item> \<open>KV_Store\<close>: the interface of \<open>kv/kv.go\<close> as a table of methods, its contract as the locales
    \<open>kv_map\<close> (the contents), \<open>kv_store\<close> (also the reported old values) and \<open>reliable_kv\<close>, and
    \<open>kv/mem_kv.go\<close>, which interprets them.
  \<^item> \<open>Command_Order\<close>: what commands mean for an abstract store and which reorderings keep it. This
    is the specification the replica is compared with.
  \<^item> \<open>Witness\<close>: the witness and its contract, the locale \<open>conflict_filter\<close>.
  \<^item> \<open>Board\<close>: the command board. Its operations are cut where a goroutine can park; \<open>board_step\<close>
    interleaves them.
  \<^item> \<open>State_Machine\<close>: \<open>curp/state.go\<close> and the handler of \<open>curp/state_grpc.go\<close>. The functions of
    the source come first. \<open>node\<close> adds the goroutines of one process: the handlers of \<open>Propose\<close> and
    \<open>WaitSynced\<close>, the goroutines they start, the worker, the commit reader and the state listener.
    \<open>node_step\<close> lets any of them run up to its next scheduling point. Three history fields record
    the executed commands, the answers with their positions, and the consumed log.
  \<^item> \<open>Replica\<close>, \<open>Replica_Properties\<close>: invariants of one replica for every schedule, and its
    properties with concrete runs.
  \<^item> \<open>Conflict_Free\<close>: a replica, leading or not, whose commands do not conflict.
  \<^item> \<open>Progress\<close>, \<open>Proposal_Progress\<close>, \<open>Sync_Progress\<close>: what a replica can do by its own steps, in
    schedules that propose, commit and synchronise each identifier at most once: the worker, a
    proposal and a synchronisation request can each be brought to their end.
  \<^item> \<open>Client\<close>: both clients. The answers of the replicas are events in order of arrival.
    \<open>fast_quorum\<close> is the contract of the quorum size, interpreted on \<open>superQuorom\<close>.
  \<^item> \<open>Cluster\<close>: replicas and clients together: what an accepting reply vouches for.
  \<^item> \<open>Raft_Node\<close>: the event loop of \<open>curp/raft.go\<close>. The etcd library is a parameter; the calls the
    program makes are recorded as effects.
  \<^item> \<open>Raft_Start\<close>: the rest of \<open>curp/raft.go\<close> (construction, start from the write-ahead log, the
    HTTP server and the callbacks of the transport) and \<open>curp/listener.go\<close>. What the disk returns
    is the record \<open>disk\<close>.
  \<^item> \<open>Disk_Stores\<close>: \<open>kv/blot_kv.go\<close>, \<open>kv/blotdb.go\<close> and \<open>kv/badger_kv.go\<close> over the two databases,
    which are parameters; \<open>bolt_documented\<close> and \<open>badger_documented\<close> state what the stores rely on. The
    old-value operations of the bolt store read a slice after its transaction has ended; what they find
    there is the parameter \<open>bolt_reread\<close>, about which nothing is assumed.
  \<^item> \<open>Go_Json\<close>, \<open>Mem_Snapshot\<close>: \<open>encoding/json\<close> for a map of strings, with its escapes, its treatment
    of bytes that are not UTF-8 and its scanner, and the snapshots and \<open>Printf\<close> of \<open>kv/mem_kv.go\<close>.
  \<^item> \<open>Go_Strings\<close>: the functions of \<open>strings\<close>, \<open>strconv\<close>, \<open>bufio\<close> and \<open>time\<close> the program uses, on
    ASCII text: \<open>Itoa\<close> and \<open>Atoi\<close>, fields and lines, and \<open>ParseDuration\<close> with its rounding to 53 bits.
  \<^item> \<open>Config\<close>, \<open>Bench\<close>, \<open>Bench_Answer\<close>: the benchmark client of \<open>curp_client\<close>: its configuration parser, its load
    generator, its TCP handler with the bytes it answers, and what its program starts. Clocks, draws and the network are the
    inputs the loop consumes, one record per request.
  \<^item> \<open>Server\<close>: \<open>curp/server.go\<close>, \<open>curp_server/main.go\<close>, \<open>Startgrpc\<close> and \<open>curp/main.go\<close>: how a replica
    is put together and which replicas a process starts.
  \<^item> \<open>Trace_Log\<close>: \<open>curp/trace/log.go\<close>.
  \<^item> this theory: the properties that span components.

  \<^bold>\<open>What is shown\<close>

  \<^item> Fast path: as long as no identifier is given to two commands, conflicting commands are not both
    completed concurrently (\<open>fast_commands_ordered\<close>); a completed one survives failures
    (\<open>fast_command_survives\<close>); what a client gets from an accepted round is a linearised result
    (\<open>leader_reply_linearized\<close>, \<open>fast_reply_linearized\<close>).
  \<^item> Replication: raft publishes its log once and in order (\<open>raft_publishes_log_once\<close>), a replica
    that does not lead executes exactly that log (\<open>follower_applies_log\<close>, \<open>followers_agree\<close>,
    \<open>replica_follows_raft_log\<close>), the store is always the executed sequence
    (\<open>replica_store_refines\<close>), and no committed command is dropped. Without conflicting commands a
    replica that leads ends with the store of its log too (\<open>conflict_free_replica_agrees\<close>).
  \<^item> Progress: as long as no identifier is used twice, the worker never blocks
    (\<open>worker_never_parks\<close>), and the steps of the replica alone can execute everything raft delivered
    (\<open>replica_can_catch_up\<close>), answer every proposal for which no synchronisation was requested
    (\<open>proposal_can_complete\<close>) and answer the slow round of a command that was answered and is committed
    with the result of the fast one (\<open>sync_can_complete\<close>). A synchronisation request that arrives before
    the result has been inserted, and a proposal or a second request whose result a synchronisation
    took away, are not covered, since they can wait for ever (\<open>wait_synced_lost_wakeup\<close>,
    \<open>answered_sync_forgets\<close>). The statements say that the steps exist, so under a fair
    scheduler they are what a client can rely on.
  \<^item> Components: the contracts of witness, board, stores (in memory, bolt, badger), encoding, quorum
    and clients; a snapshot of the in-memory store reads back (\<open>snapshot_roundtrip\<close>).
  \<^item> Start and restart: the replicas of one process agree on their members
    (\<open>launched_cluster_agrees\<close>); nothing that was committed is read back after a restart
    (\<open>restart_forgets\<close>).
  \<^item> Benchmark client: its configuration reads back (\<open>config_roundtrip\<close>); the load generator ends and
    sends its commands under identifiers of their own (\<open>bench_loop_ends\<close>); its clients never share an
    identifier (\<open>bench_ids_distinct\<close>); its answer to a get reads back
    (\<open>get_answer_readable\<close>).
  \<^item> Departures from the comments: schedules in which the leader's store diverges from its log, or
    from that of its followers (\<open>swapped_proposals_diverge\<close>), a refused put that is acknowledged
    (\<open>failed_put_acknowledged\<close>), a snapshot that does not take back (\<open>snapshot_only_adds\<close>), a comparison
    of stores that is an inclusion (\<open>bolt_equal_is_inclusion\<close>); when a synchronisation request waits for
    ever, and when the reply called unreachable is sent (\<open>not_found_in_buffer_reachable\<close>); a restarted
    client that reuses an identifier reads the answer of the earlier command
    (\<open>restarted_client_reads_stale\<close>); inputs that end the process of a replica or a client.

  \<^bold>\<open>Bounds and choices\<close>

  Loops recurse over the data or the events they consume, and a call that has not returned is a value
  of its own (\<open>Parked\<close>, \<open>Waiting\<close>). Only the decoder of nested values has fuel, since the types a stream
  describes can be cyclic; the length of the value is enough (\<open>dec_data_fuel\<close>). Identifiers, codes and raft indices
  are words of the source's width; counts of replies and Go's \<open>int\<close> are mathematical integers, which
  no run of realistic length can tell apart. Strings are byte strings. A log of the raft node has
  fewer than \<open>2^64 - 1\<close> entries, and a command whose round trip is claimed fewer than \<open>2^32\<close> bytes,
  below the message limit of the gob decoder. A map is iterated in the order of the association list;
  the results that are claimed do not depend on it. Locks are modelled by the atomicity of the
  sections they protect, except the board's, which is held across a channel send.

  The loops that are not structural have termination proofs: \<open>ParseDuration_loop\<close>, \<open>dec_fields\<close>,
  \<open>decodeTypeSequence\<close>, \<open>dec_struct\<close> and the loops over text of \<open>Go_Json\<close>. The
  load generator recurses over its inputs, and \<open>bench_loop_ends\<close> shows that \<open>reqNum + 1\<close> of them are
  enough. \<open>make\<close> fails beyond the address space of the runtime (\<open>maxAlloc\<close>); that a machine runs out of
  memory before is not modelled. The end of the commit channel is the event \<open>CommitsClosed\<close>; the model
  does not exclude a commit after it, so its runs include those of the program. The arguments of the transaction functions and the directories removed when a store or a
  replica is destroyed are outside the state.

  \<^bold>\<open>Not modelled\<close>

  The fields of the Go structs that only hold locks, channels to other goroutines or library handles
  are not fields of the records: a lock is the atomicity of its section, a channel is an argument or
  an event, a handle a parameter. The waiting for process signals at the end of the two programs, the
  lines they print and generated code are left out.
\<close>

section \<open>A cluster of one replica\<close>

text \<open>
  The smallest cluster, on which the properties below are exercised: the leader answers a
  put on the fast path, sees it committed, and then answers a get of the same key.
\<close>

definition solo_events :: "node_event list" where
  "solo_events =
     [StateChange StateLeader, CallPropose demo_put, Sched 0, Sched 0, Sched 1, WorkerFast,
      WorkerContinue, Sched 0, Commit [CurpClientCommand_Encode 64 demo_put], PushCommit, WorkerSlow,
      WorkerContinue, WorkerContinue, CallPropose demo_get, Sched 2, Sched 2, Sched 3, WorkerFast,
      WorkerContinue, Sched 2]"

definition solo :: "MemStore node" where
  "solo = the (node_performs MemStore_KVStore 64 (new_node 1 (fst NewMemStore)) solo_events)"

definition solo_client :: Grpc_client where
  "solo_client = \<lparr>grpc_servers = [''a''], gc_ClientId = 1, gc_SeqId = 0, gc_f = 0, gc_LeaderId = 0,
     gc_static = \<lparr>fast = 0, slow = 0\<rparr>\<rparr>"

lemma solo_ex:
  "\<exists>s. node_performs MemStore_KVStore 64 (new_node 1 (fst NewMemStore)) solo_events = Some s \<and>
     LeaderReplied demo_put (demo_ack []) \<in> set (goroutines s) \<and>
     LeaderReplied demo_get (demo_ack ''1'') \<in> set (goroutines s) \<and>
     executed s = [demo_put, demo_get]"
  by (simp add: node_eval solo_events_def demo_fields demo_ack_def)

lemma solo_facts:
  "run (mem_node_step 64) (new_node 1 (fst NewMemStore)) solo_events solo"
  "LeaderReplied demo_put (demo_ack []) \<in> set (goroutines solo)"
  "LeaderReplied demo_get (demo_ack ''1'') \<in> set (goroutines solo)" "executed solo = [demo_put, demo_get]"
  using solo_ex by (auto simp: solo_def node_performs_run [symmetric])

lemma solo_serves: "serves {demo_put, demo_get} 64 [solo]"
proof -
  have "run (client_step {demo_put, demo_get} MemStore_KVStore 64) (new_node 1 (fst NewMemStore)) solo_events solo"
    by (rule run_client [OF solo_facts(1)]) (auto simp: solo_events_def)
  then have "reach mem_start (client_step {demo_put, demo_get} MemStore_KVStore 64) solo"
    by (rule reach_run, intro reach_init) blast
  then show ?thesis by (simp add: serves_def)
qed

lemma solo_rounds:
  "replies_from [solo] demo_put (acks [(0, demo_ack [])])"
  "replies_from [solo] demo_get (acks [(0, demo_ack ''1'')])"
  "Grpc_fastRound solo_client (acks [(0, demo_ack v)]) = Returned (Some (demo_ack v), nil)"
  "inj_on pid {demo_put, demo_get}" "Conflict demo_put demo_get"
  using solo_facts(2,3)
  by (auto simp: replies_from_def answered_def Grpc_fastRound_def Grpc_superQuorom_def quorum_of_eq
      solo_client_def demo_ack_def at_int_def demo_fields Conflict_def opcode_simps)

text \<open>The run of \<open>demo_follow\<close> behind a raft node that delivers its one commit.\<close>

definition put_log :: "Entry list" where
  "put_log = [\<lparr>ent_Term = 1, ent_Index = 1, ent_Type = EntryNormal,
     ent_Data = CurpClientCommand_Encode 64 demo_put\<rparr>]"

lemma demo_encoding_nonempty: "CurpClientCommand_Encode 64 demo_put \<noteq> []"
proof
  assume "CurpClientCommand_Encode 64 demo_put = []"
  with demo_decode have "DecodeClientCommand [] = Some demo_put" by simp
  moreover have "DecodeClientCommand [] = None" by code_simp
  ultimately show False by simp
qed

section \<open>Properties of the system\<close>

text \<open>
  C1: two conflicting commands are never both completed on the fast path while they are
  concurrent, as long as no identifier is given to two different commands: a witness keeps one command
  per identifier, so a second command under it replaces the record of the first. In a cluster of
  \<open>2 f + 1\<close> replicas, to which no two different commands with one identifier are sent, if two gRPC
  clients complete conflicting commands with different identifiers by super quorums of accepting
  replies, at least \<open>f + 1\<close> replicas have taken one of the two from the committed log. The replicas may be in
  any reachable states, under any schedule of their goroutines.
\<close>

theorem fast_commands_ordered:
  assumes "serves C tid cluster" "inj_on pid C" "int (length cluster) = 2 * f + 1" "0 \<le> f"
    and "length (grpc_servers a) = length cluster" "gc_f a = f"
    and "length (grpc_servers b) = length cluster" "gc_f b = f"
    and "replies_from cluster c es" "Grpc_fastRound a es = Returned (Some r, nil)" "StatusCode r = ACCEPTED"
    and "replies_from cluster d es'" "Grpc_fastRound b es' = Returned (Some r', nil)" "StatusCode r' = ACCEPTED"
    and "Conflict c d" "pid c \<noteq> pid d"
  shows "f + 1 \<le> int (card {i. i < length cluster \<and>
    (pid c \<in> pid ` set (consumed (cluster ! i)) \<or> pid d \<in> pid ` set (consumed (cluster ! i)))})"
proof -
  obtain A where A: "A \<subseteq> {..<length cluster}" "quorum_of f \<le> int (card A)"
      "\<And>i. i \<in> A \<Longrightarrow> c \<in> C \<and> vouches (cluster ! i) c"
    using fast_round_peers [OF assms(10,11) _ _ assms(9,1)] assms(4-6) by metis
  obtain B where B: "B \<subseteq> {..<length cluster}" "quorum_of f \<le> int (card B)"
      "\<And>i. i \<in> B \<Longrightarrow> d \<in> C \<and> vouches (cluster ! i) d"
    using fast_round_peers [OF assms(13,14) _ _ assms(12,1)] assms(4,7,8) by metis
  let ?D = "{i. i < length cluster \<and>
    (pid c \<in> pid ` set (consumed (cluster ! i)) \<or> pid d \<in> pid ` set (consumed (cluster ! i)))}"
  have "A \<inter> B \<subseteq> ?D"
    using A(1,3) B(3) conflicting_vouched [OF serves_promise [OF assms(1)] assms(2) _ _ _ _ assms(15,16)]
    by blast
  then have "card (A \<inter> B) \<le> card ?D" by (intro card_mono) simp_all
  with super.quorums_meet [OF A(1) B(1) assms(3,4) A(2) B(2)] show ?thesis by linarith
qed

theorem fast_commands_ordered_witness:
  "1 \<le> card {i. i < length [solo] \<and>
    (pid demo_put \<in> pid ` set (consumed ([solo] ! i)) \<or> pid demo_get \<in> pid ` set (consumed ([solo] ! i)))}"
  using fast_commands_ordered [OF solo_serves solo_rounds(4) _ _ _ _ _ _ solo_rounds(1,3) _ solo_rounds(2,3) _
      solo_rounds(5), of 0]
  by (simp add: solo_client_def demo_ack_def demo_fields)

text \<open>
  C5: a command completed on the fast path survives failures. Among any \<open>f + 1\<close> of the
  \<open>2 f + 1\<close> replicas, a strict majority still vouches for it: records its identifier in the
  witness or has taken it from the committed log.
\<close>

theorem fast_command_survives:
  assumes "serves C tid cluster" "int (length cluster) = 2 * f + 1" "0 \<le> f"
    and "length (grpc_servers a) = length cluster" "gc_f a = f"
    and "replies_from cluster c es" "Grpc_fastRound a es = Returned (Some r, nil)" "StatusCode r = ACCEPTED"
    and "Q \<subseteq> {..<length cluster}" "int (card Q) = f + 1"
  shows "int (card Q) < 2 * int (card {i \<in> Q. vouches (cluster ! i) c})"
proof -
  obtain A where A: "A \<subseteq> {..<length cluster}" "quorum_of f \<le> int (card A)"
      "\<And>i. i \<in> A \<Longrightarrow> c \<in> C \<and> vouches (cluster ! i) c"
    using fast_round_peers [OF assms(7,8) _ _ assms(6,1)] assms(3-5) by metis
  have "card (A \<inter> Q) \<le> card {i \<in> Q. vouches (cluster ! i) c}"
    using A(3) finite_subset [OF assms(9)] by (intro card_mono) auto
  with super.majority_meets [OF A(1) assms(9,2,3) A(2) assms(10)] show ?thesis by linarith
qed

theorem fast_command_survives_witness:
  "card {i \<in> {0}. vouches ([solo] ! i) demo_put} = 1"
proof -
  have "1 < 2 * int (card {i \<in> {0::nat}. vouches ([solo] ! i) demo_put})"
    using fast_command_survives [OF solo_serves _ _ _ _ solo_rounds(1,3), of 0 "{0}"]
    by (simp add: solo_client_def demo_ack_def)
  moreover have "card {i \<in> {0::nat}. vouches ([solo] ! i) demo_put} \<le> card {0::nat}"
    by (intro card_mono) auto
  ultimately show ?thesis by simp
qed

text \<open>
  C6: what an accepted fast round returns. The round ends without an error, and the status of the reply it
  returns is \<open>ACCEPTED\<close>; a reply that reports a conflict may be that of any replica and sends the client to
  the slow round. The content is either the result of executing a command
  with this identifier at one position of the execution order of the replica the client
  takes for the leader, on the store the commands before it produce; or that replica did not
  act as leader when it answered, and the content is the empty string, which the client
  cannot tell from a result.
\<close>

theorem fast_reply_linearized:
  assumes "serves C tid cluster" "0 \<le> gc_f a" "0 \<le> gc_LeaderId a"
    and "replies_from cluster c es" "Grpc_fastRound a es = Returned (Some r, nil)" "StatusCode r = ACCEPTED"
  shows "let s = cluster ! nat (gc_LeaderId a) in
     (\<exists>n < length (executed s). pid (executed s ! n) = pid c \<and>
        Content r = result_of (executed s ! n) (apply_all (take n (executed s)) Map.empty)) \<or>
     FollowerReplied c r \<in> set (goroutines s) \<and> Content r = []"
proof -
  let ?s = "cluster ! nat (gc_LeaderId a)"
  have "Arrives (nat (gc_LeaderId a)) (Some r) \<in> set es"
    using fast_round_leader [OF assms(5,6,2)] .
  then have at: "nat (gc_LeaderId a) < length cluster" "answered ?s c r"
    using assms(4) by (auto simp: replies_from_def)
  then have reach: "reach mem_start (mem_node_step tid) ?s"
    using assms(1) by (intro reach_client_node) (auto simp: serves_def)
  from at(2) consider "FollowerReplied c r \<in> set (goroutines ?s)" | "LeaderReplied c r \<in> set (goroutines ?s)"
    by (auto simp: answered_def)
  then show ?thesis
  proof cases
    case 1
    with follower_replies.holds_reachable [OF reach] show ?thesis
      by (auto simp: follower_replies_inv_def Let_def)
  next
    case 2
    from leader_reply_position [OF reach this] show ?thesis by (simp add: Let_def)
  qed
qed

theorem fast_reply_linearized_witness:
  "(\<exists>n < length (executed solo). pid (executed solo ! n) = pid demo_get \<and>
      ''1'' = result_of (executed solo ! n) (apply_all (take n (executed solo)) Map.empty)) \<or>
   FollowerReplied demo_get (demo_ack ''1'') \<in> set (goroutines solo) \<and> ''1'' = []"
  using fast_reply_linearized [OF solo_serves _ _ solo_rounds(2,3)]
  by (simp add: solo_client_def demo_ack_def Let_def)

text \<open>
  C3: end to end on a replica that does not lead. When the raft library delivers batches of a
  log whose ordinary entries are encoded commands, and the state machine has received a
  prefix of what the raft node sent it, then the commands it executed are the first ones of
  the log, in order and each exactly once, and its store is what they produce.
\<close>

theorem replica_follows_raft_log:
  assumes "log_from b ents" "normal_data ents = map (CurpClientCommand_Encode tid) cs" "0 < tid" "tid < 2 ^ 31"
    and "\<forall>c\<in>set cs. command_fits c"
    and "unat (sn_Index snap) = b" "published (effects rc) = []" "\<forall>e\<in>set bs. delivers_slice ents e"
    and "serveChannels L (snap, nil) rc bs = Goes rc'"
    and "run (mem_node_step tid) (new_node n (fst NewMemStore)) es s" "StateChange StateLeader \<notin> set es"
    and "published (effects rc') = commit_data es @ rest"
  shows "executed s = take (length (executed s)) cs \<and>
         mem_view (sm_KVStore s) = apply_all (take (length (executed s)) cs) Map.empty"
proof -
  let ?rc = "rc\<lparr>confState := sn_ConfState snap, snapshotIndex := sn_Index snap, appliedIndex := sn_Index snap\<rparr>"
  have "in_step b ents ?rc" unfolding in_step_def
    using assms(6,7) by (intro exI [of _ 0]) (simp add: normal_data_def)
  then obtain m where m: "published (effects rc') = normal_data (take m ents)"
    using serveChannels_loop_in_step [of L ?rc bs rc' b ents] assms(1,8,9)
    by (auto simp: in_step_def serveChannels_def)
  obtain rest' where "normal_data ents = commit_data es @ rest'"
    using m assms(12) normal_data_append [of "take m ents" "drop m ents"] by (metis append_take_drop_id append_assoc)
  moreover have "map DecodeClientCommand (map (CurpClientCommand_Encode tid) cs) = map Some cs"
    using assms(5) DecodeClientCommand_Encode [OF assms(3,4)] by (simp only: map_map map_eq_conv o_apply) blast
  ultimately have "map Some cs = map DecodeClientCommand (commit_data es) @ map DecodeClientCommand rest'"
    by (metis assms(2) map_append)
  moreover have "map Some (executed s) = take (length (executed s)) (map DecodeClientCommand (commit_data es))"
    using run_log [OF assms(10)] follower_run_executed [OF assms(10,11)] by simp
  moreover from this have "length (executed s) \<le> length (commit_data es)"
    by (metis length_map length_take min.cobounded1 min_def)
  ultimately have "map Some (executed s) = map Some (take (length (executed s)) cs)"
    by (simp flip: take_map)
  then have "executed s = take (length (executed s)) cs" by (simp add: inj_map_eq_map)
  then show ?thesis using mem_run_store [OF assms(10)] by simp
qed

theorem replica_follows_raft_log_witness:
  "executed demo_follower = take (length (executed demo_follower)) [demo_put] \<and>
   mem_view (sm_KVStore demo_follower) = apply_all (take (length (executed demo_follower)) [demo_put]) Map.empty"
proof -
  let ?batch = "ReadyCame (nil, nil, nil) False (demo_batch (take 1 (drop 0 put_log)))"
  have "\<exists>rc'. serveChannels demo_lib (demo_snap, nil) demo_node [?batch] = Goes rc' \<and>
      published (effects rc') = [CurpClientCommand_Encode 64 demo_put]"
    by (simp add: raft_eval put_log_def demo_encoding_nonempty)
  then obtain rc' where rc': "serveChannels demo_lib (demo_snap, nil) demo_node [?batch] = Goes rc'"
      "published (effects rc') = [CurpClientCommand_Encode 64 demo_put]" by blast
  show ?thesis
  proof (rule replica_follows_raft_log [where b = 0 and snap = demo_snap and bs = "[?batch]" and ents = put_log and
        rest = "[]", OF _ _ _ _ _ _ _ _ rc'(1) demo_follower_facts(1,3)])
    show "\<forall>e\<in>set [?batch]. delivers_slice put_log e"
      unfolding demo_batch_def demo_snap_def
      by (simp add: IsEmptySnap_def) (intro exI [of _ 0] exI [of _ 1], simp)
    show "normal_data put_log = map (CurpClientCommand_Encode 64) [demo_put]"
      by (simp add: put_log_def normal_data_def demo_encoding_nonempty)
    show "published (effects rc') = commit_data demo_follow @ []" by (simp add: rc'(2) demo_follow_def)
  qed (simp_all add: log_from_def put_log_def command_fits_def demo_put_def demo_snap_def demo_node_def)
qed

section \<open>Clients that start again\<close>

text \<open>
  C32: a client that is started under the number \<open>k\<close> takes the identifier \<open>(k, 1)\<close> for its first
  request, whatever a client of that number asked before. Take a leader, in any reachable state in
  which its worker is idle, whose board remembers a result for that identifier. The first get of
  the client can be answered with the remembered result, with no command executed; it is the result of
  a command with that identifier at an earlier position of the execution order, whatever was executed
  after it. The reply is accepted unless the witness finds a conflict.
\<close>

theorem restarted_client_reads_stale:
  assumes "NewGrpcClient dial rpc servers k = Returned (Some cl, e)" "cmd = snd (Grpc_Get_command cl key)"
    and "reach mem_start (mem_node_step tid) s" "\<not> crashed s" "worker s = Selects" "raftState s = StateLeader"
    and "mget (erBuffer (commandBoard s)) \<lparr>ClientId = k, SeqId = 1\<rparr> = Some r"
  shows "\<exists>t. run (mem_node_step tid) s (CallPropose cmd # replicate 3 (Sched (length (goroutines s)))) t \<and>
    LeaderReplied cmd \<lparr>Content = r,
        StatusCode = if snd (InsertIfNotConflict (witness s) cmd) then CONFLICT else ACCEPTED, ReplySeqId = 0\<rparr>
      \<in> set (goroutines t) \<and>
    executed t = executed s \<and>
    (\<exists>n < length (executed s). pid (executed s ! n) = \<lparr>ClientId = k, SeqId = 1\<rparr> \<and>
       r = result_of (executed s ! n) (apply_all (take n (executed s)) Map.empty))"
proof -
  from NewGrpcClient_fields [OF assms(1)] assms(2) have cmd: "pid cmd = \<lparr>ClientId = k, SeqId = 1\<rparr>" "unat (Op cmd) < 5"
    by (simp_all add: Grpc_Get_command_def Grpc_GetProposeId_def CurpClientCommand_ProposeId_def opcode_simps Let_def)
  have "board_ok s" by (rule node_boards.holds_reachable [OF assms(3)])
  from remembered_answer [OF this assms(4-6) cmd(2)] assms(7) cmd(1) obtain t where
    t: "run (mem_node_step tid) s (CallPropose cmd # replicate 3 (Sched (length (goroutines s)))) t"
      "LeaderReplied cmd (Propose_reply r (snd (InsertIfNotConflict (witness s) cmd))) \<in> set (goroutines t)"
      "executed t = executed s" by metis
  from leader_reply_position [OF reach_run [OF t(1) assms(3)] t(2)] have
    "\<exists>n < length (executed s). pid (executed s ! n) = \<lparr>ClientId = k, SeqId = 1\<rparr> \<and>
       r = result_of (executed s ! n) (apply_all (take n (executed s)) Map.empty)"
    unfolding t(3) cmd(1) Propose_reply_fields by simp
  with t show ?thesis unfolding Propose_reply_fields by blast
qed

theorem restarted_client_reads_stale_witness:
  "\<exists>s t. run (mem_node_step 64) (new_node 1 (fst NewMemStore)) reuse_events s \<and>
     run (mem_node_step 64) s (CallPropose demo_get # replicate 3 (Sched (length (goroutines s)))) t \<and>
     consumed s = [demo_get, demo_put] \<and> mem_view (sm_KVStore s) (Key demo_get) = Some (Value demo_put) \<and>
     LeaderReplied demo_get \<lparr>Content = ''NOT FOUND IN STATE'', StatusCode = ACCEPTED, ReplySeqId = 0\<rparr> \<in> set (goroutines t)"
proof -
  from reuse_run obtain s where s: "run (mem_node_step 64) (new_node 1 (fst NewMemStore)) reuse_events s"
      "\<not> crashed s" "worker s = Selects" "raftState s = StateLeader" "consumed s = [demo_get, demo_put]"
      "mget (erBuffer (commandBoard s)) (pid demo_get) = Some ''NOT FOUND IN STATE''"
      "\<not> snd (InsertIfNotConflict (witness s) demo_get)" "mem_view (sm_KVStore s) ''x'' = Some ''1''" by blast
  have "NewGrpcClient (fst (demo_net 0)) (snd (demo_net 0)) [''a'', ''b''] 2 = Returned (Some (demo_bench_client 2), nil)"
    by (simp add: demo_net_def NewGrpcClient_def Grpc_fetchLeader_def Grpc_isLeader_def failures_def demo_bench_client_def Let_def)
  moreover have "demo_get = snd (Grpc_Get_command (demo_bench_client 2) ''x'')"
    by (simp add: demo_get_def Grpc_Get_command_def Grpc_GetProposeId_def demo_bench_client_def zero_command_def Let_def)
  moreover have "reach mem_start (mem_node_step 64) s" by (rule reach_run [OF s(1)], rule reach_init) blast
  ultimately show ?thesis
    using restarted_client_reads_stale [of _ _ _ 2 "demo_bench_client 2" nil demo_get "''x''" 64 s] s
    by (fastforce simp: demo_fields)
qed

end
